(* ===== verification/Prelude.thy ===== *)
theory Prelude
  imports Main "HOL-Library.Word" "HOL-Library.Char_ord" "HOL-Library.List_Lexorder"
    "HOL-Library.Sublist"
begin

text \<open>
  What the components share: the machine types, the result type of fallible Rust code with
  the \<open>?\<close> operator, the saturating and checked operations of Rust's integers, slices
  \<open>bytes[a..b]\<close> and the list facts the byte-level proofs rest on.

  A \<open>usize\<close> is a \<open>nat\<close>: a length or an index into a buffer that exists is below
  \<open>2 ^ 64\<close>; the operations of the source that test for overflow of a \<open>usize\<close>
  (\<open>checked_add\<close>, \<open>saturating_add\<close>) are written out with that bound.
\<close>

type_synonym byte = "8 word"
type_synonym bytes = "byte list"
type_synonym u32 = "32 word"
type_synonym u64 = "64 word"

named_theorems codec_simps \<open>round trips of the byte readers on what the writers produced\<close>
named_theorems inv_intros \<open>preservation of the components' invariants\<close>

section \<open>Results\<close>

text \<open>\<open>Result<T, E>\<close>: \<open>Inl\<close> carries the error.\<close>

type_synonym ('e, 'a) result = "'e + 'a"

abbreviation Ok :: "'a \<Rightarrow> ('e, 'a) result" where
  "Ok \<equiv> Inr"

abbreviation Err :: "'e \<Rightarrow> ('e, 'a) result" where
  "Err \<equiv> Inl"

text \<open>The \<open>?\<close> operator: go on with the value, or return the error.\<close>

definition and_then :: "('e, 'a) result \<Rightarrow> ('a \<Rightarrow> ('e, 'b) result) \<Rightarrow> ('e, 'b) result" where
  "and_then r f = (case r of Inl e \<Rightarrow> Inl e | Inr a \<Rightarrow> f a)"

lemma and_then_Ok [simp, code_unfold]: "and_then (Ok a) f = f a"
  by (simp add: and_then_def)

lemma and_then_Err [simp]: "and_then (Err e) f = Err e"
  by (simp add: and_then_def)

lemma and_then_cong [fundef_cong]:
  "r = r' \<Longrightarrow> (\<And>a. r' = Ok a \<Longrightarrow> f a = f' a) \<Longrightarrow> and_then r f = and_then r' f'"
  by (cases r') simp_all

lemma and_then_eq_Ok:
  "and_then r f = Ok b \<longleftrightarrow> (\<exists>a. r = Ok a \<and> f a = Ok b)"
  by (cases r) simp_all

lemma and_then_assoc: "and_then (and_then r f) g = and_then r (\<lambda>a. and_then (f a) g)"
  by (cases r) simp_all

text \<open>\<open>Option::ok_or_else\<close> and a guard that returns early.\<close>

definition ok_or :: "'e \<Rightarrow> 'a option \<Rightarrow> ('e, 'a) result" where
  "ok_or e x = (case x of None \<Rightarrow> Err e | Some a \<Rightarrow> Ok a)"

lemma ok_or_simps [simp]: "ok_or e None = Err e" "ok_or e (Some a) = Ok a"
  by (simp_all add: ok_or_def)

lemma ok_or_eq_Ok [simp]: "ok_or e x = Ok a \<longleftrightarrow> x = Some a"
  by (cases x) simp_all

definition reject_if :: "bool \<Rightarrow> 'e \<Rightarrow> ('e, unit) result" where
  "reject_if b e = (if b then Err e else Ok ())"

lemma reject_if_simps [simp]: "reject_if True e = Err e" "reject_if False e = Ok ()"
  by (simp_all add: reject_if_def)

lemma reject_if_eq_Ok [simp]: "reject_if b e = Ok u \<longleftrightarrow> \<not> b"
  by (simp add: reject_if_def)

text \<open>
  Code that updates a state and may return early: \<open>st_then\<close> goes on with the state the first
  part left, or returns its error with that state; \<open>st_try\<close> lifts a result, \<open>st_do\<close> an
  update.
\<close>

type_synonym ('s, 'e, 'a) proc = "'s \<Rightarrow> ('e, 'a) result \<times> 's"

definition st_then :: "('s, 'e, 'a) proc \<Rightarrow> ('a \<Rightarrow> ('s, 'e, 'b) proc) \<Rightarrow> ('s, 'e, 'b) proc" where
  "st_then m f s = (case m s of (Inl e, s) \<Rightarrow> (Inl e, s) | (Inr a, s) \<Rightarrow> f a s)"

definition st_try :: "('e, 'a) result \<Rightarrow> ('s, 'e, 'a) proc" where
  "st_try r s = (r, s)"

definition st_do :: "('s \<Rightarrow> 's) \<Rightarrow> ('s, 'e, unit) proc" where
  "st_do f s = (Ok (), f s)"

lemma st_then_simps [simp]:
  "m s = (Inl e, s') \<Longrightarrow> st_then m f s = (Inl e, s')" "m s = (Inr a, s') \<Longrightarrow> st_then m f s = f a s'"
  by (simp_all add: st_then_def)

lemma st_then_try [simp]:
  "st_then (st_try (Ok a)) f s = f a s" "st_then (st_try (Err e)) f s = (Err e, s)"
  by (simp_all add: st_then_def st_try_def)

lemma st_then_do [simp]: "st_then (st_do g) f s = f () (g s)"
  by (simp add: st_then_def st_do_def)

section \<open>Machine integers\<close>

text \<open>\<open>usize\<close> and \<open>u64\<close> values as \<open>nat\<close> with the bound written out.\<close>

definition usize_max :: nat where
  "usize_max = 2 ^ 64 - 1"

definition sat_add :: "nat \<Rightarrow> nat \<Rightarrow> nat" where
  "sat_add a b = min usize_max (a + b)"

definition sat_mul :: "nat \<Rightarrow> nat \<Rightarrow> nat" where
  "sat_mul a b = min usize_max (a * b)"

definition checked_add :: "nat \<Rightarrow> nat \<Rightarrow> nat option" where
  "checked_add a b = (if a + b \<le> usize_max then Some (a + b) else None)"

lemma usize_max_pos: "0 < usize_max"
  by (simp add: usize_max_def)

lemma sat_add_small [simp]: "a + b \<le> usize_max \<Longrightarrow> sat_add a b = a + b"
  by (simp add: sat_add_def)

text \<open>Evaluation compares integers, so that a witness never unfolds the bound in unary.\<close>

lemma sat_add_code [code]:
  "sat_add a b = (if int a + int b \<le> 18446744073709551615 then a + b else usize_max)"
  by (auto simp: sat_add_def usize_max_def)

lemma sat_mul_code [code]:
  "sat_mul a b = (if int a * int b \<le> 18446744073709551615 then a * b else usize_max)"
proof -
  have "int a * int b \<le> 18446744073709551615 \<longleftrightarrow> a * b \<le> usize_max"
    by (simp add: usize_max_def flip: of_nat_mult)
  then show ?thesis by (auto simp: sat_mul_def)
qed

lemma checked_add_code [code]:
  "checked_add a b = (if int a + int b \<le> 18446744073709551615 then Some (a + b) else None)"
  by (auto simp: checked_add_def usize_max_def)

lemma sat_add_le: "sat_add a b \<le> usize_max"
  by (simp add: sat_add_def)

lemma sat_add_ge: "a \<le> usize_max \<Longrightarrow> a \<le> sat_add a b"
  by (simp add: sat_add_def)

lemma checked_add_Some [simp]: "checked_add a b = Some c \<longleftrightarrow> c = a + b \<and> a + b \<le> usize_max"
  by (auto simp: checked_add_def)

lemma unat_u64_le [simp]: "unat (w :: u64) \<le> usize_max"
proof -
  have "unat w < 2 ^ 64"
    using unsigned_less [of w] by simp
  then show ?thesis by (simp add: usize_max_def)
qed

section \<open>Slices\<close>

text \<open>\<open>bytes.get(a..b)\<close>: nothing when the range leaves the buffer.\<close>

definition subslice :: "'a list \<Rightarrow> nat \<Rightarrow> nat \<Rightarrow> 'a list option" where
  "subslice xs a b = (if a \<le> b \<and> b \<le> length xs then Some (take (b - a) (drop a xs)) else None)"

lemma subslice_append [simp]:
  "subslice (pre @ mid @ post) (length pre) (length pre + length mid) = Some mid"
  by (simp add: subslice_def)

lemma subslice_append_tail [simp]:
  "subslice (pre @ mid) (length pre) (length pre + length mid) = Some mid"
  using subslice_append [of pre mid "[]"] by simp

lemma subslice_Some_length: "subslice xs a b = Some ys \<Longrightarrow> length ys = b - a"
  by (auto simp: subslice_def split: if_splits)

section \<open>Lists\<close>

lemma take_append_exact: "n = length xs \<Longrightarrow> take n (xs @ ys) = xs"
  by simp

lemma drop_append_exact: "n = length xs \<Longrightarrow> drop n (xs @ ys) = ys"
  by simp

lemma length_concat_map: "length (concat (map f xs)) = (\<Sum>x\<leftarrow>xs. length (f x))"
  by (induction xs) simp_all

lemma find_Some_in: "List.find P xs = Some x \<Longrightarrow> x \<in> set xs \<and> P x"
  by (auto simp: find_Some_iff)

end
