(* ===== verification/Codec.thy ===== *)
theory Codec
  imports Prelude
begin

text \<open>
  The byte codec of \<open>crates/thingdb/src/lib.rs\<close>: big-endian integers and length-prefixed
  byte strings, appended to an output buffer by the writers and read back by the readers from
  a buffer and a cursor. A reader returns the value and the new cursor. The locale
  \<open>codec\<close> is the contract between a writer and its reader that the log and the table
  format rely on; \<open>read_many\<close> is the loop \<open>for _ in 0..count\<close> over a reader.
\<close>

datatype db_error = Message string

type_synonym 'a db_result = "(db_error, 'a) result"

text \<open>A byte string literal \<open>b"..."\<close>.\<close>

definition ascii :: "string \<Rightarrow> bytes" where
  "ascii s = map of_char s"

section \<open>Writers\<close>

fun to_be :: "nat \<Rightarrow> nat \<Rightarrow> bytes" where
  "to_be 0 v = []"
| "to_be (Suc n) v = to_be n (v div 256) @ [of_nat (v mod 256)]"

definition from_be :: "bytes \<Rightarrow> nat" where
  "from_be bs = foldl (\<lambda>a b. a * 256 + unat b) 0 bs"

definition write_u32 :: "bytes \<Rightarrow> u32 \<Rightarrow> bytes" where
  "write_u32 output value = output @ to_be 4 (unat value)"

definition write_u64 :: "bytes \<Rightarrow> u64 \<Rightarrow> bytes" where
  "write_u64 output value = output @ to_be 8 (unat value)"

definition write_bytes :: "bytes \<Rightarrow> bytes \<Rightarrow> bytes db_result" where
  "write_bytes output bs =
     and_then (reject_if (length bs > usize_max) (Message ''ThingDB value is too large'')) (\<lambda>_.
     Ok (write_u64 output (of_nat (length bs)) @ bs))"

section \<open>Readers\<close>

definition read_byte :: "bytes \<Rightarrow> nat \<Rightarrow> (byte \<times> nat) db_result" where
  "read_byte bs cursor =
     (if cursor \<ge> length bs then Err (Message ''truncated ThingDB record'')
      else Ok (bs ! cursor, cursor + 1))"

definition read_u32 :: "bytes \<Rightarrow> nat \<Rightarrow> (u32 \<times> nat) db_result" where
  "read_u32 bs cursor =
     and_then (ok_or (Message ''ThingDB length overflow'') (checked_add cursor 4)) (\<lambda>end.
     and_then (ok_or (Message ''truncated ThingDB record'') (subslice bs cursor end)) (\<lambda>value.
     Ok (of_nat (from_be value), end)))"

definition read_u64 :: "bytes \<Rightarrow> nat \<Rightarrow> (u64 \<times> nat) db_result" where
  "read_u64 bs cursor =
     and_then (ok_or (Message ''ThingDB length overflow'') (checked_add cursor 8)) (\<lambda>end.
     and_then (ok_or (Message ''truncated ThingDB record'') (subslice bs cursor end)) (\<lambda>value.
     Ok (of_nat (from_be value), end)))"

definition read_bytes :: "bytes \<Rightarrow> nat \<Rightarrow> (bytes \<times> nat) db_result" where
  "read_bytes bs cursor =
     and_then (read_u64 bs cursor) (\<lambda>(len, cursor).
     and_then (ok_or (Message ''ThingDB value length overflow'')
                (checked_add cursor (unat len))) (\<lambda>end.
     and_then (ok_or (Message ''truncated ThingDB value'') (subslice bs cursor end)) (\<lambda>value.
     Ok (value, end))))"

definition skip_bytes :: "bytes \<Rightarrow> nat \<Rightarrow> nat db_result" where
  "skip_bytes bs cursor =
     and_then (read_u64 bs cursor) (\<lambda>(len, cursor).
     and_then (ok_or (Message ''ThingDB value length overflow'')
                (checked_add cursor (unat len))) (\<lambda>end.
     and_then (reject_if (end > length bs) (Message ''truncated ThingDB value'')) (\<lambda>_.
     Ok end)))"

fun read_many :: "(bytes \<Rightarrow> nat \<Rightarrow> ('a \<times> nat) db_result) \<Rightarrow> nat \<Rightarrow> bytes \<Rightarrow> nat
    \<Rightarrow> ('a list \<times> nat) db_result" where
  "read_many rd 0 bs cursor = Ok ([], cursor)"
| "read_many rd (Suc n) bs cursor =
     and_then (rd bs cursor) (\<lambda>(x, cursor).
     and_then (read_many rd n bs cursor) (\<lambda>(xs, cursor). Ok (x # xs, cursor)))"

section \<open>Integers\<close>

lemma length_to_be [simp]: "length (to_be n v) = n"
  by (induction n arbitrary: v) simp_all

lemma from_be_snoc [simp]: "from_be (bs @ [b]) = from_be bs * 256 + unat b"
  by (simp add: from_be_def)

lemma unat_of_nat_byte [simp]: "unat (of_nat (v mod 256) :: byte) = v mod 256"
  by (simp add: unat_of_nat)

lemma from_be_to_be: "from_be (to_be n v) = v mod 256 ^ n"
proof (induction n arbitrary: v)
  case 0
  show ?case by (simp add: from_be_def)
next
  case (Suc n)
  show ?case
    using mod_mult2_eq [of v 256 "256 ^ n"] by (simp add: Suc.IH mult.commute)
qed

lemma from_be_to_be_u64 [simp]: "of_nat (from_be (to_be 8 (unat w))) = (w :: u64)"
proof -
  have "unat w < 2 ^ 64"
    using unsigned_less [of w] by simp
  then show ?thesis by (simp add: from_be_to_be)
qed

lemma from_be_to_be_u32 [simp]: "of_nat (from_be (to_be 4 (unat w))) = (w :: u32)"
proof -
  have "unat w < 2 ^ 32"
    using unsigned_less [of w] by simp
  then show ?thesis by (simp add: from_be_to_be)
qed

lemma to_be_inject: "u < 256 ^ n \<Longrightarrow> v < 256 ^ n \<Longrightarrow> to_be n u = to_be n v \<longleftrightarrow> u = v"
  by (metis from_be_to_be mod_less)

section \<open>The contract of a writer and its reader\<close>

text \<open>
  What the reader gives back on a buffer that holds the writer's bytes at the cursor, whatever
  is around them, as long as the buffer fits in memory.
\<close>

locale codec =
  fixes enc :: "'a \<Rightarrow> bytes"
    and dec :: "bytes \<Rightarrow> nat \<Rightarrow> ('a \<times> nat) db_result"
    and valid :: "'a \<Rightarrow> bool"
  assumes dec_enc: "valid a \<Longrightarrow> length pre + length (enc a) \<le> usize_max \<Longrightarrow>
    dec (pre @ enc a @ post) (length pre) = Ok (a, length pre + length (enc a))"
begin

lemma dec_enc_tail:
  "valid a \<Longrightarrow> length pre + length (enc a) \<le> usize_max \<Longrightarrow>
    dec (pre @ enc a) (length pre) = Ok (a, length pre + length (enc a))"
  using dec_enc [of a pre "[]"] by simp

lemma read_many_enc:
  assumes "list_all valid xs"
    and "length pre + length (concat (map enc xs)) \<le> usize_max"
  shows "read_many dec (length xs) (pre @ concat (map enc xs) @ post) (length pre) =
    Ok (xs, length pre + length (concat (map enc xs)))"
  using assms
proof (induction xs arbitrary: pre)
  case Nil
  then show ?case by simp
next
  case (Cons x xs)
  have "read_many dec (length xs) ((pre @ enc x) @ concat (map enc xs) @ post) (length (pre @ enc x))
      = Ok (xs, length (pre @ enc x) + length (concat (map enc xs)))"
    by (rule Cons.IH) (use Cons.prems in simp_all)
  moreover have "dec (pre @ enc x @ concat (map enc xs) @ post) (length pre)
      = Ok (x, length pre + length (enc x))"
    by (rule dec_enc) (use Cons.prems in simp_all)
  ultimately show ?case
    by (simp add: add.assoc)
qed

lemma enc_inject:
  assumes "valid a" "valid b" "length (enc a) \<le> usize_max" "enc a = enc b"
  shows "a = b"
  using dec_enc [of a "[]" "[]"] dec_enc [of b "[]" "[]"] assms by simp

end

text \<open>The bytes each writer appends.\<close>

definition enc_u32 :: "u32 \<Rightarrow> bytes" where
  "enc_u32 v = write_u32 [] v"

definition enc_u64 :: "u64 \<Rightarrow> bytes" where
  "enc_u64 v = write_u64 [] v"

definition enc_bytes :: "bytes \<Rightarrow> bytes" where
  "enc_bytes bs = write_u64 [] (of_nat (length bs)) @ bs"

lemma length_enc [simp]:
  "length (enc_u32 v) = 4" "length (enc_u64 w) = 8" "length (enc_bytes bs) = 8 + length bs"
  by (simp_all add: enc_u32_def enc_u64_def enc_bytes_def write_u32_def write_u64_def)

lemma write_u32_enc: "write_u32 output v = output @ enc_u32 v"
  by (simp add: enc_u32_def write_u32_def)

lemma write_u64_enc: "write_u64 output v = output @ enc_u64 v"
  by (simp add: enc_u64_def write_u64_def)

lemma write_bytes_enc:
  "length bs \<le> usize_max \<Longrightarrow> write_bytes output bs = Ok (output @ enc_bytes bs)"
  by (simp add: write_bytes_def enc_bytes_def write_u64_def)

lemmas writer_enc = write_u32_enc write_u64_enc write_bytes_enc

interpretation u32c: codec enc_u32 read_u32 "\<lambda>_. True"
proof
  fix a :: u32 and pre post :: bytes
  assume "length pre + length (enc_u32 a) \<le> usize_max"
  then show "read_u32 (pre @ enc_u32 a @ post) (length pre) = Ok (a, length pre + length (enc_u32 a))"
    using subslice_append [of pre "enc_u32 a" post]
    by (simp add: read_u32_def checked_add_def) (simp add: enc_u32_def write_u32_def)
qed

interpretation u64c: codec enc_u64 read_u64 "\<lambda>_. True"
proof
  fix a :: u64 and pre post :: bytes
  assume "length pre + length (enc_u64 a) \<le> usize_max"
  then show "read_u64 (pre @ enc_u64 a @ post) (length pre) = Ok (a, length pre + length (enc_u64 a))"
    using subslice_append [of pre "enc_u64 a" post]
    by (simp add: read_u64_def checked_add_def) (simp add: enc_u64_def write_u64_def)
qed

lemma unat_of_nat_u64: "n \<le> usize_max \<Longrightarrow> unat (of_nat n :: u64) = n"
  by (simp add: unat_of_nat usize_max_def)

lemma unat_of_nat_u32: "n < 2 ^ 32 \<Longrightarrow> unat (of_nat n :: u32) = n"
  by (simp add: unat_of_nat)

lemma enc_bytes_split: "enc_bytes bs = enc_u64 (of_nat (length bs)) @ bs"
  by (simp add: enc_bytes_def enc_u64_def)

lemma read_u64_len:
  assumes "length pre + length (enc_bytes bs) \<le> usize_max"
  shows "read_u64 (pre @ enc_bytes bs @ post) (length pre) = Ok (of_nat (length bs), length pre + 8)"
  using u64c.dec_enc [of pre "of_nat (length bs)" "bs @ post"] assms by (simp add: enc_bytes_split)

interpretation bytesc: codec enc_bytes read_bytes "\<lambda>_. True"
proof
  fix bs pre post :: bytes
  assume fits: "length pre + length (enc_bytes bs) \<le> usize_max"
  have "subslice (pre @ enc_bytes bs @ post) (length pre + 8) (length pre + 8 + length bs) = Some bs"
    using subslice_append [of "pre @ enc_u64 (of_nat (length bs))" bs post] by (simp add: enc_bytes_split)
  with fits show "read_bytes (pre @ enc_bytes bs @ post) (length pre)
      = Ok (bs, length pre + length (enc_bytes bs))"
    by (simp add: read_bytes_def read_u64_len [OF fits] unat_of_nat_u64 checked_add_def add.assoc)
qed

text \<open>Skipping a value moves the cursor exactly as reading it does.\<close>

lemma skip_bytes_read: "skip_bytes bs c = and_then (read_bytes bs c) (\<lambda>(v, c). Ok c)"
proof (cases "read_u64 bs c")
  case (Inr a)
  then show ?thesis
    by (cases a) (auto simp: skip_bytes_def read_bytes_def checked_add_def subslice_def
        reject_if_def)
qed (simp add: skip_bytes_def read_bytes_def)

lemma read_byte_append [simp]:
  "read_byte (pre @ b # post) (length pre) = Ok (b, length pre + 1)"
  by (simp add: read_byte_def)

end
