(* ===== verification/Ordered_Map.thy ===== *)
theory Ordered_Map
  imports Prelude
begin

text \<open>
  \<open>std::collections::BTreeMap\<close> as the engine uses it: a strictly ascending association
  list. \<open>bm_get\<close>, \<open>bm_insert\<close> and \<open>bm_remove\<close> are the map's operations, iteration
  is the list itself, and \<open>bm_range\<close> is \<open>BTreeMap::range\<close> with an inclusive or
  exclusive lower bound and an optional exclusive upper bound. \<open>HashMap\<close>, where the code
  never depends on an iteration order, is an association list with distinct keys
  (\<open>hm_get\<close>, \<open>hm_insert\<close>, \<open>hm_remove\<close>). The locale \<open>finite_map\<close> is what
  the users of a map rely on, \<open>ordered_map\<close> adds that the lookups determine the map; both
  are interpreted on the list models at the end.
\<close>

type_synonym ('k, 'v) btree = "('k \<times> 'v) list"

definition bm_ok :: "('k::linorder, 'v) btree \<Rightarrow> bool" where
  "bm_ok m \<longleftrightarrow> sorted_wrt (<) (map fst m)"

definition bm_get :: "('k, 'v) btree \<Rightarrow> 'k \<Rightarrow> 'v option" where
  "bm_get m k = map_of m k"

fun bm_insert :: "'k::linorder \<Rightarrow> 'v \<Rightarrow> ('k, 'v) btree \<Rightarrow> ('k, 'v) btree" where
  "bm_insert k v [] = [(k, v)]"
| "bm_insert k v (e # m) =
     (if fst e < k then e # bm_insert k v m
      else if fst e = k then (k, v) # m
      else (k, v) # e # m)"

definition bm_remove :: "'k \<Rightarrow> ('k, 'v) btree \<Rightarrow> ('k, 'v) btree" where
  "bm_remove k m = filter (\<lambda>e. fst e \<noteq> k) m"

section \<open>Lookup\<close>

lemma bm_get_Nil [simp]: "bm_get [] k = None"
  by (simp add: bm_get_def)

lemma bm_get_Cons [simp]: "bm_get (e # m) k = (if fst e = k then Some (snd e) else bm_get m k)"
  by (auto simp: bm_get_def)

lemma bm_get_append: "bm_get (m @ n) k = (case bm_get m k of None \<Rightarrow> bm_get n k | Some v \<Rightarrow> Some v)"
  by (simp add: bm_get_def map_add_def split: option.split)

lemma bm_get_None_iff: "bm_get m k = None \<longleftrightarrow> k \<notin> fst ` set m"
  by (simp add: bm_get_def map_of_eq_None_iff)

lemma bm_get_SomeD: "bm_get m k = Some v \<Longrightarrow> (k, v) \<in> set m"
  by (simp add: bm_get_def map_of_SomeD)

lemma bm_ok_Nil [simp]: "bm_ok []"
  by (simp add: bm_ok_def)

lemma bm_ok_Cons [simp]: "bm_ok (e # m) \<longleftrightarrow> (\<forall>x \<in> set m. fst e < fst x) \<and> bm_ok m"
  by (simp add: bm_ok_def)

lemma bm_ok_append:
  "bm_ok (m @ n) \<longleftrightarrow> bm_ok m \<and> bm_ok n \<and> (\<forall>x \<in> set m. \<forall>y \<in> set n. fst x < fst y)"
  by (auto simp: bm_ok_def sorted_wrt_append)

lemma bm_ok_distinct: "bm_ok m \<Longrightarrow> distinct (map fst m)"
  by (simp add: bm_ok_def strict_sorted_iff)

lemma bm_get_mem: "bm_ok m \<Longrightarrow> (k, v) \<in> set m \<Longrightarrow> bm_get m k = Some v"
  by (simp add: bm_get_def bm_ok_distinct)

lemma bm_get_Some_iff: "bm_ok m \<Longrightarrow> bm_get m k = Some v \<longleftrightarrow> (k, v) \<in> set m"
  by (auto dest: bm_get_mem bm_get_SomeD)

section \<open>Insertion and removal\<close>

lemma set_bm_insert_sub: "set (bm_insert k v m) \<subseteq> insert (k, v) (set m)"
  by (induction m) auto

lemma bm_get_insert [simp]: "bm_get (bm_insert k v m) = (bm_get m)(k \<mapsto> v)"
  by (induction m) (auto simp: fun_eq_iff)

lemma bm_ok_insert [simp, intro]: "bm_ok m \<Longrightarrow> bm_ok (bm_insert k v m)"
proof (induction m)
  case Nil
  then show ?case by simp
next
  case (Cons e m)
  then show ?case
    using set_bm_insert_sub [of k v m] by fastforce
qed

lemma bm_get_remove [simp]: "bm_get (bm_remove k m) = (bm_get m)(k := None)"
  by (induction m) (auto simp: bm_remove_def fun_eq_iff)

lemma bm_ok_filter [simp]: "bm_ok m \<Longrightarrow> bm_ok (filter P m)"
  by (induction m) auto

lemma bm_ok_remove [simp, intro]: "bm_ok m \<Longrightarrow> bm_ok (bm_remove k m)"
  by (simp add: bm_remove_def)

text \<open>Two maps with the same lookups are the same list: iteration order is determined.\<close>

lemma bm_ext:
  assumes "bm_ok m" "bm_ok n" "bm_get m = bm_get n"
  shows "m = n"
proof -
  have "set m = set n"
    using assms by (metis bm_get_Some_iff subsetI subset_antisym surj_pair)
  moreover have "inj_on fst (set m \<union> set n)"
    using \<open>set m = set n\<close> bm_ok_distinct [OF assms(1)] by (simp add: distinct_map)
  ultimately show ?thesis
    using assms bm_ok_distinct [OF assms(1)] bm_ok_distinct [OF assms(2)]
    by (intro map_sorted_distinct_set_unique [of fst]) (auto simp: bm_ok_def strict_sorted_iff)
qed

section \<open>Range scans\<close>

text \<open>\<open>Bound<&[u8]>\<close>, and \<open>BTreeMap::range\<close> over it.\<close>

datatype 'k bound = Included 'k | Excluded 'k | Unbounded

fun above :: "'k::linorder bound \<Rightarrow> 'k \<Rightarrow> bool" where
  "above (Included b) k = (b \<le> k)"
| "above (Excluded b) k = (b < k)"
| "above Unbounded k = True"

fun below :: "'k::linorder bound \<Rightarrow> 'k \<Rightarrow> bool" where
  "below (Included b) k = (k \<le> b)"
| "below (Excluded b) k = (k < b)"
| "below Unbounded k = True"

definition bm_range :: "'k::linorder bound \<Rightarrow> 'k bound \<Rightarrow> ('k, 'v) btree \<Rightarrow> ('k, 'v) btree" where
  "bm_range lo hi m = filter (\<lambda>e. above lo (fst e) \<and> below hi (fst e)) m"

lemma bm_ok_range [simp]: "bm_ok m \<Longrightarrow> bm_ok (bm_range lo hi m)"
  by (simp add: bm_range_def)

lemma bm_get_filter:
  "bm_get (filter (\<lambda>e. P (fst e)) m) k = (if P k then bm_get m k else None)"
  by (induction m) auto

lemma bm_get_range [simp]:
  "bm_get (bm_range lo hi m) k = (if above lo k \<and> below hi k then bm_get m k else None)"
  by (simp add: bm_range_def bm_get_filter [where P = "\<lambda>k. above lo k \<and> below hi k"])

section \<open>Hash maps\<close>

type_synonym ('k, 'v) hmap = "('k \<times> 'v) list"

definition hm_ok :: "('k, 'v) hmap \<Rightarrow> bool" where
  "hm_ok m \<longleftrightarrow> distinct (map fst m)"

definition hm_get :: "('k, 'v) hmap \<Rightarrow> 'k \<Rightarrow> 'v option" where
  "hm_get m k = map_of m k"

definition hm_remove :: "'k \<Rightarrow> ('k, 'v) hmap \<Rightarrow> ('k, 'v) hmap" where
  "hm_remove k m = filter (\<lambda>e. fst e \<noteq> k) m"

definition hm_insert :: "'k \<Rightarrow> 'v \<Rightarrow> ('k, 'v) hmap \<Rightarrow> ('k, 'v) hmap" where
  "hm_insert k v m = (k, v) # hm_remove k m"

lemma hm_get_Nil [simp]: "hm_get [] k = None"
  by (simp add: hm_get_def)

lemma hm_get_remove [simp]: "hm_get (hm_remove k m) = (hm_get m)(k := None)"
  by (induction m) (auto simp: hm_get_def hm_remove_def fun_eq_iff)

lemma hm_get_insert [simp]: "hm_get (hm_insert k v m) = (hm_get m)(k \<mapsto> v)"
  using hm_get_remove [of k m, unfolded hm_get_def [abs_def]]
  by (simp add: hm_insert_def hm_get_def fun_eq_iff)

lemma hm_ok_remove [simp, intro]: "hm_ok m \<Longrightarrow> hm_ok (hm_remove k m)"
  by (auto simp: hm_ok_def hm_remove_def distinct_map inj_on_def)

lemma hm_ok_insert [simp, intro]: "hm_ok m \<Longrightarrow> hm_ok (hm_insert k v m)"
  using hm_ok_remove [of m k] by (auto simp: hm_insert_def hm_ok_def hm_remove_def)

lemma hm_ok_Nil [simp]: "hm_ok []"
  by (simp add: hm_ok_def)

lemma hm_get_Some_iff: "hm_ok m \<Longrightarrow> hm_get m k = Some v \<longleftrightarrow> (k, v) \<in> set m"
  by (auto simp: hm_get_def hm_ok_def)

lemma hm_get_None_iff: "hm_get m k = None \<longleftrightarrow> k \<notin> fst ` set m"
  by (simp add: hm_get_def map_of_eq_None_iff)

text \<open>A total over the entries changes by one entry's share.\<close>

definition hm_total :: "('k \<Rightarrow> 'v \<Rightarrow> nat) \<Rightarrow> ('k, 'v) hmap \<Rightarrow> nat" where
  "hm_total w m = sum_list (map (\<lambda>e. w (fst e) (snd e)) m)"

lemma hm_total_Nil [simp]: "hm_total w [] = 0"
  by (simp add: hm_total_def)

lemma hm_remove_absent: "hm_get m k = None \<Longrightarrow> hm_remove k m = m"
  by (auto simp: hm_remove_def hm_get_None_iff intro!: filter_True)

lemma hm_total_remove:
  "hm_ok m \<Longrightarrow> hm_get m k = Some v \<Longrightarrow> hm_total w (hm_remove k m) = hm_total w m - w k v \<and> w k v \<le> hm_total w m"
proof (induction m)
  case (Cons e m)
  show ?case
  proof (cases "fst e = k")
    case True
    then have "hm_remove k m = m"
      using Cons.prems by (intro hm_remove_absent) (auto simp: hm_ok_def hm_get_None_iff)
    with True Cons.prems show ?thesis
      by (auto simp: hm_total_def hm_remove_def hm_get_def)
  next
    case False
    then show ?thesis
      using Cons by (auto simp: hm_total_def hm_remove_def hm_get_def hm_ok_def split: if_splits)
  qed
qed simp

lemma hm_total_insert:
  "hm_get m k = None \<Longrightarrow> hm_total w (hm_insert k v m) = hm_total w m + w k v"
  by (simp add: hm_insert_def hm_remove_absent hm_total_def)

section \<open>The interface its users rely on\<close>

text \<open>
  A store of key/value pairs as the write path sees it: inserting and removing act on one
  key, keep the representation well formed and leave the other keys alone.
\<close>

locale finite_map =
  fixes ok :: "'m \<Rightarrow> bool"
    and get :: "'m \<Rightarrow> 'k \<Rightarrow> 'v option"
    and ins :: "'k \<Rightarrow> 'v \<Rightarrow> 'm \<Rightarrow> 'm"
    and del :: "'k \<Rightarrow> 'm \<Rightarrow> 'm"
    and emp :: 'm
  assumes ok_emp: "ok emp"
    and get_emp: "get emp = Map.empty"
    and ok_ins: "ok m \<Longrightarrow> ok (ins k v m)"
    and ok_del: "ok m \<Longrightarrow> ok (del k m)"
    and get_ins: "ok m \<Longrightarrow> get (ins k v m) = (get m)(k \<mapsto> v)"
    and get_del: "ok m \<Longrightarrow> get (del k m) = (get m)(k := None)"
begin

lemma ok_fold_ins: "ok m \<Longrightarrow> ok (fold (\<lambda>(k, v). ins k v) kvs m)"
  by (induction kvs arbitrary: m) (auto simp: ok_ins)

lemma get_fold_ins: "ok m \<Longrightarrow> get (fold (\<lambda>(k, v). ins k v) kvs m) = get m ++ map_of (rev kvs)"
  by (induction kvs arbitrary: m) (auto simp: ok_ins get_ins)

lemma ok_fold_del: "ok m \<Longrightarrow> ok (fold del ks m)"
  by (induction ks arbitrary: m) (auto simp: ok_del)

lemma get_fold_del: "ok m \<Longrightarrow> get (fold del ks m) = (\<lambda>k. if k \<in> set ks then None else get m k)"
  by (induction ks arbitrary: m) (auto simp: ok_del get_del fun_eq_iff)

end

locale ordered_map = finite_map +
  assumes get_inj: "ok m \<Longrightarrow> ok n \<Longrightarrow> get m = get n \<Longrightarrow> m = n"
begin

text \<open>Writes to different keys commute, a later write to a key hides an earlier one.\<close>

lemma ins_ins_same: "ok m \<Longrightarrow> ins k v (ins k w m) = ins k v m"
  by (rule get_inj) (simp_all add: ok_ins get_ins)

lemma del_ins_same: "ok m \<Longrightarrow> del k (ins k w m) = del k m"
  by (rule get_inj) (simp_all add: ok_ins ok_del get_ins get_del)

lemma ins_ins_commute: "ok m \<Longrightarrow> k \<noteq> l \<Longrightarrow> ins k v (ins l w m) = ins l w (ins k v m)"
  by (rule get_inj) (simp_all add: ok_ins get_ins fun_upd_twist)

lemma fold_ins_emp:
  assumes "ok m" "map_of (rev kvs) = get m"
  shows "fold (\<lambda>(k, v). ins k v) kvs emp = m"
  by (rule get_inj) (simp_all add: assms ok_fold_ins ok_emp get_fold_ins get_emp)

end

interpretation hm: finite_map hm_ok hm_get hm_insert hm_remove "[]"
  by unfold_locales (auto simp: fun_eq_iff)

interpretation bm: ordered_map bm_ok bm_get bm_insert bm_remove "[]"
  by unfold_locales (auto intro: bm_ext simp: fun_eq_iff)

text \<open>Inserting the pairs of a map one after another rebuilds it (\<open>collect\<close>).\<close>

lemma bm_collect: "bm_ok m \<Longrightarrow> fold (\<lambda>(k, v). bm_insert k v) m [] = m"
proof (rule bm.fold_ins_emp)
  assume "bm_ok m"
  then have "distinct (map fst m)"
    by (rule bm_ok_distinct)
  then have "map_of (rev m) = map_of m"
    by (subst map_of_inject_set) (simp_all add: rev_map [symmetric])
  then show "map_of (rev m) = bm_get m"
    by (simp add: bm_get_def fun_eq_iff)
qed

end
