(* ===== verification/Wal.thy ===== *)
theory Wal
  imports Codec Ordered_Map
begin

text \<open>
  The write-ahead log of \<open>crates/thingdb/src/lib.rs\<close>: one frame per committed batch
  (\<open>encode_frame_into\<close>) and the recovery loop that replays the frames of the file
  (\<open>replay_wal\<close>). The CRC of the \<open>crc32fast\<close> crate is the parameter \<open>crc\<close>; no
  law of it is used. The results: an encoded frame reads back; a log cut at any byte replays to
  exactly the frames that are complete before the cut; frames at or below the sequence of the
  tables are skipped.
\<close>

type_synonym kv_state = "(bytes, bytes) btree"

datatype operation = Put (op_key: bytes) (op_value: bytes) | Delete (op_key: bytes)

definition WAL_MAGIC :: bytes where
  "WAL_MAGIC = ascii ''TDBWAL01''"

section \<open>Encoding\<close>

fun encode_operations :: "bytes \<Rightarrow> operation list \<Rightarrow> bytes db_result" where
  "encode_operations output [] = Ok output"
| "encode_operations output (Put k v # ops) =
     and_then (write_bytes (output @ [1]) k) (\<lambda>output.
     and_then (write_bytes output v) (\<lambda>output.
     encode_operations output ops))"
| "encode_operations output (Delete k # ops) =
     and_then (write_bytes (output @ [2]) k) (\<lambda>output.
     encode_operations (write_u64 output 0) ops)"

text \<open>\<open>output[at..at + 8].copy_from_slice(src)\<close>\<close>

definition copy_at :: "bytes \<Rightarrow> nat \<Rightarrow> bytes \<Rightarrow> bytes" where
  "copy_at output at src = take at output @ src @ drop (at + length src) output"

definition encode_frame_into ::
    "(bytes \<Rightarrow> u32) \<Rightarrow> bytes \<Rightarrow> u64 \<Rightarrow> operation list \<Rightarrow> bytes db_result" where
  "encode_frame_into crc output sequence operations =
     (let output = output @ WAL_MAGIC;
          length_offset = length output;
          output = write_u64 output 0;
          body_start = length output;
          output = write_u64 output sequence
      in and_then (reject_if (length operations \<ge> 2 ^ 32)
                    (Message ''too many operations in batch'')) (\<lambda>_.
         and_then (encode_operations (write_u32 output (of_nat (length operations))) operations)
           (\<lambda>output.
         let output = write_u32 output (crc (drop body_start output));
             frame_len = length output - body_start
         in and_then (reject_if (frame_len > usize_max) (Message ''WAL frame is too large''))
              (\<lambda>_. Ok (copy_at output length_offset (to_be 8 frame_len))))))"

fun op_capacity :: "operation \<Rightarrow> nat" where
  "op_capacity (Put k v) = sat_add (sat_add (sat_add (sat_add 1 8) (length k)) 8) (length v)"
| "op_capacity (Delete k) = sat_add (sat_add (sat_add 1 8) (length k)) 8"

definition encoded_frame_capacity :: "operation list \<Rightarrow> nat" where
  "encoded_frame_capacity operations =
     sat_add (sat_add (sat_add (sat_add (sat_add (length WAL_MAGIC) 8) 8) 4)
       (sum_list (map op_capacity operations))) 4"

text \<open>\<open>saturating_add(1)\<close> on a \<open>u64\<close>, and the frames of one commit group.\<close>

definition sat_inc :: "u64 \<Rightarrow> u64" where
  "sat_inc w = (if w = - 1 then w else w + 1)"

fun encode_group :: "(bytes \<Rightarrow> u32) \<Rightarrow> bytes \<Rightarrow> u64 \<Rightarrow> operation list list \<Rightarrow> (bytes \<times> u64) db_result"
  where
  "encode_group crc wal_buffer next_sequence [] = Ok (wal_buffer, next_sequence)"
| "encode_group crc wal_buffer next_sequence (operations # requests) =
     and_then (encode_frame_into crc wal_buffer next_sequence operations) (\<lambda>wal_buffer.
     encode_group crc wal_buffer (sat_inc next_sequence) requests)"

section \<open>Replay\<close>

definition apply_operation :: "operation \<Rightarrow> kv_state \<Rightarrow> kv_state" where
  "apply_operation operation state =
     (case operation of Put k v \<Rightarrow> bm_insert k v state | Delete k \<Rightarrow> bm_remove k state)"

definition read_operation :: "bytes \<Rightarrow> nat \<Rightarrow> (operation \<times> nat) db_result" where
  "read_operation bs cursor =
     and_then (read_byte bs cursor) (\<lambda>(kind, cursor).
     and_then (read_bytes bs cursor) (\<lambda>(key, cursor).
     and_then (read_bytes bs cursor) (\<lambda>(value, cursor).
     if kind = 1 then Ok (Put key value, cursor)
     else if kind = 2 then Ok (Delete key, cursor)
     else Err (Message ''invalid ThingDB WAL operation''))))"

datatype frame_read = TornFrame | Frame u64 "operation list" nat

definition read_frame :: "(bytes \<Rightarrow> u32) \<Rightarrow> bytes \<Rightarrow> nat \<Rightarrow> frame_read db_result" where
  "read_frame crc bs frame_start =
     (if length bs - frame_start < length WAL_MAGIC + 8 then Ok TornFrame
      else if take (length WAL_MAGIC) (drop frame_start bs) \<noteq> WAL_MAGIC
      then Err (Message ''invalid ThingDB WAL magic'')
      else and_then (read_u64 bs (frame_start + length WAL_MAGIC)) (\<lambda>(frame_len, cursor).
        if unat frame_len < 12 then Err (Message ''invalid ThingDB WAL frame length'')
        else if unat frame_len > length bs - cursor then Ok TornFrame
        else let frame_end = cursor + unat frame_len in
          and_then (read_u64 bs cursor) (\<lambda>(sequence, cursor).
          and_then (read_u32 bs cursor) (\<lambda>(count, cursor).
          and_then (read_many read_operation (unat count) bs cursor) (\<lambda>(operations, cursor).
          let checksum_offset = frame_end - 4 in
          and_then (reject_if (cursor \<noteq> checksum_offset)
                     (Message ''invalid ThingDB WAL payload length'')) (\<lambda>_.
          let stored_checksum = of_nat (from_be (take 4 (drop checksum_offset bs)));
              body_start = frame_start + length WAL_MAGIC + 8;
              actual_checksum = crc (take (checksum_offset - body_start) (drop body_start bs))
          in and_then (reject_if (stored_checksum \<noteq> actual_checksum)
                        (Message ''ThingDB WAL checksum mismatch'')) (\<lambda>_.
             Ok (Frame sequence operations frame_end))))))))"

lemma read_frame_progress:
  assumes "read_frame crc bs start = Ok (Frame s ops e)"
  shows "start < e \<and> e \<le> length bs"
  using assms
  by (auto simp: read_frame_def Let_def read_u64_def subslice_def and_then_eq_Ok split: if_splits)

text \<open>
  The loop of \<open>replay_wal\<close>: the last applied sequence, the offset up to which the file is
  valid, the number of frames and the recovered state.
\<close>

function replay_loop :: "(bytes \<Rightarrow> u32) \<Rightarrow> bytes \<Rightarrow> nat \<Rightarrow> u64 \<Rightarrow> nat \<Rightarrow> kv_state
    \<Rightarrow> (u64 \<times> nat \<times> nat \<times> kv_state) db_result" where
  "replay_loop crc bs cursor last_sequence frame_count state =
     (if cursor < length bs then
        and_then (read_frame crc bs cursor) (\<lambda>r. case r of
          TornFrame \<Rightarrow> Ok (last_sequence, cursor, frame_count, state)
        | Frame sequence operations frame_end \<Rightarrow>
            if sequence > last_sequence
            then replay_loop crc bs frame_end sequence (frame_count + 1)
                   (fold apply_operation operations state)
            else replay_loop crc bs frame_end last_sequence (frame_count + 1) state)
      else Ok (last_sequence, cursor, frame_count, state))"
  by pat_completeness auto
termination
  by (relation "measure (\<lambda>(crc, bs, cursor, _). length bs - cursor)")
    (auto dest!: read_frame_progress)

declare replay_loop.simps [simp del]

definition replay_wal :: "(bytes \<Rightarrow> u32) \<Rightarrow> bytes \<Rightarrow> u64 \<Rightarrow> kv_state
    \<Rightarrow> (u64 \<times> nat \<times> nat \<times> kv_state) db_result" where
  "replay_wal crc wal table_sequence state = replay_loop crc wal 0 table_sequence 0 state"

section \<open>What the encoder appends\<close>

fun enc_op :: "operation \<Rightarrow> bytes" where
  "enc_op (Put k v) = 1 # enc_bytes k @ enc_bytes v"
| "enc_op (Delete k) = 2 # enc_bytes k @ enc_bytes []"

type_synonym frame = "u64 \<times> operation list"

definition enc_body :: "frame \<Rightarrow> bytes" where
  "enc_body f = enc_u64 (fst f) @ enc_u32 (of_nat (length (snd f))) @ concat (map enc_op (snd f))"

definition enc_frame :: "(bytes \<Rightarrow> u32) \<Rightarrow> frame \<Rightarrow> bytes" where
  "enc_frame crc f = WAL_MAGIC @ enc_u64 (of_nat (length (enc_body f) + 4)) @ enc_body f
     @ enc_u32 (crc (enc_body f))"

definition enc_log :: "(bytes \<Rightarrow> u32) \<Rightarrow> frame list \<Rightarrow> bytes" where
  "enc_log crc fs = concat (map (enc_frame crc) fs)"

lemma length_WAL_MAGIC [simp]: "length WAL_MAGIC = 8"
  by (simp add: WAL_MAGIC_def ascii_def)

lemma length_enc_frame: "length (enc_frame crc f) = 20 + length (enc_body f)"
  by (simp add: enc_frame_def)

lemma length_enc_body: "length (enc_body f) = 12 + length (concat (map enc_op (snd f)))"
  by (simp add: enc_body_def)

text \<open>A batch that can be a frame: fewer than \<open>2 ^ 32\<close> operations, and it fits in memory.\<close>

definition frame_ok :: "frame \<Rightarrow> bool" where
  "frame_ok f \<longleftrightarrow> length (snd f) < 2 ^ 32 \<and> 20 + length (enc_body f) \<le> usize_max"

lemma op_length_le: "op \<in> set ops \<Longrightarrow> length (enc_op op) \<le> length (concat (map enc_op ops))"
  by (induction ops) auto

lemma encode_operations_enc:
  "length (concat (map enc_op ops)) \<le> usize_max \<Longrightarrow>
    encode_operations out ops = Ok (out @ concat (map enc_op ops))"
proof (induction ops arbitrary: out)
  case Nil
  then show ?case by simp
next
  case (Cons op ops)
  then show ?case
    by (cases op) (simp_all add: writer_enc enc_bytes_split)
qed

lemma copy_at_append [simp]:
  "length old = length src \<Longrightarrow> copy_at (pre @ old @ post) (length pre) src = pre @ src @ post"
  by (simp add: copy_at_def)

lemma to_be_8_enc: "n \<le> usize_max \<Longrightarrow> to_be 8 n = enc_u64 (of_nat n)"
  by (simp add: enc_u64_def write_u64_def unat_of_nat_u64)

lemma sum_op_capacity:
  "length (concat (map enc_op ops)) \<le> usize_max \<Longrightarrow>
    sum_list (map op_capacity ops) = length (concat (map enc_op ops))"
proof (induction ops)
  case (Cons op ops)
  then show ?case by (cases op) (simp_all add: sat_add_def)
qed simp

lemma capacity_enc_frame:
  "frame_ok f \<Longrightarrow> 32 + length (concat (map enc_op (snd f))) \<le> usize_max \<and>
    encoded_frame_capacity (snd f) = length (enc_frame crc f)"
  by (simp add: frame_ok_def encoded_frame_capacity_def length_enc_frame length_enc_body
      sum_op_capacity sat_add_def)

lemma encode_frame_into_enc:
  assumes "frame_ok (s, ops)"
  shows "encode_frame_into crc output s ops = Ok (output @ enc_frame crc (s, ops))"
proof -
  let ?body = "enc_body (s, ops)"
  from assms have few: "length ops < 2 ^ 32" and fits: "length ?body + 20 \<le> usize_max"
    by (simp_all add: frame_ok_def)
  then have ops: "encode_operations out ops = Ok (out @ concat (map enc_op ops))" for out
    by (intro encode_operations_enc) (simp add: length_enc_body)
  have "to_be 8 (16 + length (concat (map enc_op ops))) = enc_u64 (of_nat (length ?body + 4))"
    using fits by (subst to_be_8_enc) (simp_all add: length_enc_body)
  then show ?thesis
    using few fits
    by (simp add: encode_frame_into_def Let_def writer_enc ops reject_if_def length_enc_body)
      (simp add: enc_frame_def enc_body_def)
qed

section \<open>Reading a frame back\<close>

interpretation opc: codec enc_op read_operation "\<lambda>_. True"
proof
  fix op and pre post :: bytes
  assume fits: "length pre + length (enc_op op) \<le> usize_max"
  show "read_operation (pre @ enc_op op @ post) (length pre) = Ok (op, length pre + length (enc_op op))"
  proof (cases op)
    case (Put k v)
    have "read_bytes ((pre @ [1]) @ enc_bytes k @ (enc_bytes v @ post)) (length (pre @ [1]))
        = Ok (k, length (pre @ [1]) + length (enc_bytes k))"
      by (rule bytesc.dec_enc) (use fits Put in simp_all)
    moreover have "read_bytes ((pre @ [1] @ enc_bytes k) @ enc_bytes v @ post)
        (length (pre @ [1] @ enc_bytes k))
        = Ok (v, length (pre @ [1] @ enc_bytes k) + length (enc_bytes v))"
      by (rule bytesc.dec_enc) (use fits Put in simp_all)
    ultimately show ?thesis
      by (simp add: Put read_operation_def add_ac)
  next
    case (Delete k)
    have "read_bytes ((pre @ [2]) @ enc_bytes k @ (enc_bytes [] @ post)) (length (pre @ [2]))
        = Ok (k, length (pre @ [2]) + length (enc_bytes k))"
      by (rule bytesc.dec_enc) (use fits Delete in simp_all)
    moreover have "read_bytes ((pre @ [2] @ enc_bytes k) @ enc_bytes [] @ post)
        (length (pre @ [2] @ enc_bytes k))
        = Ok ([], length (pre @ [2] @ enc_bytes k) + length (enc_bytes []))"
      by (rule bytesc.dec_enc) (use fits Delete in simp_all)
    ultimately show ?thesis
      by (simp add: Delete read_operation_def add_ac)
  qed
qed

lemma read_frame_header:
  assumes "length pre + 16 \<le> usize_max"
  shows "read_u64 (pre @ WAL_MAGIC @ enc_u64 n @ post) (length pre + 8) = Ok (n, length pre + 16)"
  using u64c.dec_enc [of "pre @ WAL_MAGIC" n post] assms by simp

lemma read_frame_body:
  assumes "length ops < 2 ^ 32" "length pre + length (enc_body (s, ops)) \<le> usize_max"
  shows "and_then (read_u64 (pre @ enc_body (s, ops) @ post) (length pre)) (\<lambda>(sequence, cursor).
      and_then (read_u32 (pre @ enc_body (s, ops) @ post) cursor) (\<lambda>(count, cursor).
      and_then (read_many read_operation (unat count) (pre @ enc_body (s, ops) @ post) cursor) (f sequence)))
    = f s (ops, length pre + length (enc_body (s, ops)))"
proof -
  let ?n = "of_nat (length ops) :: u32" and ?ops = "concat (map enc_op ops)"
  have "read_u64 (pre @ enc_u64 s @ (enc_u32 ?n @ ?ops @ post)) (length pre) = Ok (s, length pre + 8)"
    using u64c.dec_enc [of pre s] assms by (simp add: length_enc_body)
  moreover have "read_u32 ((pre @ enc_u64 s) @ enc_u32 ?n @ (?ops @ post)) (length (pre @ enc_u64 s))
      = Ok (?n, length (pre @ enc_u64 s) + 4)"
    using u32c.dec_enc [of "pre @ enc_u64 s" ?n] assms by (simp add: length_enc_body)
  moreover have "read_many read_operation (length ops)
      ((pre @ enc_u64 s @ enc_u32 ?n) @ ?ops @ post) (length (pre @ enc_u64 s @ enc_u32 ?n))
      = Ok (ops, length (pre @ enc_u64 s @ enc_u32 ?n) + length ?ops)"
    by (rule opc.read_many_enc) (use assms in \<open>simp_all add: length_enc_body list_all_iff\<close>)
  ultimately show ?thesis
    using assms(1) by (simp add: enc_body_def unat_of_nat_u32 add_ac)
qed

lemma read_frame_enc:
  assumes ok: "frame_ok (s, ops)" and fits: "length pre + length (enc_frame crc (s, ops)) \<le> usize_max"
  shows "read_frame crc (pre @ enc_frame crc (s, ops) @ post) (length pre)
    = Ok (Frame s ops (length pre + length (enc_frame crc (s, ops))))"
proof -
  define body where "body = enc_body (s, ops)"
  define n where "n = (of_nat (length body + 4) :: u64)"
  define bs where "bs = pre @ WAL_MAGIC @ enc_u64 n @ body @ enc_u32 (crc body) @ post"
  have bs: "pre @ enc_frame crc (s, ops) @ post = bs"
    by (simp add: enc_frame_def bs_def n_def body_def)
  have fits': "length pre + 20 + length body \<le> usize_max"
    using fits by (simp add: length_enc_frame body_def)
  have len: "unat n = length body + 4"
    using fits' unfolding n_def by (intro unat_of_nat_u64) simp
  have long: "12 \<le> length body"
    by (simp add: body_def length_enc_body)
  have header: "read_u64 bs (length pre + 8) = Ok (n, length pre + 16)"
    using read_frame_header [of pre n] fits' by (simp add: bs_def)
  have inside: "and_then (read_u64 bs (length pre + 16)) (\<lambda>(sequence, cursor).
      and_then (read_u32 bs cursor) (\<lambda>(count, cursor).
      and_then (read_many read_operation (unat count) bs cursor) (g sequence)))
    = g s (ops, length pre + 16 + length body)" for g :: "_ \<Rightarrow> _ \<Rightarrow> frame_read db_result"
    using read_frame_body [of ops "pre @ WAL_MAGIC @ enc_u64 n" s "enc_u32 (crc body) @ post" g] ok fits'
    by (simp add: frame_ok_def bs_def body_def)
  have sum: "of_nat (from_be (take 4 (drop (16 + (length pre + length body)) bs))) = crc body"
    by (simp add: bs_def) (simp add: enc_u32_def write_u32_def)
  have parts: "take (length body) (drop (16 + length pre) bs) = body"
    "take 8 (drop (length pre) bs) = WAL_MAGIC"
    "length bs = length pre + 20 + length body + length post"
    by (simp_all add: bs_def)
  have total: "length pre + length (enc_frame crc (s, ops)) = 20 + (length pre + length body)"
    by (simp add: length_enc_frame body_def)
  show ?thesis
    unfolding bs total read_frame_def
    using long by (simp add: header len Let_def inside sum parts)
qed

text \<open>A frame cut short by a crash is recognised as torn, never misread.\<close>

lemma read_frame_torn:
  assumes ok: "frame_ok f" and cut: "n < length (enc_frame crc f)"
    and fits: "length pre + n \<le> usize_max"
  shows "read_frame crc (pre @ take n (enc_frame crc f)) (length pre) = Ok TornFrame"
proof (cases "n < 16")
  case True
  then show ?thesis
    using cut by (simp add: read_frame_def)
next
  case False
  define len :: u64 where "len = of_nat (length (enc_body f) + 4)"
  define rest where "rest = take (n - 16) (enc_body f @ enc_u32 (crc (enc_body f)))"
  define bs where "bs = pre @ WAL_MAGIC @ enc_u64 len @ rest"
  have bs: "pre @ take n (enc_frame crc f) = bs"
    using False by (simp add: bs_def rest_def enc_frame_def len_def)
  have header: "read_u64 bs (length pre + 8) = Ok (len, length pre + 16)"
    using read_frame_header [of pre len rest] fits False by (simp add: bs_def)
  have len: "unat len = length (enc_body f) + 4"
    unfolding len_def by (rule unat_of_nat_u64) (use ok in \<open>simp add: frame_ok_def\<close>)
  have "length rest = n - 16" "n - 16 < length (enc_body f) + 4"
    using cut False by (simp_all add: rest_def length_enc_frame)
  moreover have "take 8 (drop (length pre) bs) = WAL_MAGIC" "length bs = length pre + 16 + length rest"
    by (simp_all add: bs_def)
  moreover have "12 \<le> length (enc_body f)"
    by (simp add: length_enc_body)
  ultimately show ?thesis
    unfolding bs read_frame_def by (simp add: header len)
qed

section \<open>Recovery\<close>

text \<open>
  What replay computes, frame by frame: a frame newer than everything recovered so far is
  applied whole, any other is skipped.
\<close>

fun recover :: "frame list \<Rightarrow> u64 \<times> kv_state \<Rightarrow> u64 \<times> kv_state" where
  "recover [] r = r"
| "recover ((s, ops) # fs) (l, st) =
     recover fs (if s > l then (s, fold apply_operation ops st) else (l, st))"

text \<open>The frames that are complete in the first \<open>n\<close> bytes of a log.\<close>

fun complete_frames :: "nat \<Rightarrow> frame list \<Rightarrow> frame list" where
  "complete_frames n [] = []"
| "complete_frames n (f # fs) =
     (if encoded_frame_capacity (snd f) \<le> n
      then f # complete_frames (n - encoded_frame_capacity (snd f)) fs else [])"

definition torn_tail :: "(bytes \<Rightarrow> u32) \<Rightarrow> bytes \<Rightarrow> bool" where
  "torn_tail crc t \<longleftrightarrow>
     t = [] \<or> (\<exists>f n. frame_ok f \<and> n < length (enc_frame crc f) \<and> t = take n (enc_frame crc f))"

lemma enc_log_simps [simp]:
  "enc_log crc [] = []" "enc_log crc (f # fs) = enc_frame crc f @ enc_log crc fs"
  "enc_log crc (fs @ gs) = enc_log crc fs @ enc_log crc gs"
  by (simp_all add: enc_log_def)

lemma take_log:
  "list_all frame_ok fs \<Longrightarrow>
    \<exists>t. take n (enc_log crc fs) = enc_log crc (complete_frames n fs) @ t \<and> torn_tail crc t"
proof (induction fs arbitrary: n)
  case Nil
  then show ?case by (simp add: torn_tail_def)
next
  case (Cons f fs)
  then have size: "encoded_frame_capacity (snd f) = length (enc_frame crc f)"
    using capacity_enc_frame by simp
  show ?case
  proof (cases "length (enc_frame crc f) \<le> n")
    case True
    then show ?thesis
      using Cons.IH [of "n - length (enc_frame crc f)"] Cons.prems by (auto simp: take_append size)
  next
    case False
    then have "torn_tail crc (take n (enc_frame crc f))"
      using Cons.prems unfolding torn_tail_def list.pred_inject not_le by blast
    with False show ?thesis by (simp add: size)
  qed
qed

lemma replay_loop_torn:
  assumes "torn_tail crc t" "length pre + length t \<le> usize_max"
  shows "replay_loop crc (pre @ t) (length pre) l cnt st = Ok (l, length pre, cnt, st)"
proof (cases "t = []")
  case True
  then show ?thesis by (subst replay_loop.simps) simp
next
  case False
  with assms obtain f n where "frame_ok f" "n < length (enc_frame crc f)" "t = take n (enc_frame crc f)"
    by (auto simp: torn_tail_def)
  with assms(2) have "read_frame crc (pre @ t) (length pre) = Ok TornFrame"
    by (simp add: read_frame_torn)
  with False show ?thesis by (subst replay_loop.simps) simp
qed

lemma replay_loop_log:
  assumes "list_all frame_ok fs" "torn_tail crc t"
    and "length pre + length (enc_log crc fs) + length t \<le> usize_max"
  shows "replay_loop crc (pre @ enc_log crc fs @ t) (length pre) l cnt st
    = (let (l', st') = recover fs (l, st)
       in Ok (l', length pre + length (enc_log crc fs), cnt + length fs, st'))"
  using assms
proof (induction fs arbitrary: pre l cnt st)
  case Nil
  then show ?case by (simp add: replay_loop_torn)
next
  case (Cons f fs)
  obtain s ops where f: "f = (s, ops)" by (cases f)
  have read: "read_frame crc (pre @ enc_frame crc (s, ops) @ enc_log crc fs @ t) (length pre)
      = Ok (Frame s ops (length pre + length (enc_frame crc (s, ops))))"
    by (rule read_frame_enc) (use Cons.prems f in simp_all)
  have pos: "0 < length (enc_frame crc (s, ops))"
    by (simp add: length_enc_frame)
  have "replay_loop crc ((pre @ enc_frame crc f) @ enc_log crc fs @ t) (length (pre @ enc_frame crc f))
      l' cnt' st' = (let (l'', st'') = recover fs (l', st')
       in Ok (l'', length (pre @ enc_frame crc f) + length (enc_log crc fs), cnt' + length fs, st''))"
    for l' cnt' st'
    by (rule Cons.IH) (use Cons.prems in simp_all)
  then show ?case
    using pos read by (subst replay_loop.simps) (simp add: f add.assoc)
qed

section \<open>Commit groups\<close>

text \<open>The frames a group of requests becomes: consecutive sequence numbers.\<close>

fun number_frames :: "u64 \<Rightarrow> operation list list \<Rightarrow> frame list" where
  "number_frames s [] = []"
| "number_frames s (ops # reqs) = (s, ops) # number_frames (sat_inc s) reqs"

lemma encode_operations_Ok:
  "encode_operations out ops = Ok r \<Longrightarrow> r = out @ concat (map enc_op ops)"
proof (induction out ops rule: encode_operations.induct)
  case (2 out k v ops)
  then show ?case
    by (auto simp: and_then_eq_Ok write_bytes_def enc_bytes_def write_u64_def)
next
  case (3 out k ops)
  then show ?case
    by (auto simp: and_then_eq_Ok write_bytes_def enc_bytes_def write_u64_def)
qed simp

lemma encode_frame_into_Ok:
  assumes "encode_frame_into crc out s ops = Ok r" and "length r \<le> usize_max"
  shows "frame_ok (s, ops) \<and> r = out @ enc_frame crc (s, ops)"
proof -
  from assms(1) have few: "length ops < 2 ^ 32" and
    size: "length r = length out + 32 + length (concat (map enc_op ops))"
    by (auto simp: encode_frame_into_def Let_def and_then_eq_Ok write_u32_def write_u64_def copy_at_def
        dest!: encode_operations_Ok)
  with assms(2) have "frame_ok (s, ops)"
    by (simp add: frame_ok_def length_enc_body)
  with assms(1) show ?thesis
    by (simp add: encode_frame_into_enc)
qed

lemma encode_group_length:
  "encode_group crc out s reqs = Ok (log, s') \<Longrightarrow> length out \<le> length log"
proof (induction reqs arbitrary: out s)
  case (Cons ops reqs)
  then obtain r where r: "encode_frame_into crc out s ops = Ok r"
    and "encode_group crc r (sat_inc s) reqs = Ok (log, s')"
    by (auto simp: and_then_eq_Ok)
  then have "length r \<le> length log"
    using Cons.IH by blast
  moreover have "length out \<le> length r"
    using r by (auto simp: encode_frame_into_def Let_def and_then_eq_Ok write_u32_def write_u64_def
        copy_at_def dest!: encode_operations_Ok)
  ultimately show ?case by simp
qed simp

lemma encode_group_frames:
  assumes "encode_group crc out s reqs = Ok (log, s')" and "length log \<le> usize_max"
  shows "list_all frame_ok (number_frames s reqs) \<and> log = out @ enc_log crc (number_frames s reqs)"
  using assms
proof (induction reqs arbitrary: out s)
  case (Cons ops reqs)
  then obtain r where r: "encode_frame_into crc out s ops = Ok r"
    and rest: "encode_group crc r (sat_inc s) reqs = Ok (log, s')"
    by (auto simp: and_then_eq_Ok)
  have "length r \<le> usize_max"
    using encode_group_length [OF rest] Cons.prems(2) by simp
  with r have "frame_ok (s, ops) \<and> r = out @ enc_frame crc (s, ops)"
    by (rule encode_frame_into_Ok)
  with Cons.IH [OF rest Cons.prems(2)] show ?case by simp
qed simp

lemma encode_group_enc:
  "list_all frame_ok (number_frames s reqs) \<Longrightarrow>
    encode_group crc out s reqs
      = Ok (out @ enc_log crc (number_frames s reqs), (sat_inc ^^ length reqs) s)"
  by (induction reqs arbitrary: out s)
    (simp_all add: encode_frame_into_enc funpow_Suc_right del: funpow.simps(2))

lemma length_enc_log:
  "list_all frame_ok fs \<Longrightarrow>
    length (enc_log crc fs) = sum_list (map (\<lambda>f. encoded_frame_capacity (snd f)) fs)"
  by (induction fs) (simp_all add: capacity_enc_frame [of _ crc])

lemma complete_frames_ok: "list_all frame_ok fs \<Longrightarrow> list_all frame_ok (complete_frames n fs)"
  by (induction fs arbitrary: n) simp_all

lemma complete_frames_prefix: "\<exists>k. complete_frames n fs = take k fs"
proof (induction fs arbitrary: n)
  case (Cons f fs)
  then obtain k where "complete_frames (n - encoded_frame_capacity (snd f)) fs = take k fs"
    by blast
  then show ?case
    by (auto intro: exI [of _ "Suc k"] exI [of _ 0])
qed simp

lemma replay_wal_log:
  assumes "list_all frame_ok fs" "torn_tail crc t" "length (enc_log crc fs) + length t \<le> usize_max"
  shows "replay_wal crc (enc_log crc fs @ t) l st
    = (let (l', st') = recover fs (l, st) in Ok (l', length (enc_log crc fs), length fs, st'))"
  using replay_loop_log [of fs crc t "[]" l 0 st] assms by (simp add: replay_wal_def)

text \<open>A frame whose payload does not have the stored checksum is an error, however it decodes.\<close>

lemma read_frame_corrupt:
  assumes body: "length body \<ge> 12" and sum: "crc body \<noteq> stored"
    and fits: "length pre + 20 + length body \<le> usize_max"
  shows "\<exists>e. read_frame crc (pre @ WAL_MAGIC @ enc_u64 (of_nat (length body + 4)) @ body
      @ enc_u32 stored @ post) (length pre) = Err e"
proof -
  define n :: u64 where "n = of_nat (length body + 4)"
  define bs where "bs = pre @ WAL_MAGIC @ enc_u64 n @ body @ enc_u32 stored @ post"
  have len: "unat n = length body + 4"
    unfolding n_def by (rule unat_of_nat_u64) (use fits in simp)
  have header: "read_u64 bs (length pre + 8) = Ok (n, length pre + 16)"
    using read_frame_header [of pre n] fits by (simp add: bs_def)
  have cksum: "of_nat (from_be (take 4 (drop (16 + (length pre + length body)) bs))) = stored"
    by (simp add: bs_def) (simp add: enc_u32_def write_u32_def)
  have parts: "take (length body) (drop (16 + length pre) bs) = body"
    "take 8 (drop (length pre) bs) = WAL_MAGIC"
    "length bs = length pre + 20 + length body + length post"
    by (simp_all add: bs_def)
  have "read_frame crc bs (length pre) \<noteq> Ok r" for r
    using body sum unfolding read_frame_def
    by (auto simp: header len Let_def and_then_eq_Ok parts cksum)
  then show ?thesis
    unfolding bs_def n_def by (metis sum.exhaust)
qed

lemma replay_loop_skip:
  assumes "list_all frame_ok fs" "length pre + length (enc_log crc fs) + length t \<le> usize_max"
    and "0 < length t" "read_frame crc (pre @ enc_log crc fs @ t) (length pre + length (enc_log crc fs)) = Err e"
  shows "replay_loop crc (pre @ enc_log crc fs @ t) (length pre) l cnt st = Err e"
  using assms
proof (induction fs arbitrary: pre l cnt st)
  case Nil
  then show ?case by (subst replay_loop.simps) simp
next
  case (Cons f fs)
  obtain s ops where f: "f = (s, ops)" by (cases f)
  have read: "read_frame crc (pre @ enc_frame crc (s, ops) @ enc_log crc fs @ t) (length pre)
      = Ok (Frame s ops (length pre + length (enc_frame crc (s, ops))))"
    by (rule read_frame_enc) (use Cons.prems f in simp_all)
  have "replay_loop crc ((pre @ enc_frame crc f) @ enc_log crc fs @ t) (length (pre @ enc_frame crc f))
      l' cnt' st' = Err e" for l' cnt' st'
    by (rule Cons.IH) (use Cons.prems in \<open>simp_all add: add_ac\<close>)
  then show ?case
    using Cons.prems(3) read by (subst replay_loop.simps) (simp add: f)
qed

section \<open>Properties\<close>

text \<open>
  C10: Crash recovery of the log. If the writer encoded a group of batches and the file then
  holds only the first \<open>n\<close> bytes of it (for any \<open>n\<close>: a torn write, a power loss), replay
  succeeds, applies exactly the batches whose frames are complete in those bytes, each as a
  whole and in order, and reports the end of the last complete frame as the offset to cut at.
\<close>

theorem replay_truncated_log:
  assumes "encode_group crc [] s requests = Ok (log, s')" and "length log \<le> usize_max"
  shows "replay_wal crc (take n log) table_sequence state =
    (let frames = complete_frames n (number_frames s requests);
         (l, st) = recover frames (table_sequence, state)
     in Ok (l, sum_list (map (\<lambda>f. encoded_frame_capacity (snd f)) frames), length frames, st))"
proof -
  let ?fs = "number_frames s requests"
  from encode_group_frames [OF assms] have ok: "list_all frame_ok ?fs" and log: "log = enc_log crc ?fs"
    by simp_all
  obtain t where t: "take n log = enc_log crc (complete_frames n ?fs) @ t" "torn_tail crc t"
    using take_log [OF ok, of n crc] log by blast
  then have "length (enc_log crc (complete_frames n ?fs)) + length t \<le> usize_max"
    using assms(2) by (metis length_append length_take min.coboundedI1)
  then show ?thesis
    using t complete_frames_ok [OF ok, of n]
    by (simp add: replay_wal_log length_enc_log [of _ crc, symmetric] Let_def split_beta)
qed

definition demo_requests :: "operation list list" where
  "demo_requests = [[Put [1] [2], Put [3] []], [Delete [1]]]"

lemma demo_requests_log:
  "encode_group (\<lambda>_. 7) [] 1 demo_requests
     = Ok (enc_log (\<lambda>_. 7) (number_frames 1 demo_requests), 3)
   \<and> length (enc_log (\<lambda>_. 7) (number_frames 1 demo_requests)) \<le> usize_max"
  by (subst encode_group_enc)
    (simp_all add: demo_requests_def frame_ok_def length_enc_body length_enc_frame sat_inc_def
      usize_max_def)

theorem replay_truncated_log_witness:
  "\<exists>log. encode_group (\<lambda>_. 7) [] 1 demo_requests = Ok (log, 3) \<and>
     replay_wal (\<lambda>_. 7) (take 70 log) 0 [] = Ok (1, 69, 1, [([1], [2]), ([3], [])])"
proof -
  let ?log = "enc_log (\<lambda>_. 7) (number_frames 1 demo_requests)"
  have "complete_frames 70 (number_frames 1 demo_requests) = [(1, [Put [1] [2], Put [3] []])]"
    by (simp add: demo_requests_def encoded_frame_capacity_def sat_add_def usize_max_def)
  then show ?thesis
    using demo_requests_log replay_truncated_log [of "\<lambda>_. 7" 1 demo_requests ?log 3 70 0 "[]"]
    by (simp add: encoded_frame_capacity_def sat_add_def usize_max_def apply_operation_def)
qed

text \<open>
  C11: Corruption is detected. Take any log the writer produced and change the payload bytes of
  one of its frames (keeping their number): unless the checksums collide, replay returns an
  error, it never applies the altered frame and never treats it as the end of the log.
\<close>

theorem replay_corrupt_payload:
  assumes "encode_group crc [] s requests = Ok (log, s')"
    and "encode_frame_into crc log s' operations = Ok log'"
    and "length payload = length log' - length log - 20"
    and "crc payload \<noteq> crc (take (length payload) (drop (length log + 16) log'))"
    and "length log' + length rest \<le> usize_max"
  shows "\<exists>e. replay_wal crc
    (take (length log + 16) log' @ payload @ drop (length log' - 4) log' @ rest) table_sequence state = Err e"
proof -
  let ?f = "(s', operations)" and ?fs = "number_frames s requests"
  have f: "frame_ok ?f" "log' = log @ enc_frame crc ?f"
    using encode_frame_into_Ok [OF assms(2)] assms(5) by simp_all
  have fs: "list_all frame_ok ?fs" "log = enc_log crc ?fs"
    using encode_group_frames [OF assms(1)] f assms(5) by simp_all
  have len: "length payload = length (enc_body ?f)"
    using assms(3) f by (simp add: length_enc_frame)
  let ?bad = "WAL_MAGIC @ enc_u64 (of_nat (length payload + 4)) @ payload
      @ enc_u32 (crc (enc_body ?f)) @ rest"
  have bytes: "take (length log + 16) log' @ payload @ drop (length log' - 4) log' @ rest = log @ ?bad"
    using f(2) len by (simp add: enc_frame_def)
  have "crc payload \<noteq> crc (enc_body ?f)"
    using assms(4) f(2) len by (simp add: enc_frame_def)
  then obtain e where "read_frame crc (log @ ?bad) (length log) = Err e"
    using read_frame_corrupt [of payload crc "crc (enc_body ?f)" log rest] f assms(5) len
    by (auto simp: length_enc_frame length_enc_body)
  then have "replay_loop crc ([] @ enc_log crc ?fs @ ?bad) (length ([] :: bytes)) table_sequence 0 state = Err e"
    by (intro replay_loop_skip) (use fs f assms(5) len in \<open>simp_all add: length_enc_frame\<close>)
  then show ?thesis
    unfolding replay_wal_def bytes by (auto simp: fs(2) [symmetric])
qed

theorem replay_corrupt_payload_witness:
  "\<exists>log log' e. encode_group (\<lambda>b. if 2 \<in> set b then 0 else 1) [] 1 [[Put [1] [2]]] = Ok (log, 2)
    \<and> encode_frame_into (\<lambda>b. if 2 \<in> set b then 0 else 1) log 2 [Delete [1]] = Ok log'
    \<and> replay_wal (\<lambda>b. if 2 \<in> set b then 0 else 1)
         (take (length log + 16) log' @ replicate 30 0 @ drop (length log' - 4) log' @ []) 0 [] = Err e"
proof -
  let ?crc = "\<lambda>b :: bytes. if 2 \<in> set b then 0 else 1 :: u32"
  let ?log = "enc_log ?crc (number_frames 1 [[Put [1] [2]]])"
  let ?log' = "?log @ enc_frame ?crc (2, [Delete [1]])"
  have 1: "encode_group ?crc [] 1 [[Put [1] [2]]] = Ok (?log, 2)"
    by (subst encode_group_enc)
      (simp_all add: frame_ok_def length_enc_body sat_inc_def usize_max_def)
  have 2: "encode_frame_into ?crc ?log 2 [Delete [1]] = Ok ?log'"
    by (rule encode_frame_into_enc) (simp add: frame_ok_def length_enc_body usize_max_def)
  have "length (enc_body (2, [Delete [1]])) = 30" "2 \<in> set (enc_body (2, [Delete [1]]))"
    by (simp_all add: length_enc_body) (simp add: enc_body_def)
  then have 3: "?crc (replicate 30 0) \<noteq> ?crc (take 30 (drop (length ?log + 16) ?log'))"
    by (simp add: enc_frame_def)
  have 4: "length ?log' = length ?log + 50" "length ?log' + length [] \<le> usize_max"
    by (simp_all add: length_enc_frame length_enc_body usize_max_def)
  have "\<exists>e. replay_wal ?crc
      (take (length ?log + 16) ?log' @ replicate 30 0 @ drop (length ?log' - 4) ?log' @ []) 0 [] = Err e"
    by (rule replay_corrupt_payload [OF 1 2]) (use 3 4 in simp_all)
  with 1 2 show ?thesis by blast
qed

end
