(* ===== verification/Block_Cache.thy ===== *)
theory Block_Cache
  imports Ordered_Map
begin

text \<open>
  \<open>TableBlockCache\<close> of \<open>crates/thingdb/src/lib.rs\<close>: verified table blocks kept in
  memory under a byte budget, the least recently used block evicted first. A block may carry its
  decoded records, which count against the budget as well. Keys are abstract (\<open>'k\<close> stands for
  \<open>TableBlockCacheKey\<close>, a path and an offset); the size of decoded records, which depends on
  the allocator's capacities, is a parameter of \<open>bc_insert_records\<close>. A poisoned mutex makes
  every operation a no-op and is not modelled.
\<close>

record table_scan_record =
  sr_key :: bytes
  sr_value :: "bytes option"
  sr_priority :: nat

record cached_block =
  cb_bytes :: bytes
  cb_records :: "table_scan_record list option"
  cb_decoded :: nat
  cb_access :: u64

record 'k block_cache =
  bc_capacity :: nat
  bc_resident :: nat
  bc_clock :: u64
  bc_hits :: nat
  bc_misses :: nat
  bc_decoded_hits :: nat
  bc_decoded_misses :: nat
  bc_evictions :: nat
  bc_entries :: "('k, cached_block) hmap"
  bc_lru :: "(u64, 'k) btree"

definition bc_with_capacity :: "nat \<Rightarrow> 'k block_cache" where
  "bc_with_capacity capacity = \<lparr>bc_capacity = capacity, bc_resident = 0, bc_clock = 0, bc_hits = 0,
     bc_misses = 0, bc_decoded_hits = 0, bc_decoded_misses = 0, bc_evictions = 0,
     bc_entries = [], bc_lru = []\<rparr>"

text \<open>The key moves to the newest position: the common part of the two lookups.\<close>

definition bc_touch :: "'k \<Rightarrow> cached_block \<Rightarrow> 'k block_cache \<Rightarrow> 'k block_cache" where
  "bc_touch key entry s =
     (let lru = bm_remove (cb_access entry) (bc_lru s);
          last_access = bc_clock s + 1
      in s\<lparr>bc_clock := last_access,
           bc_entries := hm_insert key (entry\<lparr>cb_access := last_access\<rparr>) (bc_entries s),
           bc_lru := bm_insert last_access key lru\<rparr>)"

definition bc_get :: "'k \<Rightarrow> 'k block_cache \<Rightarrow> bytes option \<times> 'k block_cache" where
  "bc_get key s =
     (case hm_get (bc_entries s) key of
        None \<Rightarrow> (None, s\<lparr>bc_misses := sat_add (bc_misses s) 1\<rparr>)
      | Some entry \<Rightarrow>
          (Some (cb_bytes entry), (bc_touch key entry s)\<lparr>bc_hits := sat_add (bc_hits s) 1\<rparr>))"

definition bc_get_records ::
    "'k \<Rightarrow> 'k block_cache \<Rightarrow> table_scan_record list option \<times> 'k block_cache" where
  "bc_get_records key s =
     (case hm_get (bc_entries s) key of
        None \<Rightarrow> (None, s\<lparr>bc_decoded_misses := sat_add (bc_decoded_misses s) 1\<rparr>)
      | Some entry \<Rightarrow>
          (case cb_records entry of
             None \<Rightarrow> (None, s\<lparr>bc_decoded_misses := sat_add (bc_decoded_misses s) 1\<rparr>)
           | Some records \<Rightarrow>
               (Some records,
                (bc_touch key entry s)\<lparr>bc_decoded_hits := sat_add (bc_decoded_hits s) 1\<rparr>)))"

definition bc_drop_entry :: "'k \<Rightarrow> cached_block \<Rightarrow> 'k block_cache \<Rightarrow> 'k block_cache" where
  "bc_drop_entry key e s =
     s\<lparr>bc_entries := hm_remove key (bc_entries s),
       bc_resident := bc_resident s - sat_add (length (cb_bytes e)) (cb_decoded e)\<rparr>"

definition bc_evict_key :: "'k \<Rightarrow> 'k block_cache \<Rightarrow> 'k block_cache" where
  "bc_evict_key key s =
     (case hm_get (bc_entries s) key of
        None \<Rightarrow> s
      | Some e \<Rightarrow> (bc_drop_entry key e s)\<lparr>bc_evictions := sat_add (bc_evictions s) 1\<rparr>)"

text \<open>The eviction loop of \<open>insert\<close>.\<close>

function bc_make_room :: "nat \<Rightarrow> 'k block_cache \<Rightarrow> 'k block_cache" where
  "bc_make_room n s =
     (if sat_add (bc_resident s) n > bc_capacity s then
        (case bc_lru s of
           [] \<Rightarrow> s
         | (access, oldest_key) # lru \<Rightarrow> bc_make_room n (bc_evict_key oldest_key (s\<lparr>bc_lru := lru\<rparr>)))
      else s)"
  by pat_completeness auto
termination
  by (relation "measure (\<lambda>(n, s). length (bc_lru s))")
    (auto simp: bc_evict_key_def bc_drop_entry_def split: option.split)

declare bc_make_room.simps [simp del]

definition bc_insert :: "'k \<Rightarrow> bytes \<Rightarrow> 'k block_cache \<Rightarrow> 'k block_cache" where
  "bc_insert key bs s =
     (if length bs > bc_capacity s \<or> bc_capacity s = 0 then s
      else
        let s = (case hm_get (bc_entries s) key of
                   None \<Rightarrow> s
                 | Some previous \<Rightarrow>
                     (bc_drop_entry key previous s)
                       \<lparr>bc_lru := bm_remove (cb_access previous) (bc_lru s)\<rparr>);
            s = bc_make_room (length bs) s;
            last_access = bc_clock s + 1
        in s\<lparr>bc_clock := last_access,
             bc_resident := sat_add (bc_resident s) (length bs),
             bc_entries := hm_insert key \<lparr>cb_bytes = bs, cb_records = None, cb_decoded = 0,
                                          cb_access = last_access\<rparr> (bc_entries s),
             bc_lru := bm_insert last_access key (bc_lru s)\<rparr>)"

text \<open>
  The eviction loop of \<open>insert_records\<close>, which sets the block being extended aside and puts
  its position back at the end; \<open>False\<close> when it runs out of blocks to evict.
\<close>

definition bc_reinstate :: "(u64 \<times> 'k) option \<Rightarrow> 'k block_cache \<Rightarrow> 'k block_cache" where
  "bc_reinstate deferred s =
     (case deferred of None \<Rightarrow> s | Some (access, key) \<Rightarrow> s\<lparr>bc_lru := bm_insert access key (bc_lru s)\<rparr>)"

function bc_make_room_beside ::
    "'k \<Rightarrow> nat \<Rightarrow> (u64 \<times> 'k) option \<Rightarrow> 'k block_cache \<Rightarrow> bool \<times> 'k block_cache" where
  "bc_make_room_beside key n deferred s =
     (if sat_add (bc_resident s) n > bc_capacity s then
        (case bc_lru s of
           [] \<Rightarrow> (False, bc_reinstate deferred s)
         | (access, oldest_key) # lru \<Rightarrow>
             if oldest_key = key
             then bc_make_room_beside key n (Some (access, oldest_key)) (s\<lparr>bc_lru := lru\<rparr>)
             else bc_make_room_beside key n deferred (bc_evict_key oldest_key (s\<lparr>bc_lru := lru\<rparr>)))
      else (True, bc_reinstate deferred s))"
  by pat_completeness auto
termination
  by (relation "measure (\<lambda>(key, n, d, s). length (bc_lru s))")
    (auto simp: bc_evict_key_def bc_drop_entry_def split: option.split)

declare bc_make_room_beside.simps [simp del]

definition bc_insert_records ::
    "nat \<Rightarrow> 'k \<Rightarrow> table_scan_record list \<Rightarrow> 'k block_cache \<Rightarrow> 'k block_cache" where
  "bc_insert_records decoded_bytes key records s =
     (if decoded_bytes = 0 \<or> decoded_bytes > bc_capacity s
         \<or> (case hm_get (bc_entries s) key of
              None \<Rightarrow> True
            | Some entry \<Rightarrow> cb_records entry \<noteq> None
                \<or> sat_add (length (cb_bytes entry)) decoded_bytes > bc_capacity s)
      then s
      else
        let (room, s) = bc_make_room_beside key decoded_bytes None s
        in if \<not> room then s
           else case hm_get (bc_entries s) key of
             None \<Rightarrow> s
           | Some entry \<Rightarrow>
               if cb_records entry \<noteq> None then s
               else s\<lparr>bc_entries := hm_insert key
                        (entry\<lparr>cb_decoded := decoded_bytes, cb_records := Some records\<rparr>) (bc_entries s),
                      bc_resident := sat_add (bc_resident s) decoded_bytes\<rparr>)"

section \<open>Invariant\<close>

text \<open>
  The recency index lists exactly the cached blocks, each under its last access; the resident
  size is the sum of what the blocks occupy; no access is newer than the clock.
\<close>

definition bc_weight :: "'k \<Rightarrow> cached_block \<Rightarrow> nat" where
  "bc_weight k e = length (cb_bytes e) + cb_decoded e"

definition bc_linked :: "('k, cached_block) hmap \<Rightarrow> (u64, 'k) btree \<Rightarrow> bool" where
  "bc_linked entries lru \<longleftrightarrow>
     (\<forall>k e. hm_get entries k = Some e \<longrightarrow> bm_get lru (cb_access e) = Some k) \<and>
     (\<forall>a k. bm_get lru a = Some k \<longrightarrow> (\<exists>e. hm_get entries k = Some e \<and> cb_access e = a))"

definition bc_core :: "'k block_cache \<Rightarrow> bool" where
  "bc_core s \<longleftrightarrow> hm_ok (bc_entries s) \<and> bm_ok (bc_lru s) \<and> bc_linked (bc_entries s) (bc_lru s)
     \<and> (\<forall>a k. bm_get (bc_lru s) a = Some k \<longrightarrow> a \<le> bc_clock s)
     \<and> bc_resident s = hm_total bc_weight (bc_entries s) \<and> bc_resident s \<le> usize_max"

definition bc_inv :: "'k block_cache \<Rightarrow> bool" where
  "bc_inv s \<longleftrightarrow> bc_core s \<and> bc_resident s \<le> bc_capacity s \<and> bc_capacity s < usize_max"

text \<open>A property of every cached block; \<open>bc_plain\<close>: only decoded records are charged for.\<close>

definition bc_all :: "('k \<Rightarrow> cached_block \<Rightarrow> bool) \<Rightarrow> 'k block_cache \<Rightarrow> bool" where
  "bc_all P s \<longleftrightarrow> (\<forall>k e. hm_get (bc_entries s) k = Some e \<longrightarrow> P k e)"

definition bc_plain :: "'k \<Rightarrow> cached_block \<Rightarrow> bool" where
  "bc_plain k e \<longleftrightarrow> (cb_records e = None \<longrightarrow> cb_decoded e = 0)"

lemma bm_get_tl: "bm_ok ((a, k) # m) \<Longrightarrow> bm_get m a = None"
  by (auto simp: bm_get_None_iff)

lemma bc_linkedI:
  assumes "\<And>k e. hm_get entries k = Some e \<Longrightarrow> bm_get lru (cb_access e) = Some k"
    and "\<And>a k. bm_get lru a = Some k \<Longrightarrow> \<exists>e. hm_get entries k = Some e \<and> cb_access e = a"
  shows "bc_linked entries lru"
  using assms by (simp add: bc_linked_def)

lemma bc_linkedD1: "bc_linked entries lru \<Longrightarrow> hm_get entries k = Some e \<Longrightarrow> bm_get lru (cb_access e) = Some k"
  by (simp add: bc_linked_def)

lemma bc_linkedD2:
  "bc_linked entries lru \<Longrightarrow> bm_get lru a = Some k \<Longrightarrow> \<exists>e. hm_get entries k = Some e \<and> cb_access e = a"
  by (simp add: bc_linked_def)

lemma bc_linked_remove:
  assumes "bc_linked entries lru" "hm_get entries k = Some e"
  shows "bc_linked (hm_remove k entries) (bm_remove (cb_access e) lru)"
proof (rule bc_linkedI)
  fix k' e' assume "hm_get (hm_remove k entries) k' = Some e'"
  then have "k' \<noteq> k" "hm_get entries k' = Some e'"
    by (auto split: if_splits)
  then show "bm_get (bm_remove (cb_access e) lru) (cb_access e') = Some k'"
    using bc_linkedD1 [OF assms] bc_linkedD1 [OF assms(1), of k' e'] by auto
next
  fix a k' assume "bm_get (bm_remove (cb_access e) lru) a = Some k'"
  then have "a \<noteq> cb_access e" "bm_get lru a = Some k'"
    by (auto split: if_splits)
  then show "\<exists>e'. hm_get (hm_remove k entries) k' = Some e' \<and> cb_access e' = a"
    using bc_linkedD2 [OF assms(1), of a k'] assms(2) by auto
qed

lemma bc_linked_insert:
  assumes "bc_linked entries lru" "hm_get entries k = None" "bm_get lru (cb_access e) = None"
  shows "bc_linked (hm_insert k e entries) (bm_insert (cb_access e) k lru)"
proof (rule bc_linkedI)
  fix k' e' assume "hm_get (hm_insert k e entries) k' = Some e'"
  then show "bm_get (bm_insert (cb_access e) k lru) (cb_access e') = Some k'"
    using bc_linkedD1 [OF assms(1), of k' e'] assms(3) by (auto split: if_splits)
next
  fix a k' assume "bm_get (bm_insert (cb_access e) k lru) a = Some k'"
  then show "\<exists>e'. hm_get (hm_insert k e entries) k' = Some e' \<and> cb_access e' = a"
    using bc_linkedD2 [OF assms(1), of a k'] assms(2) by (auto split: if_splits)
qed

lemma bc_drop_weight:
  assumes "bc_core s" "hm_get (bc_entries s) k = Some e"
  shows "sat_add (length (cb_bytes e)) (cb_decoded e) = bc_weight k e"
    "bc_weight k e \<le> bc_resident s"
    "bc_resident s - bc_weight k e = hm_total bc_weight (hm_remove k (bc_entries s))"
proof -
  from assms show w: "bc_weight k e \<le> bc_resident s"
    and "bc_resident s - bc_weight k e = hm_total bc_weight (hm_remove k (bc_entries s))"
    using hm_total_remove [of "bc_entries s" k e bc_weight] by (auto simp: bc_core_def)
  have "bc_resident s \<le> usize_max"
    using assms by (simp add: bc_core_def)
  with w show "sat_add (length (cb_bytes e)) (cb_decoded e) = bc_weight k e"
    by (simp add: bc_weight_def)
qed

lemma bc_drop_core:
  assumes "bc_core s" "hm_get (bc_entries s) k = Some e"
  shows "bc_core ((bc_drop_entry k e s)\<lparr>bc_lru := bm_remove (cb_access e) (bc_lru s)\<rparr>)"
  using assms bc_drop_weight [OF assms]
  by (auto simp: bc_core_def bc_drop_entry_def bc_linked_remove)

lemma bc_core_counters [simp]:
  "bc_core (s\<lparr>bc_hits := n\<rparr>) = bc_core s" "bc_core (s\<lparr>bc_misses := n\<rparr>) = bc_core s"
  "bc_core (s\<lparr>bc_decoded_hits := n\<rparr>) = bc_core s" "bc_core (s\<lparr>bc_decoded_misses := n\<rparr>) = bc_core s"
  "bc_core (s\<lparr>bc_evictions := n\<rparr>) = bc_core s"
  by (simp_all add: bc_core_def)

lemma bc_core_oldest:
  assumes "bc_core s" "bc_lru s = (a, k) # lru"
  obtains e where "hm_get (bc_entries s) k = Some e" "cb_access e = a" "lru = bm_remove a (bc_lru s)"
proof -
  have "bm_get (bc_lru s) a = Some k"
    using assms(2) by simp
  moreover have "bc_linked (bc_entries s) (bc_lru s)"
    using assms(1) by (simp add: bc_core_def)
  ultimately obtain e where e: "hm_get (bc_entries s) k = Some e" "cb_access e = a"
    by (metis bc_linkedD2)
  have "bm_ok (bc_lru s)"
    using assms(1) by (simp add: bc_core_def)
  then have "lru = bm_remove a (bc_lru s)"
    unfolding assms(2) by (intro bm.get_inj) (auto simp: fun_eq_iff bm_get_None_iff)
  with e show ?thesis by (rule that)
qed

lemma bc_evict_core:
  assumes "bc_core s" "bc_lru s = (a, k) # lru"
  shows "bc_core (bc_evict_key k (s\<lparr>bc_lru := lru\<rparr>))"
    "bc_resident (bc_evict_key k (s\<lparr>bc_lru := lru\<rparr>)) \<le> bc_resident s"
    "bc_capacity (bc_evict_key k (s\<lparr>bc_lru := lru\<rparr>)) = bc_capacity s"
    "bc_clock (bc_evict_key k (s\<lparr>bc_lru := lru\<rparr>)) = bc_clock s"
    "bc_lru (bc_evict_key k (s\<lparr>bc_lru := lru\<rparr>)) = lru"
    "bc_entries (bc_evict_key k (s\<lparr>bc_lru := lru\<rparr>)) = hm_remove k (bc_entries s)"
proof -
  obtain e where e: "hm_get (bc_entries s) k = Some e" "cb_access e = a" "lru = bm_remove a (bc_lru s)"
    using assms by (rule bc_core_oldest)
  have "bc_core ((bc_drop_entry k e s)\<lparr>bc_lru := lru\<rparr>)"
    using bc_drop_core [OF assms(1) e(1)] e by simp
  then show "bc_core (bc_evict_key k (s\<lparr>bc_lru := lru\<rparr>))"
    using e by (simp add: bc_evict_key_def bc_drop_entry_def bc_core_def)
qed (auto simp: bc_evict_key_def bc_drop_entry_def hm_remove_absent split: option.split)

lemma bc_make_room_full:
  assumes "sat_add (bc_resident s) n > bc_capacity s" "bc_lru s = (a, k) # lru"
  shows "bc_make_room n s = bc_make_room n (bc_evict_key k (s\<lparr>bc_lru := lru\<rparr>))"
  by (subst bc_make_room.simps) (simp add: assms)

lemma bc_make_room_fits: "sat_add (bc_resident s) n \<le> bc_capacity s \<Longrightarrow> bc_make_room n s = s"
  by (subst bc_make_room.simps) simp

lemma bc_make_room_core:
  assumes "bc_core s" "n \<le> bc_capacity s" "bc_capacity s < usize_max"
  shows "bc_core (bc_make_room n s) \<and> bc_resident (bc_make_room n s) + n \<le> bc_capacity s
    \<and> bc_capacity (bc_make_room n s) = bc_capacity s \<and> bc_clock (bc_make_room n s) = bc_clock s"
  using assms
proof (induction n s rule: bc_make_room.induct)
  case (1 n s)
  show ?case
  proof (cases "sat_add (bc_resident s) n > bc_capacity s")
    case False
    then show ?thesis
      using "1.prems" by (auto simp: bc_make_room_fits sat_add_def min_def split: if_splits)
  next
    case full: True
    show ?thesis
    proof (cases "bc_lru s")
      case Nil
      then have "hm_get (bc_entries s) k = None" for k
        using "1.prems" by (auto simp: bc_core_def bc_linked_def)
      then have "bc_entries s = []"
        unfolding hm_get_None_iff by (cases "bc_entries s") auto
      then have "bc_resident s = 0"
        using "1.prems" by (simp add: bc_core_def)
      then show ?thesis
        using full "1.prems"(2) by (simp add: sat_add_def)
    next
      case (Cons x lru)
      obtain a k where x: "x = (a, k)" by (cases x)
      note evict = bc_evict_core [OF "1.prems"(1) Cons [unfolded x]]
      show ?thesis
        using "1.IH" [OF full Cons x [symmetric] evict(1)] "1.prems"
        unfolding bc_make_room_full [OF full Cons [unfolded x]] evict(3,4) by simp
    qed
  qed
qed

text \<open>The clock gives a fresh, newest position as long as it does not wrap.\<close>

lemma unat_clock_inc: "unat (c :: u64) < n \<Longrightarrow> n \<le> usize_max \<Longrightarrow> unat (c + 1) = unat c + 1"
  by (subst unat_add_lem [THEN iffD1]) (simp_all add: usize_max_def)

lemma bc_core_fresh:
  assumes "bc_core s" "unat (bc_clock s) < usize_max"
  shows "bm_get (bc_lru s) (bc_clock s + 1) = None"
    "bm_get (bc_lru s) a = Some k \<Longrightarrow> a \<le> bc_clock s + 1"
proof -
  have inc: "unat (bc_clock s + 1) = unat (bc_clock s) + 1"
    using assms(2) by (rule unat_clock_inc) simp
  have le: "a \<le> bc_clock s" if "bm_get (bc_lru s) a = Some k" for a k
    using assms(1) that by (auto simp: bc_core_def)
  show "bm_get (bc_lru s) (bc_clock s + 1) = None"
    using le [of "bc_clock s + 1"] inc by (cases "bm_get (bc_lru s) (bc_clock s + 1)") (auto simp: word_le_nat_alt)
  show "a \<le> bc_clock s + 1" if "bm_get (bc_lru s) a = Some k"
    using le [OF that] inc by (simp add: word_le_nat_alt)
qed

text \<open>Adding a block at the newest position: the end of \<open>insert\<close> and of a hit.\<close>

definition bc_admit :: "'k \<Rightarrow> cached_block \<Rightarrow> 'k block_cache \<Rightarrow> 'k block_cache" where
  "bc_admit k e s = s\<lparr>bc_clock := bc_clock s + 1, bc_resident := bc_resident s + bc_weight k e,
     bc_entries := hm_insert k (e\<lparr>cb_access := bc_clock s + 1\<rparr>) (bc_entries s),
     bc_lru := bm_insert (bc_clock s + 1) k (bc_lru s)\<rparr>"

lemma bc_admit_core:
  assumes "bc_core s" "unat (bc_clock s) < usize_max" "hm_get (bc_entries s) k = None"
    "bc_resident s + bc_weight k e \<le> usize_max"
  shows "bc_core (bc_admit k e s)"
proof -
  let ?e = "e\<lparr>cb_access := bc_clock s + 1\<rparr>"
  have "bc_linked (hm_insert k ?e (bc_entries s)) (bm_insert (cb_access ?e) k (bc_lru s))"
    using assms bc_core_fresh [OF assms(1,2)] by (intro bc_linked_insert) (simp_all add: bc_core_def)
  moreover have "hm_total bc_weight (hm_insert k ?e (bc_entries s)) = bc_resident s + bc_weight k e"
    using assms by (simp add: hm_total_insert bc_core_def) (simp add: bc_weight_def)
  moreover have "\<forall>a k'. bm_get (bm_insert (bc_clock s + 1) k (bc_lru s)) a = Some k' \<longrightarrow> a \<le> bc_clock s + 1"
    using bc_core_fresh(2) [OF assms(1,2)] by auto
  ultimately show ?thesis
    using assms by (simp add: bc_core_def bc_admit_def)
qed

text \<open>A hit takes the block out and admits it again with the same weight.\<close>

lemma bc_touch_admit:
  assumes "bc_core s" "hm_get (bc_entries s) k = Some e"
  shows "bc_touch k e s =
    bc_admit k e ((bc_drop_entry k e s)\<lparr>bc_lru := bm_remove (cb_access e) (bc_lru s)\<rparr>)"
  using bc_drop_weight [OF assms]
  by (simp add: bc_touch_def bc_admit_def bc_drop_entry_def Let_def hm_insert_def hm_remove_def)

lemma bc_touch_inv:
  assumes "bc_inv s" "hm_get (bc_entries s) k = Some e" "unat (bc_clock s) < usize_max"
  shows "bc_inv (bc_touch k e s)"
proof -
  have core: "bc_core s" using assms(1) by (simp add: bc_inv_def)
  have fits: "bc_resident (bc_drop_entry k e s) + bc_weight k e \<le> usize_max"
    using bc_drop_weight(1,2) [OF core assms(2)] core
    by (simp add: bc_drop_entry_def bc_core_def)
  have "bc_core (bc_touch k e s)"
    unfolding bc_touch_admit [OF core assms(2)]
    using bc_drop_core [OF core assms(2)] fits assms(3)
    by (intro bc_admit_core) (simp_all add: bc_drop_entry_def)
  then show ?thesis
    using assms(1) by (simp add: bc_inv_def bc_touch_def Let_def)
qed

lemma bc_get_inv [inv_intros]:
  "bc_inv s \<Longrightarrow> unat (bc_clock s) < usize_max \<Longrightarrow> bc_inv (snd (bc_get k s))"
  using bc_touch_inv [of s k] by (auto simp: bc_get_def bc_inv_def split: option.split)

lemma bc_get_records_inv [inv_intros]:
  "bc_inv s \<Longrightarrow> unat (bc_clock s) < usize_max \<Longrightarrow> bc_inv (snd (bc_get_records k s))"
  using bc_touch_inv [of s k] by (auto simp: bc_get_records_def bc_inv_def split: option.split)

text \<open>\<open>insert\<close> as its three phases: forget the key, make room, admit.\<close>

definition bc_forget :: "'k \<Rightarrow> 'k block_cache \<Rightarrow> 'k block_cache" where
  "bc_forget k s = (case hm_get (bc_entries s) k of None \<Rightarrow> s
     | Some e \<Rightarrow> (bc_drop_entry k e s)\<lparr>bc_lru := bm_remove (cb_access e) (bc_lru s)\<rparr>)"

lemma bc_forget_core: "bc_core s \<Longrightarrow> bc_core (bc_forget k s)"
  using bc_drop_core [of s k] by (auto simp: bc_forget_def split: option.split)

lemma bc_forget_fields [simp]:
  "bc_capacity (bc_forget k s) = bc_capacity s" "bc_clock (bc_forget k s) = bc_clock s"
  "bc_entries (bc_forget k s) = hm_remove k (bc_entries s)"
  by (auto simp: bc_forget_def bc_drop_entry_def hm_remove_absent split: option.split)

lemma bc_make_room_entries:
  "hm_get (bc_entries (bc_make_room n s)) k \<in> {None, hm_get (bc_entries s) k}"
proof (induction n s rule: bc_make_room.induct)
  case (1 n s)
  show ?case
  proof (cases "sat_add (bc_resident s) n > bc_capacity s \<and> bc_lru s \<noteq> []")
    case True
    then obtain a k' lru where l: "bc_lru s = (a, k') # lru"
      by (metis neq_Nil_conv surj_pair)
    have "hm_get (bc_entries (bc_evict_key k' (s\<lparr>bc_lru := lru\<rparr>))) k \<in> {None, hm_get (bc_entries s) k}"
      by (simp add: bc_evict_key_def bc_drop_entry_def split: option.split)
    then show ?thesis
      using "1.IH" [OF conjunct1 [OF True] l refl] True
      by (simp add: bc_make_room_full [OF _ l]) auto
  next
    case False
    then have "bc_make_room n s = s"
      by (subst bc_make_room.simps) auto
    then show ?thesis by simp
  qed
qed

definition bc_block :: "bytes \<Rightarrow> cached_block" where
  "bc_block bs = \<lparr>cb_bytes = bs, cb_records = None, cb_decoded = 0, cb_access = 0\<rparr>"

lemma bc_insert_admit:
  assumes "bc_inv s" "length bs \<le> bc_capacity s" "bc_capacity s \<noteq> 0"
  shows "bc_insert k bs s = bc_admit k (bc_block bs) (bc_make_room (length bs) (bc_forget k s))"
proof -
  have "bc_resident (bc_make_room (length bs) (bc_forget k s)) + length bs \<le> bc_capacity s"
    using bc_make_room_core [of "bc_forget k s" "length bs"] assms
    by (simp add: bc_inv_def bc_forget_core)
  then show ?thesis
    using assms by (simp add: bc_insert_def bc_admit_def bc_block_def bc_weight_def Let_def
      bc_forget_def bc_inv_def)
qed

lemma bc_insert_inv [inv_intros]:
  assumes "bc_inv s" "unat (bc_clock s) < usize_max"
  shows "bc_inv (bc_insert k bs s)"
proof (cases "length bs > bc_capacity s \<or> bc_capacity s = 0")
  case True
  then show ?thesis using assms by (simp add: bc_insert_def)
next
  case False
  let ?s = "bc_make_room (length bs) (bc_forget k s)"
  have room: "bc_core ?s \<and> bc_resident ?s + length bs \<le> bc_capacity s \<and>
      bc_capacity ?s = bc_capacity s \<and> bc_clock ?s = bc_clock s"
    using bc_make_room_core [of "bc_forget k s" "length bs"] assms False
    by (simp add: bc_inv_def bc_forget_core)
  moreover have "hm_get (bc_entries ?s) k = None"
    using bc_make_room_entries [of "length bs" "bc_forget k s" k] by simp
  ultimately have "bc_core (bc_admit k (bc_block bs) ?s)"
    using assms by (intro bc_admit_core) (simp_all add: bc_weight_def bc_block_def bc_inv_def)
  then show ?thesis
    using room assms False
    by (simp add: bc_insert_admit bc_inv_def) (simp add: bc_admit_def bc_weight_def bc_block_def)
qed

text \<open>Making room beside a block: the block set aside is still accounted for.\<close>

definition bc_aside :: "'k \<Rightarrow> (u64 \<times> 'k) option \<Rightarrow> 'k block_cache \<Rightarrow> bool" where
  "bc_aside key d s \<longleftrightarrow> bc_core (bc_reinstate d s) \<and> bm_ok (bc_lru s) \<and>
     (\<forall>a k. d = Some (a, k) \<longrightarrow> k = key \<and> bm_get (bc_lru s) a = None)"

lemma bc_reinstate_fields [simp]:
  "bc_entries (bc_reinstate d s) = bc_entries s" "bc_resident (bc_reinstate d s) = bc_resident s"
  "bc_capacity (bc_reinstate d s) = bc_capacity s" "bc_clock (bc_reinstate d s) = bc_clock s"
  by (auto simp: bc_reinstate_def split: option.split)

lemma bc_reinstate_lru:
  "bc_lru (bc_reinstate d s) = (case d of None \<Rightarrow> bc_lru s | Some (a, k) \<Rightarrow> bm_insert a k (bc_lru s))"
  by (auto simp: bc_reinstate_def split: option.split)

lemma bm_insert_head: "bm_ok ((a, k) # m) \<Longrightarrow> bm_insert a k m = (a, k) # m"
  by (rule bm.get_inj) (auto simp: fun_eq_iff)

lemma bc_aside_defer:
  assumes "bc_aside key d s" "bc_lru s = (a, key) # lru"
  shows "bc_aside key (Some (a, key)) (s\<lparr>bc_lru := lru\<rparr>)"
proof -
  have ok: "bm_ok ((a, key) # lru)" and core: "bc_core (bc_reinstate d s)"
    using assms by (simp_all add: bc_aside_def)
  have linked: "bc_linked (bc_entries s) (bc_lru (bc_reinstate d s))"
    using core by (simp add: bc_core_def)
  have "d = None"
  proof (rule ccontr)
    assume "d \<noteq> None"
    then obtain b where d: "d = Some (b, key)" and "b \<noteq> a"
      using assms by (auto simp: bc_aside_def split: if_splits)
    then show False
      using bc_linkedD2 [OF linked, of a key] bc_linkedD2 [OF linked, of b key] assms(2)
      by (auto simp: bc_reinstate_lru simp del: bm_insert.simps)
  qed
  then have "bc_reinstate (Some (a, key)) (s\<lparr>bc_lru := lru\<rparr>) = bc_reinstate d s"
    using assms(2) bm_insert_head [OF ok] by (simp add: bc_reinstate_def)
  then show ?thesis
    using core ok by (auto simp: bc_aside_def bm_get_None_iff)
qed

lemma bc_aside_evict:
  assumes "bc_aside key d s" "bc_lru s = (a, k) # lru" "k \<noteq> key"
  shows "bc_aside key d (bc_evict_key k (s\<lparr>bc_lru := lru\<rparr>))"
proof -
  have ok: "bm_ok ((a, k) # lru)" and core: "bc_core (bc_reinstate d s)"
    and d: "\<And>b k'. d = Some (b, k') \<Longrightarrow> b \<noteq> a"
    using assms by (auto simp: bc_aside_def)
  have "bm_get (bc_lru (bc_reinstate d s)) a = Some k"
    using d assms(2) by (auto simp: bc_reinstate_lru simp del: bm_insert.simps split: option.split)
  moreover have "bc_linked (bc_entries s) (bc_lru (bc_reinstate d s))"
    using core by (simp add: bc_core_def)
  ultimately obtain e where e: "hm_get (bc_entries s) k = Some e" "cb_access e = a"
    by (metis bc_linkedD2)
  have lru: "bm_remove a (bc_lru (bc_reinstate d s)) =
      (case d of None \<Rightarrow> lru | Some (b, k') \<Rightarrow> bm_insert b k' lru)"
  proof (rule bm.get_inj)
    show "bm_ok (bm_remove a (bc_lru (bc_reinstate d s)))"
      using core by (simp add: bc_core_def)
    show "bm_ok (case d of None \<Rightarrow> lru | Some (b, k') \<Rightarrow> bm_insert b k' lru)"
      using ok by (auto split: option.split)
    show "bm_get (bm_remove a (bc_lru (bc_reinstate d s))) =
        bm_get (case d of None \<Rightarrow> lru | Some (b, k') \<Rightarrow> bm_insert b k' lru)"
      using d bm_get_tl [OF ok] assms(2)
      by (auto simp: bc_reinstate_lru fun_eq_iff simp del: bm_insert.simps split: option.split)
  qed
  have "bc_core ((bc_drop_entry k e (bc_reinstate d s))\<lparr>bc_lru := bm_remove a (bc_lru (bc_reinstate d s))\<rparr>)"
    using bc_drop_core [OF core, of k e] e by simp
  then have "bc_core (bc_reinstate d (bc_evict_key k (s\<lparr>bc_lru := lru\<rparr>)))"
    unfolding lru using e
    by (cases d) (auto simp: bc_core_def bc_evict_key_def bc_drop_entry_def bc_reinstate_lru)
  moreover have "bc_lru (bc_evict_key k (s\<lparr>bc_lru := lru\<rparr>)) = lru"
    using e by (simp add: bc_evict_key_def bc_drop_entry_def)
  ultimately show ?thesis
    using assms ok by (auto simp: bc_aside_def split: if_splits)
qed

text \<open>What making room beside a block promises of the state it leaves.\<close>

definition bc_shrunk :: "'k \<Rightarrow> 'k block_cache \<Rightarrow> 'k block_cache \<Rightarrow> bool" where
  "bc_shrunk key s s' \<longleftrightarrow> bc_core s' \<and> bc_capacity s' = bc_capacity s \<and> bc_clock s' = bc_clock s
     \<and> bc_resident s' \<le> bc_resident s \<and> hm_get (bc_entries s') key = hm_get (bc_entries s) key
     \<and> (\<forall>k. hm_get (bc_entries s') k \<in> {None, hm_get (bc_entries s) k})"

lemma bc_shrunk_trans: "bc_shrunk key s t \<Longrightarrow> bc_shrunk key t u \<Longrightarrow> bc_shrunk key s u"
  unfolding bc_shrunk_def by (metis insert_iff le_trans singletonD)

lemma bc_shrunk_reinstate: "bc_aside key d s \<Longrightarrow> bc_shrunk key s (bc_reinstate d s)"
  by (simp add: bc_shrunk_def bc_aside_def)

lemma bc_shrunk_lru [simp]: "bc_shrunk key (s\<lparr>bc_lru := l\<rparr>) t = bc_shrunk key s t"
  by (simp add: bc_shrunk_def)

lemma bc_make_room_beside_shrunk:
  assumes "bc_aside key d s"
  shows "bc_shrunk key s (snd (bc_make_room_beside key n d s))"
  using assms
proof (induction key n d s rule: bc_make_room_beside.induct)
  case (1 key n d s)
  show ?case
  proof (cases "sat_add (bc_resident s) n > bc_capacity s \<and> bc_lru s \<noteq> []")
    case False
    then have "snd (bc_make_room_beside key n d s) = bc_reinstate d s"
      by (subst bc_make_room_beside.simps) (auto split: list.split)
    with "1.prems" show ?thesis
      by (simp add: bc_shrunk_reinstate)
  next
    case True
    then obtain a k lru where l: "bc_lru s = (a, k) # lru"
      by (metis neq_Nil_conv surj_pair)
    show ?thesis
    proof (cases "k = key")
      case same: True
      then show ?thesis
        using "1.IH"(1) [OF conjunct1 [OF True] l refl same] bc_aside_defer [OF "1.prems"] l True
        by (subst bc_make_room_beside.simps) simp
    next
      case other: False
      let ?t = "bc_evict_key k (s\<lparr>bc_lru := lru\<rparr>)"
      have aside: "bc_aside key d ?t"
        using bc_aside_evict [OF "1.prems" l other] .
      have "bc_shrunk key s (snd (bc_make_room_beside key n d ?t))"
        using "1.IH"(2) [OF conjunct1 [OF True] l refl other aside] other
        by (fastforce simp: bc_shrunk_def bc_evict_key_def bc_drop_entry_def split: option.splits if_splits)
      then show ?thesis
        using l other True by (subst bc_make_room_beside.simps) simp
    qed
  qed
qed

lemma bc_make_room_beside_fits:
  "bc_capacity s < usize_max \<Longrightarrow> fst (bc_make_room_beside key n d s) \<Longrightarrow>
   bc_resident (snd (bc_make_room_beside key n d s)) + n \<le> bc_capacity s"
proof (induction key n d s rule: bc_make_room_beside.induct)
  case (1 key n d s)
  show ?case
  proof (cases "sat_add (bc_resident s) n > bc_capacity s")
    case False
    then show ?thesis
      using "1.prems"(1)
      by (subst bc_make_room_beside.simps) (auto simp: sat_add_def min_def split: if_splits)
  next
    case True
    then obtain a k lru where l: "bc_lru s = (a, k) # lru"
      using "1.prems"(2) by (subst (asm) bc_make_room_beside.simps) (auto split: list.splits)
    have cap: "bc_capacity (bc_evict_key k (s\<lparr>bc_lru := lru\<rparr>)) = bc_capacity s"
      by (simp add: bc_evict_key_def bc_drop_entry_def split: option.split)
    show ?thesis
      using "1.IH"(1) [OF True l refl] "1.IH"(2) [OF True l refl] "1.prems" True l cap
      by (subst bc_make_room_beside.simps, subst (asm) (3) bc_make_room_beside.simps) (auto split: if_splits)
  qed
qed

lemma hm_empty_iff: "m = [] \<longleftrightarrow> (\<forall>k. hm_get m k = None)"
  unfolding hm_get_None_iff by (cases m) auto

lemma hm_total_single:
  assumes "hm_ok m" "hm_get m key = Some e" "\<And>k. k \<noteq> key \<Longrightarrow> hm_get m k = None"
  shows "hm_total w m = w key e"
proof -
  have "hm_remove key m = []"
    using assms(3) by (simp add: hm_empty_iff)
  then show ?thesis
    using hm_total_remove [OF assms(1,2), of w] by simp
qed

lemma bc_aside_last:
  assumes "bc_aside key d s" "bc_lru s = []" "hm_get (bc_entries s) key = Some e"
  shows "bc_resident s = bc_weight key e"
proof -
  have core: "bc_core (bc_reinstate d s)"
    using assms(1) by (simp add: bc_aside_def)
  have "k = key" if "hm_get (bc_entries s) k = Some e'" for k e'
  proof -
    have "bm_get (bc_lru (bc_reinstate d s)) (cb_access e') = Some k"
      using that core by (auto simp: bc_core_def intro: bc_linkedD1)
    then show ?thesis
      using assms(1,2) by (auto simp: bc_reinstate_lru bc_aside_def split: option.splits if_splits)
  qed
  then have "hm_get (bc_entries s) k = None" if "k \<noteq> key" for k
    using that by (meson not_None_eq)
  moreover have "hm_ok (bc_entries s)" "bc_resident s = hm_total bc_weight (bc_entries s)"
    using core by (simp_all add: bc_core_def)
  ultimately show ?thesis
    using hm_total_single [OF _ assms(3)] by simp
qed

lemma bc_make_room_beside_found:
  assumes "bc_aside key d s" "hm_get (bc_entries s) key = Some e"
    "bc_weight key e + n \<le> bc_capacity s"
  shows "fst (bc_make_room_beside key n d s)"
  using assms
proof (induction key n d s rule: bc_make_room_beside.induct)
  case (1 key n d s)
  show ?case
  proof (cases "sat_add (bc_resident s) n > bc_capacity s")
    case False
    then show ?thesis by (subst bc_make_room_beside.simps) simp
  next
    case True
    then have "bc_lru s \<noteq> []"
      using bc_aside_last [OF "1.prems"(1) _ "1.prems"(2)] "1.prems"(3) by (auto simp: sat_add_def)
    then obtain a k lru where l: "bc_lru s = (a, k) # lru"
      by (metis neq_Nil_conv surj_pair)
    show ?thesis
    proof (cases "k = key")
      case same: True
      then show ?thesis
        using "1.IH"(1) [OF True l refl same] bc_aside_defer [OF "1.prems"(1)] "1.prems"(2,3) l True
        by (subst bc_make_room_beside.simps) simp
    next
      case other: False
      let ?t = "bc_evict_key k (s\<lparr>bc_lru := lru\<rparr>)"
      have "hm_get (bc_entries ?t) key = Some e" "bc_capacity ?t = bc_capacity s"
        using other "1.prems"(2) by (simp_all add: bc_evict_key_def bc_drop_entry_def split: option.split)
      then have "fst (bc_make_room_beside key n d ?t)"
        using "1.IH"(2) [OF True l refl other bc_aside_evict [OF "1.prems"(1) l other]] "1.prems"(3)
        by simp
      then show ?thesis
        using l other True by (subst bc_make_room_beside.simps) simp
    qed
  qed
qed

text \<open>The end of \<open>insert_records\<close>: the block keeps its position and grows.\<close>

lemma bc_core_grow:
  assumes "bc_core s" "hm_get (bc_entries s) k = Some e" "cb_decoded e = 0" "bc_resident s + n \<le> usize_max"
  shows "bc_core (s\<lparr>bc_entries := hm_insert k (e\<lparr>cb_decoded := n, cb_records := r\<rparr>) (bc_entries s),
    bc_resident := bc_resident s + n\<rparr>)"
proof -
  let ?e = "e\<lparr>cb_decoded := n, cb_records := r\<rparr>"
  have "hm_total bc_weight (hm_insert k ?e (hm_remove k (bc_entries s))) = bc_resident s + n"
    using hm_total_remove [of "bc_entries s" k e bc_weight] assms
    by (simp add: hm_total_insert bc_core_def) (simp add: bc_weight_def)
  then have total: "hm_total bc_weight (hm_insert k ?e (bc_entries s)) = bc_resident s + n"
    by (simp add: hm_insert_def hm_remove_def)
  have linked: "bc_linked (bc_entries s) (bc_lru s)"
    using assms(1) by (simp add: bc_core_def)
  have "bc_linked (hm_insert k ?e (bc_entries s)) (bc_lru s)"
  proof (rule bc_linkedI)
    fix k' e' assume "hm_get (hm_insert k ?e (bc_entries s)) k' = Some e'"
    then show "bm_get (bc_lru s) (cb_access e') = Some k'"
      using bc_linkedD1 [OF linked, of k' e'] bc_linkedD1 [OF linked assms(2)] by (auto split: if_splits)
  next
    fix a k' assume "bm_get (bc_lru s) a = Some k'"
    then show "\<exists>e'. hm_get (hm_insert k ?e (bc_entries s)) k' = Some e' \<and> cb_access e' = a"
      using bc_linkedD2 [OF linked, of a k'] assms(2) by auto
  qed
  then show ?thesis
    using assms total by (simp add: bc_core_def)
qed

lemma bc_aside_None: "bc_core s \<Longrightarrow> bc_aside k None s"
  by (simp add: bc_aside_def bc_reinstate_def) (simp add: bc_core_def)

lemma bc_insert_records_cases:
  obtains "bc_insert_records n key records s = s"
  | e where "hm_get (bc_entries s) key = Some e" "cb_records e = None"
      "length (cb_bytes e) + n \<le> bc_capacity s \<or> bc_capacity s \<ge> usize_max"
      "bc_insert_records n key records s =
        (case bc_make_room_beside key n None s of (room, t) \<Rightarrow> if \<not> room then t else
           case hm_get (bc_entries t) key of None \<Rightarrow> t
           | Some entry \<Rightarrow> if cb_records entry \<noteq> None then t
             else t\<lparr>bc_entries := hm_insert key (entry\<lparr>cb_decoded := n, cb_records := Some records\<rparr>) (bc_entries t),
                    bc_resident := sat_add (bc_resident t) n\<rparr>)"
proof (cases "bc_insert_records n key records s = s")
  case False
  then obtain e where "hm_get (bc_entries s) key = Some e" "cb_records e = None"
    "sat_add (length (cb_bytes e)) n \<le> bc_capacity s" "n \<noteq> 0" "n \<le> bc_capacity s"
    by (auto simp: bc_insert_records_def split: option.splits if_splits)
  then show ?thesis
    by (intro that(2) [of e]) (auto simp: bc_insert_records_def sat_add_def min_def split: if_splits)
qed (rule that(1))

text \<open>With the invariant the records always find room, and the block grows in place.\<close>

lemma bc_insert_records_grow:
  assumes "bc_inv s" "bc_all bc_plain s" "bc_insert_records n key records s \<noteq> s"
  obtains t e where "bc_shrunk key s t" "bc_resident t + n \<le> bc_capacity s"
    "hm_get (bc_entries t) key = Some e" "cb_records e = None" "cb_decoded e = 0"
    "bc_insert_records n key records s =
      t\<lparr>bc_entries := hm_insert key (e\<lparr>cb_decoded := n, cb_records := Some records\<rparr>) (bc_entries t),
        bc_resident := bc_resident t + n\<rparr>"
proof (rule bc_insert_records_cases [of n key records s])
  fix e
  assume e: "hm_get (bc_entries s) key = Some e" "cb_records e = None"
    and fits: "length (cb_bytes e) + n \<le> bc_capacity s \<or> bc_capacity s \<ge> usize_max"
    and eq: "bc_insert_records n key records s =
        (case bc_make_room_beside key n None s of (room, t) \<Rightarrow> if \<not> room then t else
           case hm_get (bc_entries t) key of None \<Rightarrow> t
           | Some entry \<Rightarrow> if cb_records entry \<noteq> None then t
             else t\<lparr>bc_entries := hm_insert key (entry\<lparr>cb_decoded := n, cb_records := Some records\<rparr>) (bc_entries t),
                    bc_resident := sat_add (bc_resident t) n\<rparr>)"
  obtain room t where rt: "bc_make_room_beside key n None s = (room, t)"
    by (cases "bc_make_room_beside key n None s")
  have aside: "bc_aside key None s" and cap: "bc_capacity s < usize_max"
    using assms(1) by (simp_all add: bc_inv_def bc_aside_None)
  have plain: "cb_decoded e = 0"
    using assms(2) e by (simp add: bc_all_def bc_plain_def)
  have shrunk: "bc_shrunk key s t"
    using bc_make_room_beside_shrunk [OF aside, of n] rt by simp
  have "room"
    using bc_make_room_beside_found [OF aside e(1), of n] fits cap plain rt by (simp add: bc_weight_def)
  moreover have room: "bc_resident t + n \<le> bc_capacity s"
    using bc_make_room_beside_fits [OF cap, of key n None] rt \<open>room\<close> by simp
  moreover have "hm_get (bc_entries t) key = Some e"
    using shrunk e by (simp add: bc_shrunk_def)
  ultimately show ?thesis
    using that [OF shrunk room _ e(2) plain] eq rt e(2) cap by simp
qed (use assms(3) in simp)

lemma bc_insert_records_inv [inv_intros]:
  assumes "bc_inv s" "bc_all bc_plain s"
  shows "bc_inv (bc_insert_records n key records s)"
proof (cases "bc_insert_records n key records s = s")
  case False
  then obtain t e where t: "bc_shrunk key s t" "bc_resident t + n \<le> bc_capacity s"
    and e: "hm_get (bc_entries t) key = Some e" "cb_decoded e = 0"
    and eq: "bc_insert_records n key records s =
      t\<lparr>bc_entries := hm_insert key (e\<lparr>cb_decoded := n, cb_records := Some records\<rparr>) (bc_entries t),
        bc_resident := bc_resident t + n\<rparr>"
    using bc_insert_records_grow [OF assms] by metis
  have "bc_core (bc_insert_records n key records s)"
    unfolding eq using t e assms(1) by (intro bc_core_grow) (auto simp: bc_shrunk_def bc_inv_def)
  then show ?thesis
    using t assms(1) by (simp add: bc_inv_def eq bc_shrunk_def)
qed (use assms in simp)

section \<open>Contents\<close>

text \<open>A block property that does not depend on the access stamp survives every operation.\<close>

definition stamp_free :: "('k \<Rightarrow> cached_block \<Rightarrow> bool) \<Rightarrow> bool" where
  "stamp_free P \<longleftrightarrow> (\<forall>k e a. P k e \<longrightarrow> P k (e\<lparr>cb_access := a\<rparr>))"

lemma bc_all_touch:
  "stamp_free P \<Longrightarrow> bc_all P s \<Longrightarrow> hm_get (bc_entries s) k = Some e \<Longrightarrow> bc_all P (bc_touch k e s)"
  by (auto simp: bc_all_def stamp_free_def bc_touch_def Let_def)

lemma bc_all_counters [simp]:
  "bc_all P (s\<lparr>bc_hits := n\<rparr>) = bc_all P s" "bc_all P (s\<lparr>bc_misses := n\<rparr>) = bc_all P s"
  "bc_all P (s\<lparr>bc_decoded_hits := n\<rparr>) = bc_all P s" "bc_all P (s\<lparr>bc_decoded_misses := n\<rparr>) = bc_all P s"
  by (simp_all add: bc_all_def)

lemma bc_all_get: "stamp_free P \<Longrightarrow> bc_all P s \<Longrightarrow> bc_all P (snd (bc_get k s))"
  by (auto simp: bc_get_def bc_all_touch split: option.split)

lemma bc_all_get_records: "stamp_free P \<Longrightarrow> bc_all P s \<Longrightarrow> bc_all P (snd (bc_get_records k s))"
  by (auto simp: bc_get_records_def bc_all_touch split: option.split)

lemma bc_insert_entries:
  "hm_get (bc_entries (bc_insert key bs s)) k = Some e \<Longrightarrow>
   hm_get (bc_entries s) k = Some e \<or> k = key \<and> (\<exists>a. e = (bc_block bs)\<lparr>cb_access := a\<rparr>)"
  using bc_make_room_entries [of "length bs" "bc_forget key s" k]
  by (auto simp: bc_insert_def bc_block_def Let_def bc_forget_def [symmetric] split: if_splits)

lemma bc_all_insert:
  assumes "stamp_free P" "bc_all P s" "P key (bc_block bs)"
  shows "bc_all P (bc_insert key bs s)"
  using assms bc_insert_entries [of key bs s] unfolding bc_all_def stamp_free_def by blast

lemma bc_all_insert_records:
  assumes "bc_inv s" "bc_all bc_plain s" "bc_all P s"
    "\<And>e. P key e \<Longrightarrow> P key (e\<lparr>cb_decoded := n, cb_records := Some records\<rparr>)"
  shows "bc_all P (bc_insert_records n key records s)"
proof (cases "bc_insert_records n key records s = s")
  case False
  then obtain t e where t: "bc_shrunk key s t" and e: "hm_get (bc_entries t) key = Some e"
    and eq: "bc_insert_records n key records s =
      t\<lparr>bc_entries := hm_insert key (e\<lparr>cb_decoded := n, cb_records := Some records\<rparr>) (bc_entries t),
        bc_resident := bc_resident t + n\<rparr>"
    using bc_insert_records_grow [OF assms(1,2)] by metis
  have old: "hm_get (bc_entries s) k = Some e'" if "hm_get (bc_entries t) k = Some e'" for k e'
    using t that unfolding bc_shrunk_def by (metis empty_iff insert_iff option.distinct(1))
  show ?thesis
    using assms(3,4) old e by (auto simp: bc_all_def eq)
qed (use assms in simp)

lemma stamp_free_plain [simp]: "stamp_free bc_plain"
  by (simp add: stamp_free_def bc_plain_def)

lemma bc_plain_block [simp]: "bc_plain k (bc_block bs)"
  by (simp add: bc_plain_def bc_block_def)

section \<open>Runs of the cache\<close>

text \<open>What the readers of a table do with the cache, one call each.\<close>

datatype 'k bc_call =
    Get 'k
  | Get_Records 'k
  | Insert 'k bytes
  | Insert_Records nat 'k "table_scan_record list"

fun bc_step :: "'k bc_call \<Rightarrow> 'k block_cache \<Rightarrow> 'k block_cache" where
  "bc_step (Get k) s = snd (bc_get k s)"
| "bc_step (Get_Records k) s = snd (bc_get_records k s)"
| "bc_step (Insert k bs) s = bc_insert k bs s"
| "bc_step (Insert_Records n k rs) s = bc_insert_records n k rs s"

definition bc_run :: "'k bc_call list \<Rightarrow> nat \<Rightarrow> 'k block_cache" where
  "bc_run calls capacity = fold bc_step calls (bc_with_capacity capacity)"

definition bc_good :: "nat \<Rightarrow> 'k block_cache \<Rightarrow> bool" where
  "bc_good n s \<longleftrightarrow> bc_inv s \<and> bc_all bc_plain s \<and> unat (bc_clock s) \<le> n"

lemma bc_clock_touch: "unat (bc_clock s) < usize_max \<Longrightarrow> unat (bc_clock (bc_touch k e s)) = unat (bc_clock s) + 1"
  using unat_clock_inc [of "bc_clock s" usize_max] by (simp add: bc_touch_def Let_def)

lemma bc_clock_insert:
  assumes "bc_inv s" "unat (bc_clock s) < usize_max"
  shows "unat (bc_clock (bc_insert k bs s)) \<le> unat (bc_clock s) + 1"
proof (cases "length bs > bc_capacity s \<or> bc_capacity s = 0")
  case True
  then show ?thesis by (simp add: bc_insert_def)
next
  case False
  then have "bc_clock (bc_make_room (length bs) (bc_forget k s)) = bc_clock s"
    using bc_make_room_core [of "bc_forget k s" "length bs"] assms by (simp add: bc_inv_def bc_forget_core)
  then show ?thesis
    using False bc_insert_admit [OF assms(1)] unat_clock_inc [OF assms(2)] by (simp add: bc_admit_def)
qed

lemma bc_clock_insert_records:
  assumes "bc_inv s" "bc_all bc_plain s"
  shows "bc_clock (bc_insert_records n k rs s) = bc_clock s"
proof (cases "bc_insert_records n k rs s = s")
  case False
  then show ?thesis
    by (rule bc_insert_records_grow [OF assms]) (simp add: bc_shrunk_def)
qed simp

lemma bc_step_good:
  assumes "bc_good n s" "n < usize_max"
  shows "bc_good (Suc n) (bc_step c s)"
proof -
  have s: "bc_inv s" "bc_all bc_plain s" "unat (bc_clock s) \<le> n" "unat (bc_clock s) < usize_max"
    using assms by (simp_all add: bc_good_def)
  have "unat (bc_clock (bc_insert k bs s)) \<le> Suc n" for k bs
    using bc_clock_insert [OF s(1,4), of k bs] s(3) by simp
  then have "unat (bc_clock (bc_step c s)) \<le> Suc n"
    using s bc_clock_touch [OF s(4)] bc_clock_insert_records [OF s(1,2)]
    by (cases c) (auto simp: bc_get_def bc_get_records_def split: option.split)
  then show ?thesis
    using s by (cases c) (auto simp: bc_good_def bc_plain_def bc_block_def intro!: inv_intros bc_all_get
      bc_all_get_records bc_all_insert bc_all_insert_records)
qed

lemma bc_make_room_capacity [simp]: "bc_capacity (bc_make_room n s) = bc_capacity s"
  by (induction n s rule: bc_make_room.induct)
    (subst bc_make_room.simps, auto simp: bc_evict_key_def bc_drop_entry_def split: list.split option.split)

lemma bc_make_room_beside_capacity [simp]:
  "bc_capacity (snd (bc_make_room_beside key n d s)) = bc_capacity s"
  by (induction key n d s rule: bc_make_room_beside.induct)
    (subst bc_make_room_beside.simps,
     auto simp: bc_evict_key_def bc_drop_entry_def split: list.split option.split)

lemma bc_step_capacity [simp]: "bc_capacity (bc_step c s) = bc_capacity s"
  by (cases c) (auto simp: bc_get_def bc_get_records_def bc_touch_def bc_insert_def bc_insert_records_def
    bc_drop_entry_def Let_def split_def split: option.split)

lemma bc_run_capacity: "bc_capacity (bc_run calls capacity) = capacity"
  by (induction calls rule: rev_induct) (simp_all add: bc_run_def bc_with_capacity_def)

lemma bc_run_good:
  assumes "length calls \<le> usize_max" "capacity < usize_max"
  shows "bc_good (length calls) (bc_run calls capacity)"
  using assms(1)
proof (induction calls rule: rev_induct)
  case Nil
  show ?case
    using assms(2) by (simp add: bc_run_def bc_good_def bc_inv_def bc_core_def bc_linked_def
      bc_all_def bc_with_capacity_def)
next
  case (snoc c calls)
  then show ?case
    using bc_step_good [of "length calls" "bc_run calls capacity" c] by (simp add: bc_run_def)
qed

text \<open>
  C14: however the cache is used, its accounting stays right and within the budget: after any
  sequence of lookups and insertions the resident size is the sum of what the cached blocks and
  their decoded records occupy, it does not exceed the capacity, and every cached block has its
  place in the eviction order (so it can be evicted).
\<close>

theorem block_cache_budget:
  assumes "length calls \<le> usize_max" "capacity < usize_max"
  shows "let s = bc_run calls capacity in
     bc_resident s = sum_list (map (\<lambda>(k, e). length (cb_bytes e) + cb_decoded e) (bc_entries s)) \<and>
     bc_resident s \<le> capacity \<and>
     (\<forall>a k. bm_get (bc_lru s) a = Some k \<longleftrightarrow> (\<exists>e. hm_get (bc_entries s) k = Some e \<and> cb_access e = a))"
proof -
  let ?s = "bc_run calls capacity"
  have "bc_inv ?s"
    using bc_run_good [OF assms] by (simp add: bc_good_def)
  then have s: "bc_linked (bc_entries ?s) (bc_lru ?s)" "bc_resident ?s \<le> bc_capacity ?s"
    "bc_resident ?s = hm_total bc_weight (bc_entries ?s)"
    by (simp_all add: bc_inv_def bc_core_def)
  have "bm_get (bc_lru ?s) a = Some k \<longleftrightarrow> (\<exists>e. hm_get (bc_entries ?s) k = Some e \<and> cb_access e = a)" for a k
    using bc_linkedD1 [OF s(1)] bc_linkedD2 [OF s(1)] by blast
  moreover have "bc_capacity ?s = capacity"
    by (rule bc_run_capacity)
  ultimately show ?thesis
    using s(2,3) by (simp add: Let_def hm_total_def bc_weight_def split_def)
qed

theorem block_cache_budget_witness:
  "let s = bc_run [Insert ''a'' [1, 2], Insert ''b'' [3], Get ''a'', Insert ''c'' [4, 5]] 4 in
     bc_resident s = 4 \<and> bc_resident s \<le> 4 \<and> bc_get ''b'' s = (None, s\<lparr>bc_misses := 1\<rparr>)"
proof -
  have run: "bc_run [Insert ''a'' [1, 2], Insert ''b'' [3], Get ''a'', Insert ''c'' [4, 5]] 4 =
    \<lparr>bc_capacity = 4, bc_resident = 4, bc_clock = 4, bc_hits = 1, bc_misses = 0, bc_decoded_hits = 0,
     bc_decoded_misses = 0, bc_evictions = 1,
     bc_entries = [(''c'', \<lparr>cb_bytes = [4, 5], cb_records = None, cb_decoded = 0, cb_access = 4\<rparr>),
                   (''a'', \<lparr>cb_bytes = [1, 2], cb_records = None, cb_decoded = 0, cb_access = 3\<rparr>)],
     bc_lru = [(3, ''a''), (4, ''c'')]\<rparr>"
    by code_simp
  show ?thesis
    using block_cache_budget [of "[Insert ''a'' [1, 2], Insert ''b'' [3], Get ''a'', Insert ''c'' [4, 5]]" 4]
    unfolding run by (simp add: usize_max_def bc_get_def hm_get_def sat_add_def)
qed

text \<open>The eviction order: what survives was used after everything that was evicted.\<close>

lemma bc_make_room_lru:
  assumes "bc_core s" "hm_get (bc_entries (bc_make_room n s)) k1 = Some e1"
    "hm_get (bc_entries s) k2 = Some e2" "hm_get (bc_entries (bc_make_room n s)) k2 = None"
  shows "cb_access e2 < cb_access e1"
  using assms
proof (induction n s rule: bc_make_room.induct)
  case (1 n s)
  show ?case
  proof (cases "sat_add (bc_resident s) n > bc_capacity s \<and> bc_lru s \<noteq> []")
    case False
    then have "bc_make_room n s = s"
      by (subst bc_make_room.simps) auto
    then show ?thesis using "1.prems" by simp
  next
    case True
    then obtain a k lru where l: "bc_lru s = (a, k) # lru"
      by (metis neq_Nil_conv surj_pair)
    let ?t = "bc_evict_key k (s\<lparr>bc_lru := lru\<rparr>)"
    note evict = bc_evict_core [OF "1.prems"(1) l]
    have step: "bc_make_room n s = bc_make_room n ?t"
      using True l by (intro bc_make_room_full) simp_all
    have k1: "k1 \<noteq> k" "hm_get (bc_entries s) k1 = Some e1"
      using bc_make_room_entries [of n ?t k1] "1.prems"(2) step evict(6) by (auto split: if_splits)
    show ?thesis
    proof (cases "k2 = k")
      case True
      have linked: "bc_linked (bc_entries s) (bc_lru s)" and ok: "bm_ok (bc_lru s)"
        using "1.prems"(1) by (simp_all add: bc_core_def)
      have "cb_access e2 = a"
        using bc_linkedD2 [OF linked, of a k] l "1.prems"(3) True by auto
      moreover have "bm_get lru (cb_access e1) = Some k1" "cb_access e1 \<noteq> a"
        using bc_linkedD1 [OF linked k1(2)] l k1(1) by (auto split: if_splits)
      then have "a < cb_access e1"
        using ok l bm_get_SomeD [of lru "cb_access e1" k1] by fastforce
      ultimately show ?thesis by simp
    next
      case False
      then show ?thesis
        using "1.IH" [OF conjunct1 [OF True] l refl evict(1)] "1.prems" step evict(6) by simp
    qed
  qed
qed

text \<open>
  \<open>insert\<close> evicts the least recently used blocks: a block that survives the insertion of
  another key was accessed later than every block that was evicted to make room.
\<close>

theorem block_cache_evicts_oldest:
  assumes "bc_inv s" "k1 \<noteq> key" "k2 \<noteq> key"
    "hm_get (bc_entries (bc_insert key bs s)) k1 = Some e1"
    "hm_get (bc_entries s) k2 = Some e2" "hm_get (bc_entries (bc_insert key bs s)) k2 = None"
  shows "cb_access e2 < cb_access e1"
proof -
  have fits: "length bs \<le> bc_capacity s" "bc_capacity s \<noteq> 0"
    using assms(5,6) by (auto simp: bc_insert_def split: if_splits)
  have core: "bc_core (bc_forget key s)"
    using assms(1) by (simp add: bc_inv_def bc_forget_core)
  show ?thesis
    using assms bc_insert_admit [OF assms(1) fits, of key]
    by (intro bc_make_room_lru [OF core, of "length bs" k1 e1 k2 e2]) (simp_all add: bc_admit_def)
qed

theorem block_cache_evicts_oldest_witness:
  "let s = bc_run [Insert ''a'' [1, 2], Insert ''b'' [3], Get ''a''] 4;
       t = bc_insert ''c'' [4, 5] s in
     (\<exists>e1 e2. hm_get (bc_entries t) ''a'' = Some e1 \<and> hm_get (bc_entries s) ''b'' = Some e2 \<and>
       hm_get (bc_entries t) ''b'' = None \<and> cb_access e2 < cb_access e1)"
proof -
  let ?s = "bc_run [Insert ''a'' [1, 2], Insert ''b'' [3], Get ''a''] 4"
  have "bc_inv ?s"
    using bc_run_good [of "[Insert ''a'' [1, 2], Insert ''b'' [3], Get ''a'']" 4]
    by (simp add: bc_good_def usize_max_def)
  moreover have "hm_get (bc_entries (bc_insert ''c'' [4, 5] ?s)) ''a'' =
      Some \<lparr>cb_bytes = [1, 2], cb_records = None, cb_decoded = 0, cb_access = 3\<rparr>"
    "hm_get (bc_entries ?s) ''b'' = Some \<lparr>cb_bytes = [3], cb_records = None, cb_decoded = 0, cb_access = 2\<rparr>"
    "hm_get (bc_entries (bc_insert ''c'' [4, 5] ?s)) ''b'' = None"
    by code_simp+
  ultimately show ?thesis
    using block_cache_evicts_oldest [of ?s "''a''" "''c''" "''b''"] by (auto simp: Let_def)
qed

section \<open>The cache as its readers see it\<close>

text \<open>
  A read-through cache of an immutable source: a hit is what the source holds under the key, and
  both operations keep it so. The readers rely on nothing else, in particular not on what is
  evicted when.
\<close>

locale source_cache =
  fixes coherent :: "('k \<Rightarrow> 'b option) \<Rightarrow> 'c \<Rightarrow> bool"
    and lookup :: "'k \<Rightarrow> 'c \<Rightarrow> 'b option \<times> 'c"
    and store :: "'k \<Rightarrow> 'b \<Rightarrow> 'c \<Rightarrow> 'c"
  assumes lookup_sound: "coherent src c \<Longrightarrow> lookup k c = (Some b, c') \<Longrightarrow> src k = Some b"
    and lookup_coherent: "coherent src c \<Longrightarrow> lookup k c = (r, c') \<Longrightarrow> coherent src c'"
    and store_coherent: "coherent src c \<Longrightarrow> src k = Some b \<Longrightarrow> coherent src (store k b c)"
begin

lemma read_through:
  assumes "coherent src c" "src k = Some b" "lookup k c = (r, c')"
  shows "r = None \<and> coherent src (store k b c') \<or> r = Some b \<and> coherent src c'"
proof (cases r)
  case None
  then show ?thesis
    using lookup_coherent [OF assms(1,3)] store_coherent assms(2) by blast
next
  case (Some b')
  then show ?thesis
    using lookup_coherent [OF assms(1,3)] lookup_sound [OF assms(1)] assms(2,3) by auto
qed

end

definition bc_coherent :: "('k \<Rightarrow> bytes option) \<Rightarrow> 'k block_cache \<Rightarrow> bool" where
  "bc_coherent src = bc_all (\<lambda>k e. src k = Some (cb_bytes e))"

lemma stamp_free_bytes: "stamp_free (\<lambda>k e. P k (cb_bytes e))"
  by (simp add: stamp_free_def)

interpretation bcache: source_cache bc_coherent bc_get bc_insert
proof
  fix src :: "'k \<Rightarrow> bytes option" and c k b c' r
  assume c: "bc_coherent src c"
  show "src k = Some b" if "bc_get k c = (Some b, c')"
    using c that by (auto simp: bc_coherent_def bc_all_def bc_get_def split: option.splits)
  show "bc_coherent src c'" if "bc_get k c = (r, c')"
    using bc_all_get [OF stamp_free_bytes, of "\<lambda>k b. src k = Some b" c k] c that by (simp add: bc_coherent_def)
  show "bc_coherent src (bc_insert k b c)" if "src k = Some b"
    using c that unfolding bc_coherent_def
    by (intro bc_all_insert stamp_free_bytes) (simp_all add: bc_block_def)
qed

lemma bc_coherent_empty [simp]: "bc_coherent src (bc_with_capacity n)"
  by (simp add: bc_coherent_def bc_all_def bc_with_capacity_def)

end
