(* ===== verification/Table.thy ===== *)
theory Table
  imports Codec Block_Cache
begin

text \<open>
  The table files of \<open>crates/thingdb/src/lib.rs\<close>: \<open>write_table\<close> lays the entries of a
  memtable (a value or a tombstone per key) out as checksummed records grouped into blocks and a
  footer that indexes the blocks; \<open>read_table_index\<close> and \<open>validate_table_footer\<close> check a
  file when it is opened; \<open>candidate_block\<close>, \<open>candidate_entry_range\<close> and
  \<open>read_table_block_entry_value\<close> look a key up through the block cache. The CRC of the
  \<open>crc32fast\<close> crate is the parameter \<open>crc\<close>; no law of it is used. The index that
  \<open>loaded_entries\<close> memoises in a \<open>OnceLock\<close> is recomputed here: the file of a layer is
  never rewritten. Byte counts and durations returned for the diagnostics are left out.
\<close>

definition TABLE_MAGIC :: bytes where "TABLE_MAGIC = ascii ''TDBTAB01''"
definition TABLE_MAGIC_V2 :: bytes where "TABLE_MAGIC_V2 = ascii ''TDBTAB02''"
definition TABLE_MAGIC_V3 :: bytes where "TABLE_MAGIC_V3 = ascii ''TDBTAB03''"
definition TABLE_FOOTER_MAGIC :: bytes where "TABLE_FOOTER_MAGIC = ascii ''TDBFTR01''"

record table_index_entry =
  te_key :: bytes
  te_offset :: nat
  te_length :: nat

record table_block =
  tb_offset :: nat
  tb_length :: nat
  tb_first_key :: bytes
  tb_last_key :: bytes
  tb_checksum :: u32

type_synonym memtable = "(bytes, bytes option) btree"

section \<open>Writing\<close>

definition TABLE_WRITE_BUFFER_BYTES :: nat where
  "TABLE_WRITE_BUFFER_BYTES = 64 * 1024"

record table_writer =
  tw_file :: bytes
  tw_buffer :: bytes
  tw_first_key :: "bytes option"
  tw_last_key :: "bytes option"
  tw_offset :: nat
  tw_blocks :: "table_block list"

definition table_record :: "(bytes \<Rightarrow> u32) \<Rightarrow> bytes \<Rightarrow> bytes option \<Rightarrow> bytes db_result" where
  "table_record crc key value =
     and_then (write_bytes [] key) (\<lambda>record.
     and_then (case value of
                 Some v \<Rightarrow> write_bytes (record @ [1]) v
               | None \<Rightarrow> Ok (record @ [2])) (\<lambda>record.
     Ok (write_u32 record (crc record))))"

text \<open>The block in the buffer goes to the file and into the list of blocks.\<close>

definition push_block :: "(bytes \<Rightarrow> u32) \<Rightarrow> table_writer \<Rightarrow> table_writer db_result" where
  "push_block crc w =
     and_then (ok_or (Message ''ThingDB table block has no first key'') (tw_first_key w)) (\<lambda>first_key.
     and_then (ok_or (Message ''ThingDB table block has no last key'') (tw_last_key w)) (\<lambda>last_key.
     Ok (w\<lparr>tw_file := tw_file w @ tw_buffer w, tw_first_key := None, tw_last_key := None,
           tw_blocks := tw_blocks w @ [\<lparr>tb_offset = tw_offset w, tb_length = length (tw_buffer w),
             tb_first_key = first_key, tb_last_key = last_key, tb_checksum = crc (tw_buffer w)\<rparr>]\<rparr>)))"

definition write_entry :: "(bytes \<Rightarrow> u32) \<Rightarrow> bytes \<times> bytes option \<Rightarrow> table_writer \<Rightarrow> table_writer db_result" where
  "write_entry crc e w =
     and_then (table_record crc (fst e) (snd e)) (\<lambda>record.
     and_then (if sat_add (length (tw_buffer w)) (length record) > TABLE_WRITE_BUFFER_BYTES
                  \<and> tw_buffer w \<noteq> []
               then and_then (push_block crc w) (\<lambda>w.
                      Ok (w\<lparr>tw_offset := sat_add (tw_offset w) (length (tw_buffer w)), tw_buffer := []\<rparr>))
               else Ok w) (\<lambda>w.
     Ok (w\<lparr>tw_first_key := (if tw_first_key w = None then Some (fst e) else tw_first_key w),
           tw_last_key := Some (fst e),
           tw_buffer := tw_buffer w @ record\<rparr>)))"

fun write_entries :: "(bytes \<Rightarrow> u32) \<Rightarrow> memtable \<Rightarrow> table_writer \<Rightarrow> table_writer db_result" where
  "write_entries crc [] w = Ok w"
| "write_entries crc (e # es) w = and_then (write_entry crc e w) (write_entries crc es)"

fun write_blocks :: "table_block list \<Rightarrow> bytes \<Rightarrow> bytes db_result" where
  "write_blocks [] footer = Ok footer"
| "write_blocks (b # bs) footer =
     and_then (write_bytes (footer @ to_be 8 (tb_offset b) @ to_be 8 (tb_length b)) (tb_first_key b)) (\<lambda>footer.
     and_then (write_bytes footer (tb_last_key b)) (\<lambda>footer.
     write_blocks bs (write_u32 footer (tb_checksum b))))"

text \<open>The bytes of the finished file, and the footer position the source asserts.\<close>

definition write_table_at :: "(bytes \<Rightarrow> u32) \<Rightarrow> u64 \<Rightarrow> memtable \<Rightarrow> (bytes \<times> nat \<times> nat) db_result" where
  "write_table_at crc sequence entries =
     and_then (reject_if (length entries > usize_max) (Message ''too many entries in ThingDB table'')) (\<lambda>_.
     and_then (write_entries crc entries
       \<lparr>tw_file = TABLE_MAGIC_V3 @ to_be 8 (unat sequence) @ to_be 8 (length entries), tw_buffer = [],
        tw_first_key = None, tw_last_key = None, tw_offset = length TABLE_MAGIC_V3 + 16,
        tw_blocks = []\<rparr>) (\<lambda>w.
     and_then (if tw_buffer w \<noteq> [] then push_block crc w else Ok w) (\<lambda>w.
     let footer_start = sat_add (tw_offset w) (length (tw_buffer w)) in
     and_then (write_blocks (tw_blocks w) (TABLE_FOOTER_MAGIC @ to_be 8 (length (tw_blocks w)))) (\<lambda>footer.
     Ok (tw_file w @ write_u32 footer (crc footer), footer_start, length (tw_file w))))))"

definition write_table :: "(bytes \<Rightarrow> u32) \<Rightarrow> u64 \<Rightarrow> memtable \<Rightarrow> bytes db_result" where
  "write_table crc sequence entries = and_then (write_table_at crc sequence entries) (\<lambda>(file, _). Ok file)"

section \<open>Opening\<close>

definition read_index_entry ::
    "(bytes \<Rightarrow> u32) \<Rightarrow> bool \<Rightarrow> bool \<Rightarrow> bytes \<Rightarrow> nat \<Rightarrow> (table_index_entry \<times> nat) db_result" where
  "read_index_entry crc is_v2 is_v3 bs cursor =
     (if is_v3 \<and> subslice bs cursor (cursor + length TABLE_FOOTER_MAGIC) = Some TABLE_FOOTER_MAGIC
      then Err (Message ''ThingDB table footer appears before all records'')
      else
        let record_start = cursor in
        and_then (read_bytes bs cursor) (\<lambda>(key, cursor).
        and_then (if is_v2
                  then and_then (read_byte bs cursor) (\<lambda>(kind, cursor).
                         if kind = 1
                         then and_then (read_bytes bs cursor) (\<lambda>(v, cursor). Ok (Some v, cursor))
                         else if kind = 2 then Ok (None, cursor)
                         else Err (Message ''invalid ThingDB table operation''))
                  else and_then (read_bytes bs cursor) (\<lambda>(v, cursor). Ok (Some v, cursor))) (\<lambda>(value, cursor).
        let checksum_end = cursor in
        and_then (read_u32 bs cursor) (\<lambda>(stored, cursor).
        let actual = crc (take (checksum_end - record_start) (drop record_start bs)) in
        and_then (reject_if (stored \<noteq> actual) (Message ''ThingDB table checksum mismatch'')) (\<lambda>_.
        Ok (\<lparr>te_key = key, te_offset = record_start, te_length = cursor - record_start\<rparr>, cursor))))))"

fun validate_blocks :: "(bytes \<Rightarrow> u32) \<Rightarrow> nat \<Rightarrow> bytes \<Rightarrow> nat \<Rightarrow> nat option \<Rightarrow> nat option \<Rightarrow> nat
    \<Rightarrow> (table_block list \<times> nat option \<times> nat) db_result" where
  "validate_blocks crc footer_start bs 0 previous_offset previous_end cursor = Ok ([], previous_end, cursor)"
| "validate_blocks crc footer_start bs (Suc n) previous_offset previous_end cursor =
     and_then (read_u64 bs cursor) (\<lambda>(offset, cursor).
     and_then (read_u64 bs cursor) (\<lambda>(len, cursor).
     and_then (read_bytes bs cursor) (\<lambda>(first_key, cursor).
     and_then (read_bytes bs cursor) (\<lambda>(last_key, cursor).
     and_then (read_u32 bs cursor) (\<lambda>(block_checksum, cursor).
     let offset = unat offset; len = unat len in
     and_then (ok_or (Message ''ThingDB table block range overflow'') (checked_add offset len)) (\<lambda>block_end.
     and_then (reject_if (offset < length TABLE_MAGIC_V3 + 16 \<or> block_end > footer_start
                 \<or> (case previous_offset of Some p \<Rightarrow> offset \<le> p | None \<Rightarrow> False)
                 \<or> (case previous_end of Some p \<Rightarrow> offset \<noteq> p | None \<Rightarrow> False)
                 \<or> first_key > last_key)
                (Message ''invalid ThingDB table block metadata'')) (\<lambda>_.
     and_then (reject_if (crc (take (block_end - offset) (drop offset bs)) \<noteq> block_checksum)
                (Message ''ThingDB table block checksum mismatch'')) (\<lambda>_.
     and_then (validate_blocks crc footer_start bs n (Some offset) (Some block_end) cursor) (\<lambda>(blocks, previous_end, cursor).
     Ok (\<lparr>tb_offset = offset, tb_length = len, tb_first_key = first_key, tb_last_key = last_key,
          tb_checksum = block_checksum\<rparr> # blocks, previous_end, cursor))))))))))"

definition validate_table_footer :: "(bytes \<Rightarrow> u32) \<Rightarrow> bytes \<Rightarrow> nat \<Rightarrow> table_block list db_result" where
  "validate_table_footer crc bs footer_start =
     and_then (reject_if (subslice bs footer_start (footer_start + length TABLE_FOOTER_MAGIC) \<noteq> Some TABLE_FOOTER_MAGIC)
                (Message ''invalid ThingDB table footer'')) (\<lambda>_.
     and_then (read_u64 bs (footer_start + length TABLE_FOOTER_MAGIC)) (\<lambda>(block_count, cursor).
     and_then (validate_blocks crc footer_start bs (unat block_count) None None cursor) (\<lambda>(blocks, previous_end, cursor).
     and_then (reject_if (unat block_count > 0 \<and> previous_end \<noteq> Some footer_start)
                (Message ''ThingDB table blocks do not cover the data area'')) (\<lambda>_.
     and_then (read_u32 bs cursor) (\<lambda>(stored_checksum, cursor).
     and_then (reject_if (stored_checksum \<noteq> crc (take (cursor - 4 - footer_start) (drop footer_start bs)))
                (Message ''ThingDB table footer checksum mismatch'')) (\<lambda>_.
     and_then (reject_if (cursor \<noteq> length bs) (Message ''trailing bytes after ThingDB table footer'')) (\<lambda>_.
     Ok blocks)))))))"

fun strictly_ordered :: "bytes list \<Rightarrow> bool" where
  "strictly_ordered (a # b # ks) = (a < b \<and> strictly_ordered (b # ks))"
| "strictly_ordered _ = True"

definition read_table_index ::
    "(bytes \<Rightarrow> u32) \<Rightarrow> bytes \<Rightarrow> (u64 \<times> table_index_entry list \<times> bool \<times> table_block list) db_result" where
  "read_table_index crc bs =
     (let version = take (length TABLE_MAGIC) bs in
      and_then (reject_if (length bs < length TABLE_MAGIC + 16
                  \<or> version \<noteq> TABLE_MAGIC \<and> version \<noteq> TABLE_MAGIC_V2 \<and> version \<noteq> TABLE_MAGIC_V3)
                 (Message ''invalid ThingDB table'')) (\<lambda>_.
      let is_v2 = (version \<noteq> TABLE_MAGIC); is_v3 = (version = TABLE_MAGIC_V3) in
      and_then (read_u64 bs (length TABLE_MAGIC)) (\<lambda>(sequence, cursor).
      and_then (read_u64 bs cursor) (\<lambda>(count, cursor).
      and_then (read_many (read_index_entry crc is_v2 is_v3) (unat count) bs cursor) (\<lambda>(entries, cursor).
      and_then (reject_if (\<not> strictly_ordered (map te_key entries))
                 (Message ''ThingDB table keys are not strictly ordered'')) (\<lambda>_.
      if is_v3
      then and_then (reject_if (subslice bs cursor (cursor + length TABLE_FOOTER_MAGIC) \<noteq> Some TABLE_FOOTER_MAGIC)
                      (Message ''ThingDB table is missing its validated footer'')) (\<lambda>_.
           and_then (validate_table_footer crc bs cursor) (\<lambda>blocks.
           Ok (sequence, entries, is_v2, blocks)))
      else and_then (reject_if (cursor \<noteq> length bs) (Message ''trailing bytes in ThingDB table'')) (\<lambda>_.
           Ok (sequence, entries, is_v2, []))))))))"

definition read_table_metadata ::
    "(bytes \<Rightarrow> u32) \<Rightarrow> bytes \<Rightarrow> (u64 \<times> table_index_entry list \<times> bool \<times> table_block list) db_result" where
  "read_table_metadata crc bs =
     (let version = take (length TABLE_MAGIC) bs in
      and_then (reject_if (length bs < length TABLE_MAGIC + 16
                  \<or> version \<noteq> TABLE_MAGIC \<and> version \<noteq> TABLE_MAGIC_V2 \<and> version \<noteq> TABLE_MAGIC_V3)
                 (Message ''invalid ThingDB table'')) (\<lambda>_.
      and_then (read_u64 bs (length TABLE_MAGIC)) (\<lambda>(sequence, cursor).
      if version \<noteq> TABLE_MAGIC_V3 then read_table_index crc bs
      else and_then (read_table_index crc bs) (\<lambda>(_, _, _, blocks).
           Ok (sequence, [], True, blocks)))))"

section \<open>The layout of a table file\<close>

definition rec_body :: "bytes \<times> bytes option \<Rightarrow> bytes" where
  "rec_body e = enc_bytes (fst e) @ (case snd e of Some v \<Rightarrow> 1 # enc_bytes v | None \<Rightarrow> [2])"

definition enc_rec :: "(bytes \<Rightarrow> u32) \<Rightarrow> bytes \<times> bytes option \<Rightarrow> bytes" where
  "enc_rec crc e = rec_body e @ enc_u32 (crc (rec_body e))"

definition recs :: "(bytes \<Rightarrow> u32) \<Rightarrow> memtable \<Rightarrow> bytes" where
  "recs crc es = concat (map (enc_rec crc) es)"

text \<open>The size of the records of a memtable; every table below is taken to be under \<open>2 ^ 60\<close>.\<close>

definition entry_bytes :: "bytes \<times> bytes option \<Rightarrow> nat" where
  "entry_bytes e = 13 + length (fst e) + (case snd e of Some v \<Rightarrow> 8 + length v | None \<Rightarrow> 0)"

definition table_bytes :: "memtable \<Rightarrow> nat" where
  "table_bytes es = sum_list (map entry_bytes es)"

lemma length_rec_body: "length (rec_body e) + 4 = entry_bytes e"
  by (simp add: rec_body_def entry_bytes_def split: option.split)

lemma length_enc_rec [simp]: "length (enc_rec crc e) = entry_bytes e"
  using length_rec_body [of e] by (simp add: enc_rec_def)

lemma entry_bytes_ge: "13 + length (fst e) \<le> entry_bytes e"
  by (simp add: entry_bytes_def)

lemma length_recs [simp]: "length (recs crc es) = table_bytes es"
  by (simp add: recs_def table_bytes_def length_concat_map o_def)

lemma table_bytes_simps [simp]:
  "table_bytes [] = 0" "table_bytes (e # es) = entry_bytes e + table_bytes es"
  "table_bytes (es @ fs) = table_bytes es + table_bytes fs"
  by (simp_all add: table_bytes_def)

lemma length_es_le: "length es \<le> table_bytes es"
  by (induction es) (simp_all add: entry_bytes_def)

lemma recs_simps [simp]:
  "recs crc [] = []" "recs crc (e # es) = enc_rec crc e @ recs crc es"
  "recs crc (es @ fs) = recs crc es @ recs crc fs"
  by (simp_all add: recs_def)

lemma recs_eq_Nil [simp]: "recs crc es = [] \<longleftrightarrow> es = []"
proof -
  have "table_bytes es = 0 \<longleftrightarrow> es = []"
    by (cases es) (simp_all add: entry_bytes_def)
  then show ?thesis
    by (metis length_0_conv length_recs)
qed

lemma table_bytes_concat: "table_bytes (concat gs) = sum_list (map table_bytes gs)"
  by (induction gs) simp_all

lemma table_record_enc:
  assumes "entry_bytes e \<le> usize_max"
  shows "table_record crc (fst e) (snd e) = Ok (enc_rec crc e)"
proof -
  have "length (fst e) \<le> usize_max" "\<And>v. snd e = Some v \<Longrightarrow> length v \<le> usize_max"
    using assms by (simp_all add: entry_bytes_def split: option.splits)
  then show ?thesis
    by (cases "snd e") (simp_all add: table_record_def writer_enc enc_rec_def rec_body_def)
qed

text \<open>Blocks: the entries of a table in groups, each laid out from its offset.\<close>

definition block_of :: "(bytes \<Rightarrow> u32) \<Rightarrow> nat \<Rightarrow> memtable \<Rightarrow> table_block" where
  "block_of crc off g = \<lparr>tb_offset = off, tb_length = table_bytes g, tb_first_key = fst (hd g),
     tb_last_key = fst (last g), tb_checksum = crc (recs crc g)\<rparr>"

lemma block_of_simps [simp]:
  "tb_offset (block_of crc off g) = off" "tb_length (block_of crc off g) = table_bytes g"
  "tb_first_key (block_of crc off g) = fst (hd g)" "tb_last_key (block_of crc off g) = fst (last g)"
  "tb_checksum (block_of crc off g) = crc (recs crc g)"
  by (simp_all add: block_of_def)

fun layout :: "(bytes \<Rightarrow> u32) \<Rightarrow> nat \<Rightarrow> memtable list \<Rightarrow> table_block list" where
  "layout crc off [] = []"
| "layout crc off (g # gs) = block_of crc off g # layout crc (off + table_bytes g) gs"

fun index_of :: "nat \<Rightarrow> memtable \<Rightarrow> table_index_entry list" where
  "index_of off [] = []"
| "index_of off (e # es) =
     \<lparr>te_key = fst e, te_offset = off, te_length = entry_bytes e\<rparr> # index_of (off + entry_bytes e) es"

lemma layout_append: "layout crc off (gs @ hs) = layout crc off gs @ layout crc (off + table_bytes (concat gs)) hs"
  by (induction gs arbitrary: off) (simp_all add: add.assoc)

lemma length_layout [simp]: "length (layout crc off gs) = length gs"
  by (induction gs arbitrary: off) simp_all

text \<open>How the writer groups the entries: a block is closed when the next record would overflow it.\<close>

fun group_entries :: "memtable \<Rightarrow> memtable list \<Rightarrow> memtable \<Rightarrow> memtable list \<times> memtable" where
  "group_entries [] gs cur = (gs, cur)"
| "group_entries (e # es) gs cur =
     (if table_bytes cur + entry_bytes e > TABLE_WRITE_BUFFER_BYTES \<and> cur \<noteq> []
      then group_entries es (gs @ [cur]) [e] else group_entries es gs (cur @ [e]))"

definition groups :: "memtable \<Rightarrow> memtable list" where
  "groups es = (case group_entries es [] [] of (gs, cur) \<Rightarrow> if cur = [] then gs else gs @ [cur])"

lemma group_entries_concat:
  "group_entries es gs cur = (gs', cur') \<Longrightarrow> concat gs' @ cur' = concat gs @ cur @ es"
  by (induction es gs cur rule: group_entries.induct) (auto split: if_splits)

lemma group_entries_nonempty:
  "group_entries es gs cur = (gs', cur') \<Longrightarrow> [] \<notin> set gs \<Longrightarrow> [] \<notin> set gs'"
  by (induction es gs cur rule: group_entries.induct) (auto split: if_splits)

lemma concat_groups [simp]: "concat (groups es) = es"
  using group_entries_concat [of es "[]" "[]"] by (auto simp: groups_def split: prod.split)

lemma groups_nonempty: "[] \<notin> set (groups es)"
  using group_entries_nonempty [of es "[]" "[]"]
  by (cases "group_entries es [] []") (auto simp: groups_def)

definition enc_block :: "table_block \<Rightarrow> bytes" where
  "enc_block b = enc_u64 (of_nat (tb_offset b)) @ enc_u64 (of_nat (tb_length b)) @
     enc_bytes (tb_first_key b) @ enc_bytes (tb_last_key b) @ enc_u32 (tb_checksum b)"

definition data_start :: nat where
  "data_start = 24"

definition table_header :: "u64 \<Rightarrow> memtable \<Rightarrow> bytes" where
  "table_header sequence es = TABLE_MAGIC_V3 @ enc_u64 sequence @ enc_u64 (of_nat (length es))"

definition footer_body :: "(bytes \<Rightarrow> u32) \<Rightarrow> memtable list \<Rightarrow> bytes" where
  "footer_body crc gs = TABLE_FOOTER_MAGIC @ enc_u64 (of_nat (length gs)) @
     concat (map enc_block (layout crc data_start gs))"

definition enc_table :: "(bytes \<Rightarrow> u32) \<Rightarrow> u64 \<Rightarrow> memtable \<Rightarrow> bytes" where
  "enc_table crc sequence es = table_header sequence es @ recs crc es @
     footer_body crc (groups es) @ enc_u32 (crc (footer_body crc (groups es)))"

lemma length_magics [simp]:
  "length TABLE_MAGIC = 8" "length TABLE_MAGIC_V2 = 8" "length TABLE_MAGIC_V3 = 8"
  "length TABLE_FOOTER_MAGIC = 8"
  by (simp_all add: TABLE_MAGIC_def TABLE_MAGIC_V2_def TABLE_MAGIC_V3_def TABLE_FOOTER_MAGIC_def ascii_def)

lemma length_table_header [simp]: "length (table_header sequence es) = data_start"
  by (simp add: table_header_def data_start_def)

section \<open>The writer produces the layout\<close>

lemma to_be_enc: "n \<le> usize_max \<Longrightarrow> to_be 8 n = enc_u64 (of_nat n)"
  by (simp add: enc_u64_def write_u64_def unat_of_nat_u64)

definition writer_at :: "(bytes \<Rightarrow> u32) \<Rightarrow> bytes \<Rightarrow> memtable list \<Rightarrow> memtable \<Rightarrow> table_writer" where
  "writer_at crc header gs cur = \<lparr>tw_file = header @ recs crc (concat gs), tw_buffer = recs crc cur,
     tw_first_key = (if cur = [] then None else Some (fst (hd cur))),
     tw_last_key = (if cur = [] then None else Some (fst (last cur))),
     tw_offset = data_start + table_bytes (concat gs), tw_blocks = layout crc data_start gs\<rparr>"

lemma push_block_at:
  assumes "cur \<noteq> []"
  shows "push_block crc (writer_at crc header gs cur) =
    Ok ((writer_at crc header (gs @ [cur]) [])\<lparr>tw_offset := data_start + table_bytes (concat gs),
         tw_buffer := recs crc cur\<rparr>)"
  using assms by (simp add: push_block_def writer_at_def layout_append block_of_def)

lemma write_entry_at:
  assumes "data_start + table_bytes (concat gs @ cur @ [e]) \<le> usize_max"
  shows "write_entry crc e (writer_at crc header gs cur) =
    Ok (if table_bytes cur + entry_bytes e > TABLE_WRITE_BUFFER_BYTES \<and> cur \<noteq> []
        then writer_at crc header (gs @ [cur]) [e] else writer_at crc header gs (cur @ [e]))"
proof -
  have "table_record crc (fst e) (snd e) = Ok (enc_rec crc e)"
    using assms by (intro table_record_enc) simp
  then show ?thesis
    using assms push_block_at [of cur crc header gs]
    by (cases "cur = []") (auto simp: write_entry_def writer_at_def)
qed

lemma write_entries_at:
  "data_start + table_bytes (concat gs @ cur @ es) \<le> usize_max \<Longrightarrow>
   write_entries crc es (writer_at crc header gs cur) =
     Ok (case group_entries es gs cur of (gs, cur) \<Rightarrow> writer_at crc header gs cur)"
  by (induction es gs cur rule: group_entries.induct) (simp_all add: write_entry_at)

lemma write_blocks_enc:
  assumes "\<And>b. b \<in> set bs \<Longrightarrow> tb_offset b \<le> usize_max \<and> tb_length b \<le> usize_max
      \<and> length (tb_first_key b) \<le> usize_max \<and> length (tb_last_key b) \<le> usize_max"
  shows "write_blocks bs footer = Ok (footer @ concat (map enc_block bs))"
  using assms
  by (induction bs arbitrary: footer) (simp_all add: writer_enc to_be_enc enc_block_def)

lemma table_bytes_key: "e \<in> set es \<Longrightarrow> length (fst e) \<le> table_bytes es"
  by (induction es) (auto simp: entry_bytes_def)

lemma layout_bounds:
  assumes "b \<in> set (layout crc off gs)" "[] \<notin> set gs"
  shows "off \<le> tb_offset b \<and> tb_offset b + tb_length b \<le> off + table_bytes (concat gs)
      \<and> length (tb_first_key b) \<le> table_bytes (concat gs) \<and> length (tb_last_key b) \<le> table_bytes (concat gs)"
  using assms
proof (induction gs arbitrary: off)
  case (Cons g gs)
  have "g \<noteq> []" using Cons.prems by auto
  then have "length (fst (hd g)) \<le> table_bytes g" "length (fst (last g)) \<le> table_bytes g"
    by (simp_all add: table_bytes_key)
  then show ?case
    using Cons by (fastforce simp: block_of_def)
qed simp

lemma length_nonempty_groups: "[] \<notin> set gs \<Longrightarrow> length gs \<le> table_bytes (concat gs)"
proof (induction gs)
  case (Cons g gs)
  then obtain e es where "g = e # es"
    by (cases g) auto
  then show ?case
    using Cons by (simp add: entry_bytes_def)
qed simp

lemma write_table_enc:
  assumes "data_start + table_bytes es \<le> usize_max"
  shows "write_table_at crc sequence es =
    Ok (enc_table crc sequence es, data_start + table_bytes es, data_start + table_bytes es)"
proof -
  have n: "length es \<le> table_bytes es"
    by (rule length_es_le)
  obtain gs cur where g: "group_entries es [] [] = (gs, cur)"
    by (cases "group_entries es [] []")
  have es: "concat gs @ cur = es"
    using group_entries_concat [OF g] by simp
  have gr: "groups es = (if cur = [] then gs else gs @ [cur])"
    by (simp add: groups_def g)
  have start: "\<lparr>tw_file = TABLE_MAGIC_V3 @ to_be 8 (unat sequence) @ to_be 8 (length es), tw_buffer = [],
        tw_first_key = None, tw_last_key = None, tw_offset = length TABLE_MAGIC_V3 + 16,
        tw_blocks = []\<rparr> = writer_at crc (table_header sequence es) [] []"
    using n assms by (simp add: writer_at_def table_header_def to_be_enc data_start_def)
  have entries: "write_entries crc es (writer_at crc (table_header sequence es) [] []) =
      Ok (writer_at crc (table_header sequence es) gs cur)"
    using write_entries_at [of "[]" "[]" es crc "table_header sequence es"] assms g by simp
  have total: "table_bytes (concat gs) + table_bytes cur = table_bytes es"
    unfolding es [symmetric] by simp
  have blocks: "write_blocks (layout crc data_start (groups es)) footer =
      Ok (footer @ concat (map enc_block (layout crc data_start (groups es))))" for footer
    using assms by (intro write_blocks_enc) (drule layout_bounds [OF _ groups_nonempty], simp)
  have ng: "length (groups es) \<le> usize_max"
    using length_nonempty_groups [OF groups_nonempty, of es] assms by simp
  have last: "(if tw_buffer (writer_at crc (table_header sequence es) gs cur) \<noteq> []
       then push_block crc (writer_at crc (table_header sequence es) gs cur)
       else Ok (writer_at crc (table_header sequence es) gs cur)) =
    Ok \<lparr>tw_file = table_header sequence es @ recs crc es, tw_buffer = recs crc cur, tw_first_key = None,
        tw_last_key = None, tw_offset = data_start + table_bytes (concat gs),
        tw_blocks = layout crc data_start (groups es)\<rparr>"
    using push_block_at [of cur crc "table_header sequence es" gs] es
    by (cases "cur = []") (auto simp: writer_at_def gr)
  show ?thesis
    unfolding write_table_at_def start using n assms total ng
    by (simp add: entries last blocks Let_def to_be_enc writer_enc enc_table_def footer_body_def)
qed

section \<open>The reader accepts the layout\<close>

text \<open>A key length below \<open>2 ^ 60\<close> never looks like the footer magic.\<close>

lemma key_length_not_magic:
  assumes "n < 2 ^ 60"
  shows "enc_u64 (of_nat n) \<noteq> TABLE_FOOTER_MAGIC"
proof
  assume "enc_u64 (of_nat n) = TABLE_FOOTER_MAGIC"
  moreover have "from_be (enc_u64 (of_nat n)) = n"
    using assms by (simp add: enc_u64_def write_u64_def from_be_to_be unat_of_nat_u64 usize_max_def)
  moreover have "from_be TABLE_FOOTER_MAGIC = 6072051067432087601"
    by (simp add: TABLE_FOOTER_MAGIC_def ascii_def from_be_def of_char_def)
  ultimately show False
    using assms by simp
qed

lemma subslice_record_start:
  "subslice (pre @ enc_rec crc e @ post) (length pre) (length pre + 8) = Some (enc_u64 (of_nat (length (fst e))))"
proof -
  define tail where "tail = fst e @ (case snd e of Some v \<Rightarrow> 1 # enc_bytes v | None \<Rightarrow> [2]) @
    enc_u32 (crc (rec_body e)) @ post"
  have "pre @ enc_rec crc e @ post = pre @ enc_u64 (of_nat (length (fst e))) @ tail"
    by (simp add: enc_rec_def tail_def) (simp add: rec_body_def enc_bytes_split)
  then show ?thesis
    using subslice_append [of pre "enc_u64 (of_nat (length (fst e)))" tail] by simp
qed

lemma read_rec_key:
  assumes "length pre + entry_bytes e \<le> usize_max"
  shows "read_bytes (pre @ enc_rec crc e @ post) (length pre) = Ok (fst e, length pre + 8 + length (fst e))"
  using bytesc.dec_enc [of pre "fst e" "(case snd e of Some v \<Rightarrow> 1 # enc_bytes v | None \<Rightarrow> [2]) @
      enc_u32 (crc (rec_body e)) @ post"] assms entry_bytes_ge [of e]
  by (simp add: enc_rec_def) (simp add: rec_body_def)

text \<open>The operation byte and the value that follow the key.\<close>

definition read_rec_value :: "bytes \<Rightarrow> nat \<Rightarrow> (bytes option \<times> nat) db_result" where
  "read_rec_value bs cursor =
     and_then (read_byte bs cursor) (\<lambda>(kind, cursor).
       if kind = 1 then and_then (read_bytes bs cursor) (\<lambda>(v, cursor). Ok (Some v, cursor))
       else if kind = 2 then Ok (None, cursor)
       else Err (Message ''invalid ThingDB table operation''))"

lemma read_rec_value_enc:
  assumes "length pre + entry_bytes e \<le> usize_max"
  shows "read_rec_value (pre @ enc_rec crc e @ post) (length pre + 8 + length (fst e)) =
    Ok (snd e, length pre + length (rec_body e))"
proof (cases "snd e")
  case None
  then have "pre @ enc_rec crc e @ post = (pre @ enc_bytes (fst e)) @ 2 # enc_u32 (crc (rec_body e)) @ post"
    by (simp add: enc_rec_def) (simp add: rec_body_def)
  then have "read_byte (pre @ enc_rec crc e @ post) (length pre + 8 + length (fst e)) =
      Ok (2, length pre + 8 + length (fst e) + 1)"
    using read_byte_append [of "pre @ enc_bytes (fst e)" 2] by (simp add: add.assoc)
  then show ?thesis
    using None by (simp add: read_rec_value_def rec_body_def)
next
  case (Some v)
  define tail where "tail = enc_u32 (crc (rec_body e)) @ post"
  have eq: "pre @ enc_rec crc e @ post = (pre @ enc_bytes (fst e)) @ 1 # enc_bytes v @ tail"
    using Some by (simp add: enc_rec_def tail_def) (simp add: rec_body_def)
  have "read_byte (pre @ enc_rec crc e @ post) (length pre + 8 + length (fst e)) =
      Ok (1, length pre + 8 + length (fst e) + 1)"
    unfolding eq using read_byte_append [of "pre @ enc_bytes (fst e)" 1] by (simp add: add.assoc)
  moreover have "read_bytes (pre @ enc_rec crc e @ post) (length pre + 8 + length (fst e) + 1) =
      Ok (v, length pre + length (rec_body e))"
    unfolding eq using bytesc.dec_enc [of "pre @ enc_bytes (fst e) @ [1]" v tail] assms Some
    by (simp add: add_ac rec_body_def entry_bytes_def)
  ultimately show ?thesis
    using Some by (simp add: read_rec_value_def)
qed

lemma read_rec_crc:
  assumes "length pre + entry_bytes e \<le> usize_max"
  shows "read_u32 (pre @ enc_rec crc e @ post) (length pre + length (rec_body e)) =
    Ok (crc (rec_body e), length pre + entry_bytes e)"
  using u32c.dec_enc [of "pre @ rec_body e" "crc (rec_body e)" post] assms length_rec_body [of e]
  by (simp add: enc_rec_def add.assoc)

lemma take_rec_body:
  "take (length (rec_body e)) (enc_rec crc e) = rec_body e" "length (rec_body e) - entry_bytes e = 0"
  using length_rec_body [of e] by (simp_all add: enc_rec_def)

lemma read_index_entry_enc:
  assumes "length pre + entry_bytes e \<le> usize_max" "entry_bytes e < 2 ^ 60"
  shows "read_index_entry crc True True (pre @ enc_rec crc e @ post) (length pre) =
    Ok (\<lparr>te_key = fst e, te_offset = length pre, te_length = entry_bytes e\<rparr>, length pre + entry_bytes e)"
proof -
  have "enc_u64 (of_nat (length (fst e))) \<noteq> TABLE_FOOTER_MAGIC"
    using entry_bytes_ge [of e] assms(2) by (intro key_length_not_magic) simp
  then show ?thesis
    using read_rec_key [OF assms(1)] read_rec_value_enc [OF assms(1)] read_rec_crc [OF assms(1)]
    by (simp add: read_index_entry_def Let_def subslice_record_start take_rec_body
        read_rec_value_def [symmetric])
qed

lemma read_index_enc:
  assumes "length pre + table_bytes es \<le> usize_max" "table_bytes es < 2 ^ 60"
  shows "read_many (read_index_entry crc True True) (length es) (pre @ recs crc es @ post) (length pre) =
    Ok (index_of (length pre) es, length pre + table_bytes es)"
  using assms
proof (induction es arbitrary: pre)
  case (Cons e es)
  have "read_many (read_index_entry crc True True) (length es) ((pre @ enc_rec crc e) @ recs crc es @ post)
      (length (pre @ enc_rec crc e)) =
    Ok (index_of (length (pre @ enc_rec crc e)) es, length (pre @ enc_rec crc e) + table_bytes es)"
    by (rule Cons.IH) (use Cons.prems in simp_all)
  moreover have "read_index_entry crc True True (pre @ enc_rec crc e @ recs crc es @ post) (length pre) =
    Ok (\<lparr>te_key = fst e, te_offset = length pre, te_length = entry_bytes e\<rparr>, length pre + entry_bytes e)"
    by (rule read_index_entry_enc) (use Cons.prems in simp_all)
  ultimately show ?case
    by (simp add: add.assoc)
qed simp

lemma length_enc_block [simp]: "length (enc_block b) = 36 + length (tb_first_key b) + length (tb_last_key b)"
  by (simp add: enc_block_def)

lemma read_block_fields:
  fixes pre post :: bytes
  assumes "length pre + length (enc_block b) \<le> usize_max"
  defines "bs \<equiv> pre @ enc_block b @ post"
  shows "read_u64 bs (length pre) = Ok (of_nat (tb_offset b), length pre + 8)"
    "read_u64 bs (length pre + 8) = Ok (of_nat (tb_length b), length pre + 16)"
    "read_bytes bs (length pre + 16) = Ok (tb_first_key b, length pre + 24 + length (tb_first_key b))"
    "read_bytes bs (length pre + 24 + length (tb_first_key b)) =
      Ok (tb_last_key b, length pre + 32 + length (tb_first_key b) + length (tb_last_key b))"
    "read_u32 bs (length pre + 32 + length (tb_first_key b) + length (tb_last_key b)) =
      Ok (tb_checksum b, length pre + length (enc_block b))"
proof -
  note a = u64c.dec_enc [of pre "of_nat (tb_offset b)"]
    and b = u64c.dec_enc [of "pre @ enc_u64 (of_nat (tb_offset b))" "of_nat (tb_length b)"]
    and c = bytesc.dec_enc [of "pre @ enc_u64 (of_nat (tb_offset b)) @ enc_u64 (of_nat (tb_length b))" "tb_first_key b"]
    and d = bytesc.dec_enc [of "pre @ enc_u64 (of_nat (tb_offset b)) @ enc_u64 (of_nat (tb_length b)) @
      enc_bytes (tb_first_key b)" "tb_last_key b"]
    and e = u32c.dec_enc [of "pre @ enc_u64 (of_nat (tb_offset b)) @ enc_u64 (of_nat (tb_length b)) @
      enc_bytes (tb_first_key b) @ enc_bytes (tb_last_key b)" "tb_checksum b"]
  show "read_u64 bs (length pre) = Ok (of_nat (tb_offset b), length pre + 8)"
    using a assms by (simp add: enc_block_def)
  show "read_u64 bs (length pre + 8) = Ok (of_nat (tb_length b), length pre + 16)"
    using b assms by (simp add: enc_block_def)
  show "read_bytes bs (length pre + 16) = Ok (tb_first_key b, length pre + 24 + length (tb_first_key b))"
    using c assms by (simp add: enc_block_def)
  show "read_bytes bs (length pre + 24 + length (tb_first_key b)) =
      Ok (tb_last_key b, length pre + 32 + length (tb_first_key b) + length (tb_last_key b))"
    using d assms by (simp add: enc_block_def add_ac)
  show "read_u32 bs (length pre + 32 + length (tb_first_key b) + length (tb_last_key b)) =
      Ok (tb_checksum b, length pre + length (enc_block b))"
    using e assms by (simp add: enc_block_def add_ac)
qed

text \<open>Where the data of the groups is in the file.\<close>

definition holds_data :: "(bytes \<Rightarrow> u32) \<Rightarrow> bytes \<Rightarrow> nat \<Rightarrow> memtable \<Rightarrow> bool" where
  "holds_data crc bs off es \<longleftrightarrow> subslice bs off (off + table_bytes es) = Some (recs crc es)"

lemma holds_data_append:
  assumes "holds_data crc bs off (es @ fs)"
  shows "holds_data crc bs off es" "holds_data crc bs (off + table_bytes es) fs"
proof -
  have len: "off + table_bytes es + table_bytes fs \<le> length bs"
    and d: "take (table_bytes es + table_bytes fs) (drop off bs) = recs crc es @ recs crc fs"
    using assms by (auto simp: holds_data_def subslice_def add.assoc split: if_splits)
  have "take (table_bytes es) (drop off bs) = take (table_bytes es) (take (table_bytes es + table_bytes fs) (drop off bs))"
    by simp
  then show "holds_data crc bs off es"
    using len unfolding d by (simp add: holds_data_def subslice_def)
  have "take (table_bytes fs) (drop (off + table_bytes es) bs) =
      drop (table_bytes es) (take (table_bytes es + table_bytes fs) (drop off bs))"
    by (simp add: take_drop add_ac)
  then show "holds_data crc bs (off + table_bytes es) fs"
    using len unfolding d by (simp add: holds_data_def subslice_def)
qed

lemma bm_ok_hd_last: "bm_ok g \<Longrightarrow> g \<noteq> [] \<Longrightarrow> fst (hd g) \<le> fst (last g)"
  by (cases g) (auto simp: less_imp_le)

lemma validate_blocks_enc:
  assumes "bm_ok (concat gs)" "[] \<notin> set gs" "holds_data crc bs off (concat gs)"
    "bs = pre @ concat (map enc_block (layout crc off gs)) @ post" "length bs \<le> usize_max"
    "data_start \<le> off" "footer_start = off + table_bytes (concat gs)"
    "case po of None \<Rightarrow> True | Some p \<Rightarrow> p < off" "case pe of None \<Rightarrow> True | Some p \<Rightarrow> p = off"
  shows "validate_blocks crc footer_start bs (length gs) po pe (length pre) =
    Ok (layout crc off gs, if gs = [] then pe else Some footer_start,
        length pre + length (concat (map enc_block (layout crc off gs))))"
  using assms
proof (induction gs arbitrary: off pre po pe)
  case (Cons g gs)
  let ?b = "block_of crc off g"
  have g: "g \<noteq> []" "bm_ok g" "bm_ok (concat gs)" "[] \<notin> set gs"
    using Cons.prems(1,2) by (auto simp: bm_ok_append)
  have data: "holds_data crc bs off g" "holds_data crc bs (off + table_bytes g) (concat gs)"
    using Cons.prems(3) holds_data_append by (auto simp: holds_data_append)
  have bs: "bs = pre @ enc_block ?b @ (concat (map enc_block (layout crc (off + table_bytes g) gs)) @ post)"
    using Cons.prems(4) by simp
  have fit: "length pre + length (enc_block ?b) \<le> usize_max"
    using Cons.prems(5) unfolding bs by simp
  note fields = read_block_fields [OF fit,
    of "concat (map enc_block (layout crc (off + table_bytes g) gs)) @ post", folded bs, simplified add.assoc block_of_simps length_enc_block]
  have off: "off + table_bytes g \<le> length bs" "take (table_bytes g) (drop off bs) = recs crc g"
    using data(1) by (auto simp: holds_data_def subslice_def split: if_splits)
  have "table_bytes g > 0"
    using g(1) by (cases g) (simp_all add: entry_bytes_def)
  then have IH: "validate_blocks crc footer_start bs (length gs) (Some off) (Some (off + table_bytes g))
      (length (pre @ enc_block ?b)) =
    Ok (layout crc (off + table_bytes g) gs, Some footer_start,
      length (pre @ enc_block ?b) + length (concat (map enc_block (layout crc (off + table_bytes g) gs))))"
    using Cons.prems g data bs by (subst Cons.IH [where po = "Some off"]) auto
  have words: "unat (of_nat off :: u64) = off" "unat (of_nat (table_bytes g) :: u64) = table_bytes g"
    using off(1) Cons.prems(5) by (simp_all add: unat_of_nat_u64)
  have range: "checked_add off (table_bytes g) = Some (off + table_bytes g)"
    using off(1) Cons.prems(5) by simp
  show ?case
    using IH Cons.prems(6-9) leD [OF bm_ok_hd_last [OF g(2,1)]]
    by (cases po; cases pe) (simp_all add: fields words off Let_def range data_start_def
        block_of_def add.assoc del: checked_add_Some)
qed simp

lemma length_blocks_le:
  "[] \<notin> set gs \<Longrightarrow> length (concat (map enc_block (layout crc off gs))) \<le> 5 * table_bytes (concat gs)"
proof (induction gs arbitrary: off)
  case (Cons g gs)
  then have "g \<noteq> []" by auto
  then have "13 + length (fst (hd g)) \<le> table_bytes g"
    by (cases g) (simp_all add: entry_bytes_def)
  moreover have "length (fst (last g)) \<le> table_bytes g"
    using \<open>g \<noteq> []\<close> by (simp add: table_bytes_key)
  moreover have "length (concat (map enc_block (layout crc (off + table_bytes g) gs))) \<le> 5 * table_bytes (concat gs)"
    using Cons by simp
  ultimately show ?case by simp
qed simp

lemma length_enc_table:
  assumes "table_bytes es < 2 ^ 60"
  shows "length (enc_table crc sequence es) \<le> usize_max"
proof -
  have "length (concat (map enc_block (layout crc data_start (groups es)))) \<le> 5 * table_bytes es"
    using length_blocks_le [OF groups_nonempty, of crc data_start es] by simp
  then show ?thesis
    using assms by (simp add: enc_table_def footer_body_def data_start_def usize_max_def)
qed

lemma strictly_ordered_sorted: "strictly_ordered ks \<longleftrightarrow> sorted_wrt (<) ks"
  by (induction ks rule: strictly_ordered.induct) (auto intro: less_trans)

lemma te_key_index [simp]: "map te_key (index_of off es) = map fst es"
  by (induction es arbitrary: off) simp_all

lemma subslice_at: "bs = pre @ mid @ post \<Longrightarrow> a = length pre \<Longrightarrow> b = a + length mid \<Longrightarrow> subslice bs a b = Some mid"
  using subslice_append [of pre mid post] by simp

lemma validate_footer_enc:
  assumes "bm_ok es" "table_bytes es < 2 ^ 60"
  shows "validate_table_footer crc (enc_table crc sequence es) (data_start + table_bytes es) =
    Ok (layout crc data_start (groups es))"
proof -
  define bs where "bs = enc_table crc sequence es"
  define fs where "fs = data_start + table_bytes es"
  define blocks where "blocks = concat (map enc_block (layout crc data_start (groups es)))"
  define pre where "pre = table_header sequence es @ recs crc es"
  have len: "length bs \<le> usize_max"
    using length_enc_table [OF assms(2)] by (simp add: bs_def)
  have lpre: "length pre = fs"
    by (simp add: pre_def fs_def)
  have bs: "bs = pre @ TABLE_FOOTER_MAGIC @ enc_u64 (of_nat (length (groups es))) @ blocks @
      enc_u32 (crc (footer_body crc (groups es)))"
    by (simp add: bs_def enc_table_def pre_def blocks_def footer_body_def)
  have magic: "subslice bs fs (fs + 8) = Some TABLE_FOOTER_MAGIC"
    by (rule subslice_at [OF bs]) (simp_all add: lpre)
  have lens: "fs + 16 + length blocks + 4 \<le> usize_max"
    using len unfolding bs by (simp add: lpre)
  have ng: "length (groups es) \<le> usize_max"
    using length_nonempty_groups [OF groups_nonempty, of es] lens by (simp add: fs_def)
  have count: "read_u64 bs (fs + 8) = Ok (of_nat (length (groups es)), fs + 16)"
    using u64c.dec_enc [of "pre @ TABLE_FOOTER_MAGIC" "of_nat (length (groups es))"] lens
    by (simp add: bs lpre)
  have data: "holds_data crc bs data_start (concat (groups es))"
    unfolding holds_data_def
    by (rule subslice_at [of _ "table_header sequence es"])
      (simp_all add: bs_def enc_table_def)
  have valid: "validate_blocks crc fs bs (length (groups es)) None None (fs + 16) =
      Ok (layout crc data_start (groups es), if groups es = [] then None else Some fs, fs + 16 + length blocks)"
    using validate_blocks_enc [of "groups es" crc bs data_start
        "pre @ TABLE_FOOTER_MAGIC @ enc_u64 (of_nat (length (groups es)))"
        "enc_u32 (crc (footer_body crc (groups es)))" fs None None]
      assms(1) groups_nonempty data len
    by (simp add: bs blocks_def [symmetric] lpre) (simp add: fs_def blocks_def split: if_splits)
  have stored: "read_u32 bs (fs + 16 + length blocks) = Ok (crc (footer_body crc (groups es)), length bs)"
    using u32c.dec_enc_tail [of "pre @ TABLE_FOOTER_MAGIC @ enc_u64 (of_nat (length (groups es))) @ blocks"
        "crc (footer_body crc (groups es))"] lens
    by (simp add: bs lpre add.assoc)
  have body: "take (length bs - (4 + fs)) (drop fs bs) = footer_body crc (groups es)"
    by (simp add: bs lpre [symmetric] footer_body_def blocks_def)
  have "validate_table_footer crc bs fs = Ok (layout crc data_start (groups es))"
    by (auto simp: validate_table_footer_def magic count unat_of_nat_u64 ng valid stored body)
  then show ?thesis
    by (simp add: bs_def fs_def)
qed

lemma read_table_index_enc:
  assumes "bm_ok es" "table_bytes es < 2 ^ 60"
  shows "read_table_index crc (enc_table crc sequence es) =
    Ok (sequence, index_of data_start es, True, layout crc data_start (groups es))"
proof -
  define bs where "bs = enc_table crc sequence es"
  define footer where "footer = footer_body crc (groups es) @ enc_u32 (crc (footer_body crc (groups es)))"
  have len: "length bs \<le> usize_max"
    using length_enc_table [OF assms(2)] by (simp add: bs_def)
  have bs: "bs = TABLE_MAGIC_V3 @ enc_u64 sequence @ enc_u64 (of_nat (length es)) @ recs crc es @ footer"
    by (simp add: bs_def enc_table_def table_header_def footer_def)
  have fit: "24 + table_bytes es \<le> usize_max"
    using len unfolding bs by simp
  have n: "length es \<le> usize_max"
    using fit length_es_le [of es] by simp
  have version: "take 8 bs = TABLE_MAGIC_V3"
    by (simp add: bs)
  have distinct: "TABLE_MAGIC_V3 \<noteq> TABLE_MAGIC"
    by (simp add: TABLE_MAGIC_V3_def TABLE_MAGIC_def ascii_def of_char_def)
  have seq: "read_u64 bs 8 = Ok (sequence, 16)"
    using u64c.dec_enc [of TABLE_MAGIC_V3 sequence] fit by (simp add: bs)
  have count: "read_u64 bs 16 = Ok (of_nat (length es), 24)"
    using u64c.dec_enc [of "TABLE_MAGIC_V3 @ enc_u64 sequence" "of_nat (length es)"] fit by (simp add: bs)
  have index: "read_many (read_index_entry crc True True) (length es) bs 24 =
      Ok (index_of data_start es, 24 + table_bytes es)"
    using read_index_enc [of "TABLE_MAGIC_V3 @ enc_u64 sequence @ enc_u64 (of_nat (length es))" es crc footer]
      fit assms(2) by (simp add: bs data_start_def)
  have magic: "subslice bs (24 + table_bytes es) (32 + table_bytes es) = Some TABLE_FOOTER_MAGIC"
    by (rule subslice_at [of _ "TABLE_MAGIC_V3 @ enc_u64 sequence @ enc_u64 (of_nat (length es)) @ recs crc es"])
      (simp_all add: bs footer_def footer_body_def)
  have foot: "validate_table_footer crc bs (24 + table_bytes es) = Ok (layout crc data_start (groups es))"
    using validate_footer_enc [OF assms, of crc sequence] by (simp add: bs_def data_start_def)
  have ordered: "strictly_ordered (map te_key (index_of data_start es))"
    using assms(1) by (simp add: strictly_ordered_sorted bm_ok_def)
  have size: "\<not> length bs < 24"
    by (simp add: bs)
  show ?thesis
    unfolding bs_def [symmetric]
    using size ordered by (simp add: read_table_index_def version distinct seq count unat_of_nat_u64 n
        index magic foot Let_def)
qed

end
