(* ===== verification/Table_Read.thy ===== *)
theory Table_Read
  imports Table
begin

text \<open>
  Point reads and block scans of an open table (\<open>TableLayer\<close> of
  \<open>crates/thingdb/src/lib.rs\<close>): the candidate block of a key, the index entries of the block,
  the record read through the block cache and checked against its checksum. The result that the
  rest of the engine builds on: in a layer written by \<open>write_table\<close> a lookup returns exactly
  what the written memtable holds for the key, with any coherent block cache.
\<close>

record table_layer =
  tl_path :: string
  tl_file :: bytes
  tl_entries :: "table_index_entry list option"
  tl_blocks :: "table_block list"
  tl_is_v2 :: bool

type_synonym cache_key = "string \<times> nat"
type_synonym table_cache = "cache_key block_cache"

definition loaded_entries :: "(bytes \<Rightarrow> u32) \<Rightarrow> table_layer \<Rightarrow> table_index_entry list db_result" where
  "loaded_entries crc layer =
     (case tl_entries layer of
        Some entries \<Rightarrow> Ok entries
      | None \<Rightarrow> and_then (read_table_index crc (tl_file layer)) (\<lambda>(_, entries, _, _). Ok entries))"

text \<open>How \<open>open_locked\<close>, a flush and a compaction build the layer of a table file.\<close>

definition open_layer :: "(bytes \<Rightarrow> u32) \<Rightarrow> string \<Rightarrow> bytes \<Rightarrow> (u64 \<times> table_layer) db_result" where
  "open_layer crc path file =
     and_then (read_table_metadata crc file) (\<lambda>(sequence, entries, is_v2, blocks).
     Ok (sequence, \<lparr>tl_path = path, tl_file = file,
          tl_entries = (if blocks = [] then Some entries else None), tl_blocks = blocks, tl_is_v2 = is_v2\<rparr>))"

text \<open>\<open>slice::partition_point\<close> and \<open>binary_search_by\<close> on a slice sorted by key.\<close>

definition partition_point :: "('a \<Rightarrow> bool) \<Rightarrow> 'a list \<Rightarrow> nat" where
  "partition_point P xs = length (takeWhile P xs)"

definition binary_search_key :: "bytes \<Rightarrow> table_index_entry list \<Rightarrow> nat option" where
  "binary_search_key key entries =
     (let i = partition_point (\<lambda>e. te_key e < key) entries
      in if i < length entries \<and> te_key (entries ! i) = key then Some i else None)"

definition candidate_entry_range :: "table_layer \<Rightarrow> table_index_entry list \<Rightarrow> bytes \<Rightarrow> nat \<times> nat" where
  "candidate_entry_range layer entries key =
     (if tl_blocks layer = [] then (0, length entries)
      else
        let block_index = partition_point (\<lambda>b. tb_last_key b < key) (tl_blocks layer) in
        if block_index \<ge> length (tl_blocks layer) then (0, 0)
        else
          let block = tl_blocks layer ! block_index in
          if tb_first_key block > key then (0, 0)
          else
            let end = sat_add (tb_offset block) (tb_length block);
                start_index = partition_point (\<lambda>e. te_offset e < tb_offset block) entries;
                end_index = partition_point (\<lambda>e. te_offset e < end) entries
            in (start_index, end_index))"

definition candidate_block :: "table_layer \<Rightarrow> bytes \<Rightarrow> table_block option" where
  "candidate_block layer key =
     (if tl_blocks layer = [] then None
      else
        let index = partition_point (\<lambda>b. tb_last_key b < key) (tl_blocks layer) in
        if index < length (tl_blocks layer)
           \<and> tb_first_key (tl_blocks layer ! index) \<le> key \<and> key \<le> tb_last_key (tl_blocks layer ! index)
        then Some (tl_blocks layer ! index) else None)"

text \<open>\<open>FileExt::read_exact_at\<close>\<close>

definition read_exact_at :: "bytes \<Rightarrow> nat \<Rightarrow> nat \<Rightarrow> bytes db_result" where
  "read_exact_at file offset len =
     ok_or (Message ''failed to fill whole buffer'') (subslice file offset (offset + len))"

definition read_cached_table_block ::
    "(bytes \<Rightarrow> u32) \<Rightarrow> table_layer \<Rightarrow> table_block \<Rightarrow> table_cache \<Rightarrow> bytes db_result \<times> table_cache" where
  "read_cached_table_block crc layer block cache =
     (let cache_key = (tl_path layer, tb_offset block);
          (hit, cache) = bc_get cache_key cache
      in case hit of
           Some bs \<Rightarrow> (Ok bs, cache)
         | None \<Rightarrow>
             (case read_exact_at (tl_file layer) (tb_offset block) (tb_length block) of
                Inl e \<Rightarrow> (Err e, cache)
              | Inr bs \<Rightarrow>
                  if crc bs \<noteq> tb_checksum block
                  then (Err (Message ''ThingDB table block checksum mismatch''), cache)
                  else (Ok bs, bc_insert cache_key bs cache)))"

definition decode_table_value :: "(bytes \<Rightarrow> u32) \<Rightarrow> bytes \<Rightarrow> table_index_entry \<Rightarrow> bool \<Rightarrow> bytes option db_result" where
  "decode_table_value crc bs entry is_v2 =
     and_then (read_bytes bs 0) (\<lambda>(key, cursor).
     and_then (reject_if (key \<noteq> te_key entry) (Message ''ThingDB table index key mismatch'')) (\<lambda>_.
     and_then (if \<not> is_v2 then and_then (read_bytes bs cursor) (\<lambda>(v, cursor). Ok (Some v, cursor))
               else if subslice bs cursor (cursor + 1) = Some [1]
               then and_then (read_bytes bs (cursor + 1)) (\<lambda>(v, cursor). Ok (Some v, cursor))
               else if subslice bs cursor (cursor + 1) = Some [2] then Ok (None, cursor + 1)
               else Err (Message ''invalid ThingDB table operation'')) (\<lambda>(value, cursor).
     let checksum_offset = cursor in
     and_then (read_u32 bs cursor) (\<lambda>(stored, cursor).
     and_then (reject_if (stored \<noteq> crc (take checksum_offset bs)) (Message ''ThingDB table checksum mismatch'')) (\<lambda>_.
     and_then (reject_if (cursor \<noteq> length bs) (Message ''trailing bytes in ThingDB table record'')) (\<lambda>_.
     Ok value))))))"

definition read_table_value_handle ::
    "(bytes \<Rightarrow> u32) \<Rightarrow> bytes \<Rightarrow> table_index_entry \<Rightarrow> bool \<Rightarrow> bytes option db_result" where
  "read_table_value_handle crc file entry is_v2 =
     and_then (read_exact_at file (te_offset entry) (te_length entry)) (\<lambda>bs.
     decode_table_value crc bs entry is_v2)"

text \<open>The part of \<open>read_table_block_entry_value\<close> after the block is there.\<close>

definition block_entry_value ::
    "(bytes \<Rightarrow> u32) \<Rightarrow> table_block \<Rightarrow> table_index_entry \<Rightarrow> bytes \<Rightarrow> bytes option db_result" where
  "block_entry_value crc block entry bs =
     and_then (reject_if (te_offset entry < tb_offset block) (Message ''ThingDB table index precedes its block'')) (\<lambda>_.
     let offset = te_offset entry - tb_offset block in
     and_then (ok_or (Message ''ThingDB table record range overflow'') (checked_add offset (te_length entry))) (\<lambda>end.
     and_then (ok_or (Message ''ThingDB table index record is outside its block'') (subslice bs offset end)) (\<lambda>record.
     and_then (read_bytes record 0) (\<lambda>(key, cursor).
     and_then (reject_if (key \<noteq> te_key entry) (Message ''ThingDB table index key mismatch'')) (\<lambda>_.
     and_then (and_then (read_byte record cursor) (\<lambda>(kind, cursor).
                 if kind = 1 then and_then (read_bytes record cursor) (\<lambda>(v, cursor). Ok (Some v, cursor))
                 else if kind = 2 then Ok (None, cursor)
                 else Err (Message ''invalid ThingDB table operation''))) (\<lambda>(value, cursor).
     let checksum_end = cursor in
     and_then (read_u32 record cursor) (\<lambda>(stored, cursor).
     and_then (reject_if (stored \<noteq> crc (take checksum_end record)) (Message ''ThingDB table checksum mismatch'')) (\<lambda>_.
     and_then (reject_if (cursor \<noteq> length record) (Message ''trailing bytes in ThingDB table record'')) (\<lambda>_.
     Ok value)))))))))"

definition read_table_block_entry_value ::
    "(bytes \<Rightarrow> u32) \<Rightarrow> table_layer \<Rightarrow> table_block \<Rightarrow> table_index_entry \<Rightarrow> table_cache
      \<Rightarrow> bytes option option db_result \<times> table_cache" where
  "read_table_block_entry_value crc layer block entry cache =
     (case read_cached_table_block crc layer block cache of
        (Inl e, cache) \<Rightarrow> (Err e, cache)
      | (Inr bs, cache) \<Rightarrow> (and_then (block_entry_value crc block entry bs) (\<lambda>v. Ok (Some v)), cache))"

text \<open>
  One iteration of the loop over the layers in \<open>get_durable_value\<close> and
  \<open>get_many_durable_values\<close>: \<open>None\<close> goes on to the next older layer.
\<close>

definition lookup_layer ::
    "(bytes \<Rightarrow> u32) \<Rightarrow> table_layer \<Rightarrow> bytes \<Rightarrow> table_cache \<Rightarrow> bytes option option db_result \<times> table_cache" where
  "lookup_layer crc layer key cache =
     (case loaded_entries crc layer of
        Inl e \<Rightarrow> (Err e, cache)
      | Inr entries \<Rightarrow>
          let (start, end) = candidate_entry_range layer entries key in
          case binary_search_key key (take (end - start) (drop start entries)) of
            None \<Rightarrow> (Ok None, cache)
          | Some relative_index \<Rightarrow>
              let entry = entries ! (start + relative_index) in
              case candidate_block layer key of
                Some block \<Rightarrow> read_table_block_entry_value crc layer block entry cache
              | None \<Rightarrow>
                  (and_then (read_table_value_handle crc (tl_file layer) entry (tl_is_v2 layer)) (\<lambda>v. Ok (Some v)),
                   cache))"

fun lookup_layers ::
    "(bytes \<Rightarrow> u32) \<Rightarrow> table_layer list \<Rightarrow> bytes \<Rightarrow> table_cache \<Rightarrow> bytes option db_result \<times> table_cache" where
  "lookup_layers crc [] key cache = (Ok None, cache)"
| "lookup_layers crc (layer # older) key cache =
     (case lookup_layer crc layer key cache of
        (Inl e, cache) \<Rightarrow> (Err e, cache)
      | (Inr (Some value), cache) \<Rightarrow> (Ok value, cache)
      | (Inr None, cache) \<Rightarrow> lookup_layers crc older key cache)"

section \<open>Scanning a block\<close>

definition read_scan_record ::
    "(bytes \<Rightarrow> u32) \<Rightarrow> bool \<Rightarrow> bytes \<Rightarrow> nat \<Rightarrow> (table_scan_record \<times> nat) db_result" where
  "read_scan_record crc include_values bs cursor =
     (let record_start = cursor in
      and_then (read_bytes bs cursor) (\<lambda>(key, cursor).
      and_then (and_then (read_byte bs cursor) (\<lambda>(kind, cursor).
                  if kind = 1 \<and> include_values
                  then and_then (read_bytes bs cursor) (\<lambda>(v, cursor). Ok (Some v, cursor))
                  else if kind = 1 then and_then (skip_bytes bs cursor) (\<lambda>cursor. Ok (Some [], cursor))
                  else if kind = 2 then Ok (None, cursor)
                  else Err (Message ''invalid ThingDB table operation''))) (\<lambda>(value, cursor).
      let checksum_end = cursor in
      and_then (read_u32 bs cursor) (\<lambda>(stored, cursor).
      and_then (reject_if (stored \<noteq> crc (take (checksum_end - record_start) (drop record_start bs)))
                 (Message ''ThingDB table checksum mismatch'')) (\<lambda>_.
      Ok (\<lparr>sr_key = key, sr_value = value, sr_priority = 0\<rparr>, cursor))))))"

lemma read_bytes_progress: "read_bytes bs c = Ok (v, c') \<Longrightarrow> c < c'"
  by (auto simp: read_bytes_def read_u64_def and_then_eq_Ok)

lemma read_scan_record_progress:
  assumes "read_scan_record crc incl bs c = Ok (r, c')"
  shows "c < c'"
proof -
  obtain key c1 where key: "read_bytes bs c = Ok (key, c1)"
    using assms by (auto simp: read_scan_record_def and_then_eq_Ok Let_def)
  obtain v c2 where "and_then (read_byte bs c1) (\<lambda>(kind, cursor).
                  if kind = 1 \<and> incl
                  then and_then (read_bytes bs cursor) (\<lambda>(v, cursor). Ok (Some v, cursor))
                  else if kind = 1 then and_then (skip_bytes bs cursor) (\<lambda>cursor. Ok (Some [], cursor))
                  else if kind = 2 then Ok (None, cursor)
                  else Err (Message ''invalid ThingDB table operation'')) = Ok (v, c2)"
    and crc: "\<exists>stored. read_u32 bs c2 = Ok (stored, c')"
    using assms key by (auto simp: read_scan_record_def and_then_eq_Ok Let_def)
  then have "c1 \<le> c2"
    by (auto simp: read_byte_def and_then_eq_Ok skip_bytes_read dest!: read_bytes_progress split: if_splits)
  moreover have "c2 \<le> c'"
    using crc by (auto simp: read_u32_def and_then_eq_Ok)
  ultimately show ?thesis
    using read_bytes_progress [OF key] by simp
qed

function scan_records ::
    "(bytes \<Rightarrow> u32) \<Rightarrow> bool \<Rightarrow> bytes \<Rightarrow> nat \<Rightarrow> table_scan_record list \<Rightarrow> table_scan_record list db_result" where
  "scan_records crc include_values bs cursor records =
     (if cursor < length bs then
        and_then (read_scan_record crc include_values bs cursor) (\<lambda>(record, cursor).
        and_then (reject_if (records \<noteq> [] \<and> sr_key (last records) \<ge> sr_key record)
                   (Message ''ThingDB table block keys are not strictly ordered'')) (\<lambda>_.
        scan_records crc include_values bs cursor (records @ [record])))
      else Ok records)"
  by pat_completeness auto
termination
  by (relation "measure (\<lambda>(crc, incl, bs, cursor, _). length bs - cursor)")
    (auto dest!: read_scan_record_progress)

declare scan_records.simps [simp del]

definition read_table_block_records ::
    "(bytes \<Rightarrow> u32) \<Rightarrow> (table_scan_record list \<Rightarrow> nat) \<Rightarrow> table_layer \<Rightarrow> table_block \<Rightarrow> bool \<Rightarrow> table_cache
      \<Rightarrow> table_scan_record list db_result \<times> table_cache" where
  "read_table_block_records crc decoded_bytes layer block include_values cache =
     (let cache_key = (tl_path layer, tb_offset block);
          (hit, cache) = bc_get_records cache_key cache
      in case hit of
           Some records \<Rightarrow> (Ok records, cache)
         | None \<Rightarrow>
             (case read_cached_table_block crc layer block cache of
                (Inl e, cache) \<Rightarrow> (Err e, cache)
              | (Inr bs, cache) \<Rightarrow>
                  (case scan_records crc include_values bs 0 [] of
                     Inl e \<Rightarrow> (Err e, cache)
                   | Inr records \<Rightarrow>
                       if records = [] \<or> sr_key (hd records) \<noteq> tb_first_key block
                          \<or> sr_key (last records) \<noteq> tb_last_key block
                       then (Err (Message ''ThingDB table block key range does not match its index''), cache)
                       else (Ok records,
                             if include_values
                             then bc_insert_records (decoded_bytes records) cache_key records cache
                             else cache))))"

section \<open>Records of a block\<close>

lemma index_of_append: "index_of off (es @ fs) = index_of off es @ index_of (off + table_bytes es) fs"
  by (induction es arbitrary: off) (simp_all add: add.assoc)

lemma length_index_of [simp]: "length (index_of off es) = length es"
  by (induction es arbitrary: off) simp_all

lemma index_of_nth:
  "i < length es \<Longrightarrow> index_of off es ! i =
     \<lparr>te_key = fst (es ! i), te_offset = off + table_bytes (take i es), te_length = entry_bytes (es ! i)\<rparr>"
proof (induction es arbitrary: off i)
  case (Cons e es)
  then show ?case by (cases i) (simp_all add: add.assoc)
qed simp

lemma index_of_bounds: "e \<in> set (index_of off es) \<Longrightarrow> off \<le> te_offset e \<and> te_offset e < off + table_bytes es"
proof (induction es arbitrary: off)
  case (Cons a es)
  have "0 < entry_bytes a"
    by (simp add: entry_bytes_def)
  then show ?case
    using Cons.prems by (auto dest!: Cons.IH)
qed simp

lemma recs_nth:
  assumes "i < length g"
  shows "subslice (recs crc g) (table_bytes (take i g)) (table_bytes (take i g) + entry_bytes (g ! i)) =
    Some (enc_rec crc (g ! i))"
proof -
  have "recs crc g = recs crc (take i g) @ enc_rec crc (g ! i) @ recs crc (drop (Suc i) g)"
    using id_take_nth_drop [OF assms] by (metis recs_simps(2,3))
  then show ?thesis
    by (rule subslice_at) simp_all
qed

lemma table_bytes_nth: "i < length g \<Longrightarrow> table_bytes (take i g) + entry_bytes (g ! i) \<le> table_bytes g"
  using id_take_nth_drop [of i g] by (metis add.assoc le_add1 table_bytes_simps(2,3))

lemma block_entry_value_enc:
  assumes "i < length g" "table_bytes g \<le> usize_max"
  shows "block_entry_value crc (block_of crc off g) (index_of off g ! i) (recs crc g) = Ok (snd (g ! i))"
proof -
  have fits: "table_bytes (take i g) + entry_bytes (g ! i) \<le> usize_max"
    using table_bytes_nth [OF assms(1)] assms(2) by simp
  note key = read_rec_key [of "[]" "g ! i" crc "[]", simplified]
    and val = read_rec_value_enc [of "[]" "g ! i" crc "[]", simplified]
    and crc = read_rec_crc [of "[]" "g ! i" crc "[]", simplified]
  show ?thesis
    using fits key val crc
    by (simp add: block_entry_value_def index_of_nth [OF assms(1)] Let_def checked_add_def recs_nth [OF assms(1)]
        read_rec_value_def [symmetric] take_rec_body)
qed

section \<open>Finding the block and the entry\<close>

lemma partition_point_append:
  "(\<And>x. x \<in> set xs \<Longrightarrow> P x) \<Longrightarrow> partition_point P (xs @ ys) = length xs + partition_point P ys"
  by (simp add: partition_point_def)

lemma partition_point_stop: "(\<And>x. x \<in> set xs \<Longrightarrow> \<not> P x) \<Longrightarrow> partition_point P xs = 0"
  by (cases xs) (simp_all add: partition_point_def)

lemma partition_point_map: "partition_point (\<lambda>x. P (f x)) xs = partition_point P (map f xs)"
  by (simp add: partition_point_def takeWhile_map o_def)

lemma map_last_key_layout: "map tb_last_key (layout crc off gs) = map (\<lambda>g. fst (last g)) gs"
  by (induction gs arbitrary: off) simp_all

lemma binary_search_index:
  assumes "bm_ok g"
  shows "case binary_search_key key (index_of off g) of
      Some i \<Rightarrow> i < length g \<and> bm_get g key = Some (snd (g ! i))
    | None \<Rightarrow> bm_get g key = None"
proof -
  define i where "i = length (takeWhile (\<lambda>e. fst e < key) g)"
  have "partition_point (\<lambda>e. te_key e < key) (index_of off g) = i"
    unfolding partition_point_map [of "\<lambda>k. k < key" te_key] te_key_index
    by (simp add: partition_point_def takeWhile_map o_def i_def)
  then have search: "binary_search_key key (index_of off g) =
      (if i < length g \<and> fst (g ! i) = key then Some i else None)"
    by (cases "i < length g") (simp_all add: binary_search_key_def index_of_nth)
  have found: "bm_get g key = Some (snd (g ! i))" if "i < length g" "fst (g ! i) = key"
    using bm_get_mem [OF assms, of key "snd (g ! i)"] nth_mem [OF that(1)] that(2)
    by (metis prod.collapse)
  have "i < length g \<and> fst (g ! i) = key" if "bm_get g key = Some v" for v
  proof -
    have "(key, v) \<in> set g"
      using that by (rule bm_get_SomeD)
    then obtain a b where g: "g = a @ (key, v) # b"
      by (metis split_list)
    then have "takeWhile (\<lambda>e. fst e < key) g = a"
      using assms by (auto simp: bm_ok_append takeWhile_tail)
    then show ?thesis
      using g by (simp add: i_def)
  qed
  then show ?thesis
    using found by (cases "bm_get g key") (auto simp: search)
qed

text \<open>The groups around a key: those that end before it, the one that may hold it, the rest.\<close>

lemma split_groups:
  fixes key :: bytes and gs :: "memtable list"
  assumes "bm_ok (concat gs)" "[] \<notin> set gs"
  defines "before \<equiv> takeWhile (\<lambda>g. fst (last g) < key) gs" and "rest \<equiv> dropWhile (\<lambda>g. fst (last g) < key) gs"
  shows "gs = before @ rest" "\<And>e. e \<in> set (concat before) \<Longrightarrow> fst e < key"
    "\<And>g gs' e. rest = g # gs' \<Longrightarrow> e \<in> set (concat gs') \<Longrightarrow> key < fst e"
    "\<And>g gs'. rest = g # gs' \<Longrightarrow> key \<le> fst (last g)"
proof -
  show gs: "gs = before @ rest"
    by (simp add: before_def rest_def)
  have last: "e = last g \<or> fst e < fst (last g)" if "g \<in> set gs" "e \<in> set g" for g e
  proof -
    have g: "bm_ok g" "g \<noteq> []"
      using that assms(1,2) by (auto simp: in_set_conv_decomp bm_ok_append)
    then have "\<forall>x \<in> set (butlast g). fst x < fst (last g)"
      using bm_ok_append [of "butlast g" "[last g]"] by simp
    moreover have "e \<in> set (butlast g @ [last g])"
      using that(2) g(2) by simp
    ultimately show ?thesis by auto
  qed
  show "fst e < key" if e: "e \<in> set (concat before)" for e
  proof -
    obtain g where g: "g \<in> set before" "e \<in> set g"
      using e by auto
    then have "g \<in> set gs" "fst (last g) < key"
      using set_takeWhileD [of g "\<lambda>g. fst (last g) < key" gs] by (simp_all add: before_def)
    then show ?thesis
      using last [OF _ g(2)] by auto
  qed
  show key: "key \<le> fst (last g)" if "rest = g # gs'" for g gs'
    using that hd_dropWhile [of "\<lambda>g. fst (last g) < key" gs] by (simp add: rest_def)
  show "key < fst e" if "rest = g # gs'" "e \<in> set (concat gs')" for g gs' e
  proof -
    have "g \<noteq> []"
      using gs that(1) assms(2) by auto
    then have "fst (last g) < fst e"
      using assms(1) that(2) gs by (auto simp: that(1) bm_ok_append)
    then show ?thesis
      using key [OF that(1)] by simp
  qed
qed

section \<open>Lookups in a written table\<close>

definition layer_holds :: "(bytes \<Rightarrow> u32) \<Rightarrow> memtable \<Rightarrow> table_layer \<Rightarrow> bool" where
  "layer_holds crc es layer \<longleftrightarrow> bm_ok es \<and> table_bytes es < 2 ^ 60 \<and>
     (\<exists>sequence. tl_file layer = enc_table crc sequence es) \<and>
     tl_blocks layer = layout crc data_start (groups es) \<and> tl_is_v2 layer \<and>
     (\<forall>entries. tl_entries layer = Some entries \<longrightarrow> entries = index_of data_start es)"

text \<open>What the cache must agree with: the bytes of every block of the layer.\<close>

definition block_source :: "(cache_key \<Rightarrow> bytes option) \<Rightarrow> table_layer \<Rightarrow> bool" where
  "block_source src layer \<longleftrightarrow> (\<forall>b \<in> set (tl_blocks layer).
     src (tl_path layer, tb_offset b) = subslice (tl_file layer) (tb_offset b) (tb_offset b + tb_length b))"

lemma loaded_entries_ok: "layer_holds crc es layer \<Longrightarrow> loaded_entries crc layer = Ok (index_of data_start es)"
  using read_table_index_enc [of es crc]
  by (auto simp: layer_holds_def loaded_entries_def split: option.split)

lemma partition_layout:
  "partition_point (\<lambda>b. tb_last_key b < key) (layout crc off gs) = length (takeWhile (\<lambda>g. fst (last g) < key) gs)"
  unfolding partition_point_map [of "\<lambda>k. k < key" tb_last_key] map_last_key_layout
  by (simp add: partition_point_def takeWhile_map o_def)

lemma layout_nth: "layout crc off (before @ g # gs) ! length before = block_of crc (off + table_bytes (concat before)) g"
  by (simp add: layout_append nth_append)

text \<open>The entries of the block of group \<open>g\<close> are its index.\<close>

lemma index_range:
  fixes start :: nat and before :: "memtable list"
  defines "off \<equiv> start + table_bytes (concat before)"
  shows "partition_point (\<lambda>e. te_offset e < off) (index_of start (concat (before @ g # gs))) = length (concat before)"
    "partition_point (\<lambda>e. te_offset e < off + table_bytes g) (index_of start (concat (before @ g # gs))) =
      length (concat before) + length g"
    "take (length g) (drop (length (concat before)) (index_of start (concat (before @ g # gs)))) = index_of off g"
proof -
  have split: "index_of start (concat (before @ g # gs)) =
      index_of start (concat before) @ index_of off g @ index_of (off + table_bytes g) (concat gs)"
    by (simp add: index_of_append off_def add.assoc)
  have before: "te_offset e < off" if "e \<in> set (index_of start (concat before))" for e
    using index_of_bounds [OF that] by (simp add: off_def)
  have inside: "off \<le> te_offset e \<and> te_offset e < off + table_bytes g" if "e \<in> set (index_of off g)" for e
    using index_of_bounds [OF that] .
  have after: "off + table_bytes g \<le> te_offset e" if "e \<in> set (index_of (off + table_bytes g) (concat gs))" for e
    using index_of_bounds [OF that] by simp
  show "partition_point (\<lambda>e. te_offset e < off) (index_of start (concat (before @ g # gs))) = length (concat before)"
  proof -
    have "partition_point (\<lambda>e. te_offset e < off) (index_of off g @ index_of (off + table_bytes g) (concat gs)) = 0"
      by (rule partition_point_stop) (use inside after in force)
    then show ?thesis
      unfolding split by (subst partition_point_append) (auto simp: before)
  qed
  show "partition_point (\<lambda>e. te_offset e < off + table_bytes g) (index_of start (concat (before @ g # gs))) =
      length (concat before) + length g"
  proof -
    have "partition_point (\<lambda>e. te_offset e < off + table_bytes g) (index_of (off + table_bytes g) (concat gs)) = 0"
      by (rule partition_point_stop) (use after in force)
    moreover have "te_offset e < off + table_bytes g" if "e \<in> set (index_of start (concat before))" for e
      using before [OF that] by simp
    ultimately show ?thesis
      unfolding split by (simp add: partition_point_append inside)
  qed
  show "take (length g) (drop (length (concat before)) (index_of start (concat (before @ g # gs)))) = index_of off g"
    unfolding split by simp
qed

lemma index_range_nth:
  "i < length g \<Longrightarrow> index_of start (concat (before @ g # gs)) ! (length (concat before) + i) =
     index_of (start + table_bytes (concat before)) g ! i"
  by (simp add: index_of_append nth_append)

lemma layout_eq_Nil [simp]: "layout crc off gs = [] \<longleftrightarrow> gs = []"
  by (cases gs) simp_all

lemma read_cached_block_ok:
  assumes layer: "layer_holds crc es layer" and g: "groups es = before @ g # gs"
    and "bc_coherent src cache" "block_source src layer"
  defines "b \<equiv> block_of crc (data_start + table_bytes (concat before)) g"
  obtains cache' where "read_cached_table_block crc layer b cache = (Ok (recs crc g), cache')" "bc_coherent src cache'"
proof -
  obtain sequence where f: "tl_file layer = enc_table crc sequence es"
    using layer by (auto simp: layer_holds_def)
  have es: "es = concat before @ g @ concat gs"
    using concat_groups [of es] unfolding g by simp
  have data: "subslice (tl_file layer) (tb_offset b) (tb_offset b + tb_length b) = Some (recs crc g)"
    unfolding f enc_table_def b_def
    by (rule subslice_at [of _ "table_header sequence es @ recs crc (concat before)"])
      (simp_all add: es [symmetric], simp add: es)
  have "b \<in> set (tl_blocks layer)"
    using layer by (simp add: layer_holds_def g layout_append b_def)
  then have src: "src (tl_path layer, tb_offset b) = Some (recs crc g)"
    using assms(4) data by (auto simp: block_source_def)
  obtain hit c' where get: "bc_get (tl_path layer, tb_offset b) cache = (hit, c')"
    by (cases "bc_get (tl_path layer, tb_offset b) cache")
  from bcache.read_through [OF assms(3) src get]
  show ?thesis
  proof
    assume "hit = None \<and> bc_coherent src (bc_insert (tl_path layer, tb_offset b) (recs crc g) c')"
    then show ?thesis
      using get data by (intro that [of "bc_insert (tl_path layer, tb_offset b) (recs crc g) c'"])
        (simp_all add: read_cached_table_block_def read_exact_at_def b_def)
  next
    assume "hit = Some (recs crc g) \<and> bc_coherent src c'"
    then show ?thesis
      using get by (intro that [of c']) (simp_all add: read_cached_table_block_def)
  qed
qed

lemma bm_get_NoneI: "(\<And>e. e \<in> set m \<Longrightarrow> fst e \<noteq> k) \<Longrightarrow> bm_get m k = None"
  by (auto simp: bm_get_None_iff)

lemma bm_get_groups:
  fixes gs :: "memtable list"
  assumes "bm_ok (concat gs)" "[] \<notin> set gs" "dropWhile (\<lambda>g. fst (last g) < key) gs = g # rest"
  shows "bm_get (concat gs) key = bm_get g key"
proof -
  note split = split_groups [OF assms(1,2), where key = key]
  define before where "before = takeWhile (\<lambda>g. fst (last g) < key) gs"
  have "gs = before @ g # rest"
    using split(1) assms(3) by (simp add: before_def)
  moreover have "bm_get (concat before) key = None"
    using split(2) less_imp_neq unfolding before_def by (intro bm_get_NoneI) blast
  moreover have "bm_get (concat rest) key = None"
    using split(3) [OF assms(3)] less_imp_neq by (intro bm_get_NoneI) blast
  ultimately show ?thesis
    by (simp add: bm_get_append split: option.split)
qed

lemma bm_get_before_first:
  assumes "bm_ok g" "g \<noteq> []" "key < fst (hd g)"
  shows "bm_get g key = None"
  using assms by (cases g) (auto simp: bm_get_None_iff)

lemma lookup_layer_empty:
  assumes "layer_holds crc es layer" "candidate_entry_range layer (index_of data_start es) key = (0, 0)"
  shows "lookup_layer crc layer key cache = (Ok None, cache)"
  using assms loaded_entries_ok [OF assms(1)]
  by (simp add: lookup_layer_def binary_search_key_def partition_point_def)

lemma lookup_layer_in_group:
  assumes layer: "layer_holds crc es layer" and g: "groups es = before @ g # gs"
    and before: "before = takeWhile (\<lambda>g. fst (last g) < key) (groups es)"
    and key: "fst (hd g) \<le> key" "key \<le> fst (last g)"
    and cache: "bc_coherent src cache" "block_source src layer"
  obtains cache' where "lookup_layer crc layer key cache = (Ok (bm_get g key), cache')" "bc_coherent src cache'"
proof -
  define off where "off = data_start + table_bytes (concat before)"
  have blocks: "tl_blocks layer = layout crc data_start (groups es)" and es: "bm_ok es" "table_bytes es < 2 ^ 60"
    using layer by (simp_all add: layer_holds_def)
  have concat_es: "es = concat (before @ g # gs)"
    using arg_cong [OF g, of concat] by simp
  have "bm_ok g"
    using es(1) unfolding concat_es by (simp add: bm_ok_append)
  have total: "table_bytes es = table_bytes (concat before) + table_bytes g + table_bytes (concat gs)"
    unfolding concat_es by simp
  then have sizes: "off + table_bytes g \<le> usize_max"
    using es(2) by (simp add: off_def data_start_def usize_max_def)
  have at: "layout crc data_start (groups es) ! length before = block_of crc off g"
    unfolding g off_def by (rule layout_nth)
  have len: "length before < length (groups es)" "groups es \<noteq> []"
    unfolding g by simp_all
  have pp: "partition_point (\<lambda>b. tb_last_key b < key) (layout crc data_start (groups es)) = length before"
    by (simp add: partition_layout before)
  have block: "candidate_block layer key = Some (block_of crc off g)"
    using len key by (simp add: candidate_block_def blocks pp at)
  note range = index_range [where start = data_start and before = before and g = g and gs = gs,
      folded off_def concat_es]
  have cand: "candidate_entry_range layer (index_of data_start es) key = (length (concat before), length (concat before) + length g)"
    using len key(1) sizes by (simp add: candidate_entry_range_def blocks pp at range Let_def not_less)
  have search: "binary_search_key key (index_of off g) = Some i \<Longrightarrow> i < length g \<and> bm_get g key = Some (snd (g ! i))"
    "binary_search_key key (index_of off g) = None \<Longrightarrow> bm_get g key = None" for i
    using binary_search_index [OF \<open>bm_ok g\<close>, of key off] by simp_all
  show ?thesis
  proof (cases "binary_search_key key (index_of off g)")
    case None
    then show ?thesis
      using search(2) cache(1) loaded_entries_ok [OF layer] cand range(3)
      by (intro that [of cache]) (simp_all add: lookup_layer_def)
  next
    case (Some i)
    then have i: "i < length g" "bm_get g key = Some (snd (g ! i))"
      using search(1) by auto
    have entry: "index_of data_start es ! (length (concat before) + i) = index_of off g ! i"
      using range(3) i(1) by (metis index_range_nth concat_es off_def)
    obtain cache' where c: "read_cached_table_block crc layer (block_of crc off g) cache = (Ok (recs crc g), cache')"
      "bc_coherent src cache'"
      using read_cached_block_ok [OF layer g cache] unfolding off_def by blast
    have "read_table_block_entry_value crc layer (block_of crc off g) (index_of off g ! i) cache =
        (Ok (Some (snd (g ! i))), cache')"
      using block_entry_value_enc [OF i(1), of crc off] sizes by (simp add: read_table_block_entry_value_def c)
    then show ?thesis
      using Some i c(2) loaded_entries_ok [OF layer] cand range(3) block entry
      by (intro that [of cache']) (simp_all add: lookup_layer_def Let_def)
  qed
qed

lemma lookup_layer_ok:
  assumes layer: "layer_holds crc es layer" and cache: "bc_coherent src cache" "block_source src layer"
  obtains cache' where "lookup_layer crc layer key cache = (Ok (bm_get es key), cache')" "bc_coherent src cache'"
proof -
  define before where "before = takeWhile (\<lambda>g. fst (last g) < key) (groups es)"
  define rest where "rest = dropWhile (\<lambda>g. fst (last g) < key) (groups es)"
  have ok: "bm_ok (concat (groups es))" and blocks: "tl_blocks layer = layout crc data_start (groups es)"
    using layer by (simp_all add: layer_holds_def)
  note split = split_groups [OF ok groups_nonempty, where key = key, folded before_def rest_def]
  show ?thesis
  proof (cases rest)
    case Nil
    then have all: "before = groups es"
      using split(1) by simp
    then have "bm_get es key = None"
      using split(2) by (auto simp: bm_get_None_iff)
    moreover have "es = []" if "groups es = []"
      using concat_groups [of es] that by simp
    then have "candidate_entry_range layer (index_of data_start es) key = (0, 0)"
      using all by (auto simp: candidate_entry_range_def blocks partition_layout before_def [symmetric])
    ultimately show ?thesis
      using that [of cache] lookup_layer_empty [OF layer] cache by simp
  next
    case (Cons g gs)
    have gs: "groups es = before @ g # gs"
      using split(1) Cons by simp
    have g: "g \<noteq> []" "bm_ok g"
      using groups_nonempty [of es] ok unfolding gs by (auto simp: bm_ok_append)
    have get: "bm_get es key = bm_get g key"
      using bm_get_groups [OF ok groups_nonempty, of key g gs] Cons by (simp add: rest_def)
    show ?thesis
    proof (cases "key < fst (hd g)")
      case True
      have "layout crc data_start (groups es) ! length before = block_of crc (data_start + table_bytes (concat before)) g"
        unfolding gs by (rule layout_nth)
      moreover have "length before < length (groups es)" "groups es \<noteq> []"
        unfolding gs by simp_all
      ultimately have "candidate_entry_range layer (index_of data_start es) key = (0, 0)"
        using True by (simp add: candidate_entry_range_def blocks partition_layout before_def [symmetric])
      then show ?thesis
        using that [of cache] lookup_layer_empty [OF layer] cache get bm_get_before_first [OF g(2,1) True] by simp
    next
      case False
      then show ?thesis
        using lookup_layer_in_group [OF layer gs before_def _ split(4) [OF Cons] cache] that get
        by (metis linorder_not_less)
    qed
  qed
qed

section \<open>Scans and single records of a written table\<close>

definition scan_of :: "bool \<Rightarrow> bytes \<times> bytes option \<Rightarrow> table_scan_record" where
  "scan_of include_values e = \<lparr>sr_key = fst e,
     sr_value = (if include_values then snd e else map_option (\<lambda>_. []) (snd e)), sr_priority = 0\<rparr>"

lemma sr_key_scan_of [simp]: "sr_key (scan_of incl e) = fst e"
  by (simp add: scan_of_def)

text \<open>Skipping the value leaves the cursor where reading it does.\<close>

lemma read_scan_value:
  assumes "read_rec_value bs c = Ok (value, c')"
  shows "and_then (read_byte bs c) (\<lambda>(kind, cursor).
           if kind = 1 \<and> incl then and_then (read_bytes bs cursor) (\<lambda>(v, cursor). Ok (Some v, cursor))
           else if kind = 1 then and_then (skip_bytes bs cursor) (\<lambda>cursor. Ok (Some [], cursor))
           else if kind = 2 then Ok (None, cursor)
           else Err (Message ''invalid ThingDB table operation'')) =
    Ok (if incl then value else map_option (\<lambda>_. []) value, c')"
proof (cases "read_byte bs c")
  case (Inr p)
  then show ?thesis
    using assms by (cases "read_bytes bs (snd p)")
      (auto simp: read_rec_value_def skip_bytes_read split_def split: if_splits)
qed (use assms in \<open>simp add: read_rec_value_def\<close>)

lemma read_scan_record_enc:
  assumes "length pre + entry_bytes e \<le> usize_max"
  shows "read_scan_record crc incl (pre @ enc_rec crc e @ post) (length pre) =
    Ok (scan_of incl e, length pre + entry_bytes e)"
  using read_rec_key [OF assms, of crc post] read_scan_value [OF read_rec_value_enc [OF assms, of crc post], of incl]
    read_rec_crc [OF assms, of crc post]
  by (simp add: read_scan_record_def Let_def take_rec_body scan_of_def)

lemma scan_records_enc:
  assumes "bm_ok (done @ g)" "length pre + table_bytes g \<le> usize_max"
  shows "scan_records crc incl (pre @ recs crc g) (length pre) (map (scan_of incl) done) =
    Ok (map (scan_of incl) (done @ g))"
  using assms
proof (induction g arbitrary: pre "done")
  case Nil
  then show ?case by (simp add: scan_records.simps)
next
  case (Cons e g)
  have rd: "read_scan_record crc incl (pre @ enc_rec crc e @ recs crc g) (length pre) =
      Ok (scan_of incl e, length pre + entry_bytes e)"
    using Cons.prems by (intro read_scan_record_enc) simp
  have ordered: "\<not> (map (scan_of incl) done \<noteq> [] \<and> sr_key (last (map (scan_of incl) done)) \<ge> fst e)"
    using Cons.prems(1) by (cases "done = []") (simp_all add: last_map bm_ok_append not_le)
  have "scan_records crc incl ((pre @ enc_rec crc e) @ recs crc g) (length (pre @ enc_rec crc e))
      (map (scan_of incl) (done @ [e])) = Ok (map (scan_of incl) ((done @ [e]) @ g))"
    by (rule Cons.IH) (use Cons.prems in simp_all)
  moreover have "0 < entry_bytes e"
    by (simp add: entry_bytes_def)
  ultimately show ?case
    using rd ordered by (subst scan_records.simps) (auto simp: reject_if_def)
qed

lemma read_value_handle_enc:
  assumes "subslice bs off (off + entry_bytes e) = Some (enc_rec crc e)" "entry_bytes e \<le> usize_max"
  shows "read_table_value_handle crc bs \<lparr>te_key = fst e, te_offset = off, te_length = entry_bytes e\<rparr> True = Ok (snd e)"
proof -
  note key = read_rec_key [of "[]" e crc "[]", simplified]
    and val = read_rec_value_enc [of "[]" e crc "[]", simplified]
    and crc = read_rec_crc [of "[]" e crc "[]", simplified]
  have byte: "read_byte bs c = (case subslice bs c (c + 1) of Some [b] \<Rightarrow> Ok (b, c + 1) | _ \<Rightarrow>
      Err (Message ''truncated ThingDB record''))" for bs c
    by (auto simp: read_byte_def subslice_def Suc_le_eq Cons_nth_drop_Suc [symmetric])
  have "(if subslice (enc_rec crc e) c (c + 1) = Some [1]
         then and_then (read_bytes (enc_rec crc e) (c + 1)) (\<lambda>(v, cursor). Ok (Some v, cursor))
         else if subslice (enc_rec crc e) c (c + 1) = Some [2] then Ok (None, c + 1)
         else Err (Message ''invalid ThingDB table operation'')) = read_rec_value (enc_rec crc e) c"
    if "read_rec_value (enc_rec crc e) c = Ok r" for c r
    using that by (auto simp: read_rec_value_def byte and_then_eq_Ok split: option.splits list.splits if_splits)
  from this [OF val]
  have decoded: "(if subslice (enc_rec crc e) (8 + length (fst e)) (8 + length (fst e) + 1) = Some [1]
         then and_then (read_bytes (enc_rec crc e) (8 + length (fst e) + 1)) (\<lambda>(v, cursor). Ok (Some v, cursor))
         else if subslice (enc_rec crc e) (8 + length (fst e)) (8 + length (fst e) + 1) = Some [2]
         then Ok (None, 8 + length (fst e) + 1)
         else Err (Message ''invalid ThingDB table operation'')) = Ok (snd e, length (rec_body e))"
    using assms(2) val by simp
  show ?thesis
    using assms key crc decoded
    by (simp add: read_table_value_handle_def read_exact_at_def decode_table_value_def Let_def take_rec_body
        del: One_nat_def)
qed

lemma read_handle_enc:
  assumes i: "i < length es" and "table_bytes es < 2 ^ 60"
  shows "read_table_value_handle crc (enc_table crc sequence es) (index_of data_start es ! i) True = Ok (snd (es ! i))"
proof -
  have "subslice (enc_table crc sequence es) (data_start + table_bytes (take i es))
      (data_start + table_bytes (take i es) + entry_bytes (es ! i)) = Some (enc_rec crc (es ! i))"
  proof (rule subslice_at)
    have "recs crc es = recs crc (take i es) @ enc_rec crc (es ! i) @ recs crc (drop (Suc i) es)"
      using id_take_nth_drop [OF i] by (metis recs_simps(2,3))
    then show "enc_table crc sequence es = (table_header sequence es @ recs crc (take i es)) @ enc_rec crc (es ! i) @
        (recs crc (drop (Suc i) es) @ footer_body crc (groups es) @ enc_u32 (crc (footer_body crc (groups es))))"
      by (simp add: enc_table_def)
  qed simp_all
  moreover have "entry_bytes (es ! i) \<le> usize_max"
    using table_bytes_nth [OF i] assms(2) by (simp add: usize_max_def)
  ultimately show ?thesis
    by (simp add: index_of_nth [OF i] read_value_handle_enc)
qed

lemma open_layer_enc:
  assumes "bm_ok es" "table_bytes es < 2 ^ 60"
  obtains layer where "open_layer crc path (enc_table crc sequence es) = Ok (sequence, layer)"
    "layer_holds crc es layer" "tl_path layer = path" "tl_file layer = enc_table crc sequence es"
proof -
  define file' where "file' = enc_table crc sequence es"
  have "TABLE_MAGIC_V3 \<noteq> TABLE_MAGIC"
    by (simp add: TABLE_MAGIC_V3_def TABLE_MAGIC_def ascii_def of_char_def)
  moreover have version: "take 8 file' = TABLE_MAGIC_V3" "\<not> length file' < 24"
    by (simp_all add: file'_def enc_table_def table_header_def)
  moreover have "read_u64 file' 8 = Ok (sequence, 16)"
    using u64c.dec_enc [of TABLE_MAGIC_V3 sequence "enc_u64 (of_nat (length es)) @ recs crc es @
        footer_body crc (groups es) @ enc_u32 (crc (footer_body crc (groups es)))"] length_enc_table [OF assms(2)]
    by (simp add: file'_def enc_table_def table_header_def usize_max_def)
  ultimately have meta: "read_table_metadata crc file' = Ok (sequence, [], True, layout crc data_start (groups es))"
    using read_table_index_enc [OF assms, of crc sequence] by (simp add: read_table_metadata_def Let_def file'_def)
  define layer where "layer = \<lparr>tl_path = path, tl_file = file',
    tl_entries = (if groups es = [] then Some [] else None), tl_blocks = layout crc data_start (groups es), tl_is_v2 = True\<rparr>"
  have "es = []" if "groups es = []"
    using concat_groups [of es] that by simp
  then have "layer_holds crc es layer"
    using assms by (auto simp: layer_holds_def layer_def file'_def split: if_splits)
  moreover have "open_layer crc path file' = Ok (sequence, layer)"
    by (simp add: open_layer_def meta layer_def)
  ultimately show ?thesis
    using that [of layer] by (simp add: file'_def layer_def)
qed

text \<open>Looking a sequence of keys up, as readers do, with the cache carried along.\<close>

fun lookup_each ::
    "(bytes \<Rightarrow> u32) \<Rightarrow> table_layer \<Rightarrow> bytes list \<Rightarrow> table_cache \<Rightarrow> bytes option option db_result list" where
  "lookup_each crc layer [] cache = []"
| "lookup_each crc layer (key # keys) cache =
     (case lookup_layer crc layer key cache of (r, cache) \<Rightarrow> r # lookup_each crc layer keys cache)"

lemma lookup_each_ok:
  "layer_holds crc es layer \<Longrightarrow> bc_coherent src cache \<Longrightarrow> block_source src layer \<Longrightarrow>
   lookup_each crc layer keys cache = map (\<lambda>key. Ok (bm_get es key)) keys"
proof (induction keys arbitrary: cache)
  case (Cons key keys)
  obtain cache' where "lookup_layer crc layer key cache = (Ok (bm_get es key), cache')" "bc_coherent src cache'"
    using lookup_layer_ok [OF Cons.prems] by blast
  then show ?case
    using Cons.IH [OF Cons.prems(1) _ Cons.prems(3)] by simp
qed simp

lemma layout_offset_inj:
  "b \<in> set (layout crc off gs) \<Longrightarrow> b' \<in> set (layout crc off gs) \<Longrightarrow> [] \<notin> set gs \<Longrightarrow>
   tb_offset b = tb_offset b' \<Longrightarrow> b = b'"
proof (induction gs arbitrary: off)
  case (Cons g gs)
  have "0 < table_bytes g"
    using Cons.prems(3) by (cases g) (auto simp: entry_bytes_def)
  then have later: "off < tb_offset c" if "c \<in> set (layout crc (off + table_bytes g) gs)" for c
    using layout_bounds [OF that] Cons.prems(3) by auto
  then show ?case
    using Cons by (auto dest: later)
qed simp

lemma block_source_exists:
  assumes "layer_holds crc es layer"
  obtains src where "block_source src layer"
proof
  let ?at = "\<lambda>off b. b \<in> set (tl_blocks layer) \<and> tb_offset b = off"
  show "block_source (\<lambda>(path, off). let b = (SOME b. ?at off b) in
      subslice (tl_file layer) (tb_offset b) (tb_offset b + tb_length b)) layer"
    unfolding block_source_def
  proof
    fix b assume b: "b \<in> set (tl_blocks layer)"
    have "(SOME b'. ?at (tb_offset b) b') = b"
    proof (rule some_equality)
      show "?at (tb_offset b) b" using b by simp
      fix b' assume "?at (tb_offset b) b'"
      then show "b' = b"
        using b assms layout_offset_inj [OF _ _ groups_nonempty, of b' crc data_start es b]
        by (simp add: layer_holds_def)
    qed
    then show "(case (tl_path layer, tb_offset b) of (path, off) \<Rightarrow> let b = (SOME b. ?at off b) in
        subslice (tl_file layer) (tb_offset b) (tb_offset b + tb_length b)) =
      subslice (tl_file layer) (tb_offset b) (tb_offset b + tb_length b)"
      by simp
  qed
qed

section \<open>What a table file promises\<close>

text \<open>
  C13: a table file round-trips. Writing a sorted memtable succeeds, the footer is at the
  position the writer asserts, opening the file accepts it and returns the sequence number it was
  written with and the keys in order, and each record read back through its index entry is the
  value, or the tombstone, that was written.
\<close>

theorem table_roundtrip:
  assumes "bm_ok es" "table_bytes es < 2 ^ 60"
  shows "\<exists>file footer_start index blocks.
    write_table_at crc sequence es = Ok (file, footer_start, footer_start) \<and>
    read_table_index crc file = Ok (sequence, index, True, blocks) \<and> map te_key index = map fst es \<and>
    (\<forall>i < length es. read_table_value_handle crc file (index ! i) True = Ok (snd (es ! i)))"
proof -
  have wr: "write_table_at crc sequence es =
      Ok (enc_table crc sequence es, data_start + table_bytes es, data_start + table_bytes es)"
    using assms(2) by (intro write_table_enc) (simp add: data_start_def usize_max_def)
  have "read_table_value_handle crc (enc_table crc sequence es) (index_of data_start es ! i) True = Ok (snd (es ! i))"
    if "i < length es" for i
    using that assms(2) by (rule read_handle_enc)
  then show ?thesis
    using wr read_table_index_enc [OF assms, of crc sequence] te_key_index [of data_start es] by blast
qed

theorem table_roundtrip_witness:
  "\<exists>file footer_start index blocks.
    write_table_at (\<lambda>b. of_nat (length b)) 5 [([1], Some [7]), ([2], None)] = Ok (file, footer_start, footer_start) \<and>
    read_table_index (\<lambda>b. of_nat (length b)) file = Ok (5, index, True, blocks) \<and>
    map te_key index = [[1], [2]] \<and>
    read_table_value_handle (\<lambda>b. of_nat (length b)) file (index ! 0) True = Ok (Some [7]) \<and>
    read_table_value_handle (\<lambda>b. of_nat (length b)) file (index ! 1) True = Ok None"
proof -
  let ?es = "[([1], Some [7]), ([2], None)] :: memtable"
  have "bm_ok ?es" "table_bytes ?es < 2 ^ 60"
    by (simp_all add: entry_bytes_def)
  from table_roundtrip [OF this, of "\<lambda>b. of_nat (length b)" 5]
  show ?thesis
    by (fastforce simp: less_Suc_eq_0_disj)
qed

text \<open>
  C12: point reads of a table. In the layer opened from the file of a sorted memtable, every
  sequence of lookups, starting from an empty block cache of any capacity, returns for each key
  exactly what the memtable holds: nothing, a tombstone, or the value.
\<close>

theorem table_lookups:
  assumes "bm_ok es" "table_bytes es < 2 ^ 60" "write_table crc sequence es = Ok file"
  shows "\<exists>layer. open_layer crc path file = Ok (sequence, layer) \<and>
    lookup_each crc layer keys (bc_with_capacity capacity) = map (\<lambda>key. Ok (bm_get es key)) keys"
proof -
  have "write_table crc sequence es = Ok (enc_table crc sequence es)"
    using write_table_enc [of es crc sequence] assms(2)
    by (simp add: write_table_def data_start_def usize_max_def)
  then have f: "file = enc_table crc sequence es"
    using assms(3) by simp
  obtain layer where layer: "open_layer crc path file = Ok (sequence, layer)" "layer_holds crc es layer"
    using open_layer_enc [OF assms(1,2), of crc path sequence] unfolding f by blast
  obtain src where "block_source src layer"
    using block_source_exists [OF layer(2)] by blast
  then show ?thesis
    using lookup_each_ok [OF layer(2) bc_coherent_empty] layer(1) by blast
qed

theorem table_lookups_witness:
  "\<exists>file layer. write_table (\<lambda>b. of_nat (length b)) 5 [([1], Some [7]), ([2], None)] = Ok file \<and>
    open_layer (\<lambda>b. of_nat (length b)) ''t'' file = Ok (5, layer) \<and>
    lookup_each (\<lambda>b. of_nat (length b)) layer [[2], [1], [3], [1]] (bc_with_capacity 100) =
      [Ok (Some None), Ok (Some (Some [7])), Ok None, Ok (Some (Some [7]))]"
proof -
  let ?crc = "\<lambda>b :: bytes. of_nat (length b) :: u32"
  let ?es = "[([1], Some [7]), ([2], None)] :: memtable"
  have es: "bm_ok ?es" "table_bytes ?es < 2 ^ 60"
    by (simp_all add: entry_bytes_def)
  have "write_table ?crc 5 ?es = Ok (enc_table ?crc 5 ?es)"
    using write_table_enc [of ?es ?crc 5] by (simp add: write_table_def data_start_def usize_max_def entry_bytes_def)
  from this table_lookups [OF es this, of "''t''" "[[2], [1], [3], [1]]" 100]
  show ?thesis
    by fastforce
qed

end
