(* ===== verification/Keys.thy ===== *)
theory Keys
  imports Ordered_Map
begin

text \<open>
  The keys of \<open>crates/thingdb/src/lib.rs\<close>: a keyspace name and a user key become one
  physical key (\<open>namespace\<close>, \<open>physical_key\<close>), and a prefix scan is a range up to the
  \<open>successor\<close> of the prefix. Names are the UTF-8 bytes of the \<open>&str\<close>.
\<close>

definition namespace :: "bytes \<Rightarrow> bytes" where
  "namespace name = name @ [0]"

definition physical_key_from_namespace :: "bytes \<Rightarrow> bytes \<Rightarrow> bytes" where
  "physical_key_from_namespace ns key = ns @ key"

definition physical_key :: "bytes \<Rightarrow> bytes \<Rightarrow> bytes" where
  "physical_key name key = physical_key_from_namespace (namespace name) key"

text \<open>The check of \<open>Database::keyspace\<close>.\<close>

definition valid_keyspace :: "bytes \<Rightarrow> bool" where
  "valid_keyspace name \<longleftrightarrow> \<not> (name = [] \<or> 0 \<in> set name)"

text \<open>
  \<open>successor\<close>: the loop runs from the last byte down to the first one that is not
  \<open>u8::MAX\<close>, here as a recursion over the reversed key.
\<close>

fun bump_last :: "bytes \<Rightarrow> bytes option" where
  "bump_last [] = None"
| "bump_last (b # rest) = (if b \<noteq> - 1 then Some (rev rest @ [b + 1]) else bump_last rest)"

definition successor :: "bytes \<Rightarrow> bytes option" where
  "successor key = bump_last (rev key)"

section \<open>Keyspace isolation\<close>

lemma physical_key_split:
  "0 \<notin> set m \<Longrightarrow> 0 \<notin> set n \<Longrightarrow> physical_key m k = physical_key n l \<Longrightarrow> m = n \<and> k = l"
proof (induction m arbitrary: n)
  case Nil
  then show ?case
    by (cases n) (auto simp: physical_key_def physical_key_from_namespace_def namespace_def)
next
  case (Cons a m)
  then show ?case
    by (cases n) (auto simp: physical_key_def physical_key_from_namespace_def namespace_def)
qed

section \<open>Prefix scans as ranges\<close>

lemma prefix_le: "prefix p x \<Longrightarrow> p \<le> (x :: bytes)"
  by (induction p arbitrary: x) (auto simp: prefix_def)

lemma Cons_le_Cons: "(a # x \<le> b # y) \<longleftrightarrow> a < b \<or> a = b \<and> x \<le> (y :: bytes)"
  by auto

lemma Cons_less_Cons: "(a # x < b # y) \<longleftrightarrow> a < b \<or> a = b \<and> x < (y :: bytes)"
  by simp

lemma byte_max: "b \<le> (- 1 :: byte)"
  by simp

lemma unat_lt_byte: "unat (b :: byte) < 256"
proof -
  have "unat b < 2 ^ LENGTH(8)"
    by (rule unsigned_less)
  then show ?thesis by simp
qed

lemma byte_inc:
  assumes "b \<noteq> (- 1 :: byte)"
  shows "c < b + 1 \<longleftrightarrow> c \<le> b"
proof -
  have "unat (- 1 :: byte) = 255"
    by code_simp
  then have "unat b \<noteq> 255"
    using assms by (metis word_unat_eq_iff)
  moreover have "unat b < 256"
    using unat_lt_byte by simp
  ultimately have "unat (b + 1) = unat b + 1"
    by (subst unat_add_lem [THEN iffD1]) simp_all
  then show ?thesis
    by (auto simp: word_less_nat_alt word_le_nat_alt)
qed

lemma max_prefix: "prefix (replicate n (- 1)) x \<longleftrightarrow> replicate n (- 1) \<le> (x :: bytes)"
proof (induction n arbitrary: x)
  case (Suc n)
  show ?case
    by (cases x) (auto simp: Suc.IH Cons_le_Cons)
qed simp

lemma bumped_prefix:
  fixes x :: bytes
  assumes "b \<noteq> - 1"
  shows "prefix (r @ b # replicate n (- 1)) x \<longleftrightarrow> r @ b # replicate n (- 1) \<le> x \<and> x < r @ [b + 1]"
proof (induction r arbitrary: x)
  case Nil
  show ?case
    using assms by (cases x) (auto simp: Cons_le_Cons byte_inc max_prefix)
next
  case (Cons a r)
  show ?case
    by (cases x) (auto simp: Cons_le_Cons Cons.IH)
qed

lemma bump_last_cases:
  "bump_last key = None \<and> key = replicate (length key) (- 1) \<or>
   (\<exists>n b rest. key = replicate n (- 1) @ b # rest \<and> b \<noteq> - 1 \<and> bump_last key = Some (rev rest @ [b + 1]))"
proof (induction key)
  case (Cons a key)
  show ?case
  proof (cases "a = - 1")
    case True
    from Cons.IH show ?thesis
    proof (elim disjE exE conjE)
      fix n b rest
      assume "key = replicate n (- 1) @ b # rest" "b \<noteq> - 1" "bump_last key = Some (rev rest @ [b + 1])"
      then show ?thesis
        using True by (intro disjI2 exI [of _ "Suc n"] exI [of _ b] exI [of _ rest]) simp
    qed (use True in simp)
  next
    case False
    then show ?thesis
      by (intro disjI2 exI [of _ 0] exI [of _ a] exI [of _ key]) simp
  qed
qed simp

text \<open>
  Keyspaces are isolated: two physical keys of valid keyspace names are equal only if both the
  keyspace and the user key are, so no write in one keyspace can touch another.
\<close>

lemma physical_key_injective:
  assumes "valid_keyspace m" "valid_keyspace n"
  shows "physical_key m k = physical_key n l \<longleftrightarrow> m = n \<and> k = l"
  using physical_key_split [of m n k l] assms by (auto simp: valid_keyspace_def)

text \<open>
  A prefix scan is the range from the prefix up to, and without, its successor; a prefix without
  a successor has no upper bound.
\<close>

lemma successor_bounds_prefix:
  "prefix p x \<longleftrightarrow> p \<le> x \<and> (case successor p of Some q \<Rightarrow> x < q | None \<Rightarrow> True)"
  using bump_last_cases [of "rev p"]
proof (elim disjE exE conjE)
  assume none: "bump_last (rev p) = None" and p: "rev p = replicate (length (rev p)) (- 1)"
  have "p = replicate (length p) (- 1)"
    using p by (metis length_rev rev_replicate rev_rev_ident)
  then have "prefix p x \<longleftrightarrow> p \<le> x"
    using max_prefix [of "length p" x] by simp
  then show ?thesis
    using none by (simp add: successor_def)
next
  fix n b rest
  assume key: "rev p = replicate n (- 1) @ b # rest" and "b \<noteq> - 1"
    and some: "bump_last (rev p) = Some (rev rest @ [b + 1])"
  have "p = rev rest @ b # replicate n (- 1)"
    using arg_cong [OF key, of rev] by simp
  then show ?thesis
    using some bumped_prefix [OF \<open>b \<noteq> - 1\<close>, of "rev rest" n x] by (simp add: successor_def)
qed

end
