(* ===== verification/Decimal.thy ===== *)
theory Decimal
  imports Prelude
begin

text \<open>
  Decimal numbers as \<open>format!\<close> prints them, plain (\<open>{}\<close>) and padded with zeros to a width
  (\<open>{:020}\<close>). The printed number determines the number, and numbers printed with one width
  compare as strings the way they compare as numbers.
\<close>

fun decimal :: "nat \<Rightarrow> string" where
  "decimal n = (if n < 10 then [char_of (48 + n)] else decimal (n div 10) @ [char_of (48 + n mod 10)])"

declare decimal.simps [simp del]

definition zero_padded :: "nat \<Rightarrow> nat \<Rightarrow> string" where
  "zero_padded w n = replicate (w - length (decimal n)) CHR ''0'' @ decimal n"

definition digits_value :: "string \<Rightarrow> nat" where
  "digits_value s = foldl (\<lambda>a c. a * 10 + (of_char c - 48)) 0 s"

definition is_digits :: "string \<Rightarrow> bool" where
  "is_digits s \<longleftrightarrow> (\<forall>c \<in> set s. 48 \<le> (of_char c :: nat) \<and> (of_char c :: nat) \<le> 57)"

lemma digits_value_snoc [simp]: "digits_value (s @ [c]) = digits_value s * 10 + (of_char c - 48)"
  by (simp add: digits_value_def)

lemma digits_value_Nil [simp]: "digits_value [] = 0"
  by (simp add: digits_value_def)

lemma decimal_value [simp]: "digits_value (decimal n) = n"
proof (induction n rule: decimal.induct)
  case (1 n)
  show ?case
  proof (cases "n < 10")
    case True
    then show ?thesis
      by (subst decimal.simps) (simp add: digits_value_def)
  next
    case False
    have "n mod 10 + 48 < 256"
      using mod_less_divisor [of 10 n] by linarith
    then show ?thesis
      using 1 False by (subst decimal.simps) (simp add: add.commute)
  qed
qed

lemma decimal_digits: "is_digits (decimal n)"
proof (induction n rule: decimal.induct)
  case (1 n)
  have "n mod 10 < 10"
    by simp
  then show ?case
    using 1 by (subst decimal.simps) (auto simp: is_digits_def)
qed

lemma length_decimal: "n < 10 ^ k \<Longrightarrow> 0 < k \<Longrightarrow> length (decimal n) \<le> k"
proof (induction k arbitrary: n)
  case (Suc k)
  show ?case
  proof (cases "n < 10")
    case True
    then show ?thesis by (subst decimal.simps) simp
  next
    case False
    then have "0 < k"
      using Suc.prems by (cases k) auto
    then show ?thesis
      using Suc False by (subst decimal.simps) (simp add: less_mult_imp_div_less)
  qed
qed simp

lemma digits_value_zeros [simp]: "digits_value (replicate z CHR ''0'' @ s) = digits_value s"
  by (induction z) (simp_all add: digits_value_def)

lemma zero_padded_value [simp]: "digits_value (zero_padded w n) = n"
  by (simp add: zero_padded_def)

lemma zero_padded_digits: "is_digits (zero_padded w n)"
  using decimal_digits [of n] by (auto simp: zero_padded_def is_digits_def)

lemma length_zero_padded: "n < 10 ^ w \<Longrightarrow> 0 < w \<Longrightarrow> length (zero_padded w n) = w"
  using length_decimal [of n w] by (simp add: zero_padded_def)

lemma length_padded_u64 [simp]: "length (zero_padded 20 (unat (w :: u64))) = 20"
proof (rule length_zero_padded)
  have "unat w \<le> usize_max" by simp
  then show "unat w < 10 ^ 20" by (simp add: usize_max_def)
qed simp

text \<open>Digit strings of one length compare as their values do.\<close>

lemma digits_value_Cons: "digits_value (c # s) = (of_char c - 48) * 10 ^ length s + digits_value s"
proof (induction s rule: rev_induct)
  case (snoc d s)
  then show ?case
    unfolding append_Cons [symmetric] digits_value_snoc by (simp add: algebra_simps)
qed (simp add: digits_value_def)

lemma digits_value_less: "is_digits s \<Longrightarrow> digits_value s < 10 ^ length s"
proof (induction s)
  case (Cons c s)
  then have "of_char c - 48 \<le> (9 :: nat)" "digits_value s < 10 ^ length s"
    by (auto simp: is_digits_def)
  then have "(of_char c - 48) * 10 ^ length s + digits_value s < 9 * 10 ^ length s + 10 ^ length s"
    by (intro add_le_less_mono mult_right_mono) simp_all
  then show ?case by (simp add: digits_value_Cons)
qed simp

lemma char_less_iff: "c < d \<longleftrightarrow> (of_char c :: nat) < of_char d"
  by (simp add: less_char_def)

lemma digits_less:
  "length s = length t \<Longrightarrow> is_digits s \<Longrightarrow> is_digits t \<Longrightarrow> digits_value s < digits_value t \<Longrightarrow> s @ x < t @ y"
proof (induction s t rule: list_induct2)
  case (Cons c s d t)
  have digits: "48 \<le> (of_char c :: nat)" "48 \<le> (of_char d :: nat)" "is_digits s" "is_digits t"
    using Cons.prems by (auto simp: is_digits_def)
  have "(of_char d :: nat) \<ge> of_char c"
  proof (rule ccontr)
    assume "\<not> (of_char d :: nat) \<ge> of_char c"
    then have "(of_char d - 48 :: nat) + 1 \<le> of_char c - 48"
      using digits(2) by linarith
    then have "((of_char d - 48 :: nat) + 1) * 10 ^ length s \<le> (of_char c - 48) * 10 ^ length s"
      by (rule mult_right_mono) simp
    then show False
      using Cons.prems(3) digits_value_less [OF digits(4)] Cons.hyps
      by (simp add: digits_value_Cons algebra_simps)
  qed
  then consider "c < d" | "c = d"
    by (metis char_less_iff less_le of_char_eq_iff)
  then show ?case
    using Cons digits by cases (simp_all add: digits_value_Cons)
qed simp

lemma decimal_inj: "decimal m = decimal n \<longleftrightarrow> m = n"
  by (metis decimal_value)

end
