(* ===== verification/Engine.thy ===== *)
theory Engine
  imports Wal Table_Read Keys Decimal
begin

text \<open>
  The durable engine of \<open>crates/thingdb/src/lib.rs\<close>: \<open>Inner\<close> with its mutable state,
  memtable, table layers and write-ahead log; commits (\<open>process_group\<close>,
  \<open>execute_group\<close>), flushes, compactions, reads and \<open>open_locked\<close>.

  The directory is the record \<open>disk\<close>: table files by name, the log, and the manifest as the
  value \<open>MANIFEST.json\<close> deserialises to. A file holds what was written to it; that unsynced
  writes may be lost is modelled only at the end of the log (see \<open>Wal\<close>). The injected faults of
  the source (\<open>maybe_fail\<close>) are kept: they stop an operation between two writes, as a crash
  would. Every public operation holds the commit gate for its whole run, so operations are atomic
  steps; timings and counters that nothing reads back are left out.
\<close>

record manifest =
  m_format_version :: nat
  m_table_file :: "string option"
  m_table_files :: "string list"
  m_table_sequence :: u64

datatype manifest_file = No_Manifest | Bad_Manifest | Manifest_File manifest

record disk =
  d_files :: "(string, bytes) hmap"
  d_manifest :: manifest_file
  d_manifest_temp :: "manifest option"
  d_wal :: bytes
  d_lock :: bool

record inner =
  i_disk :: disk
  i_state :: kv_state
  i_sequence :: u64
  i_table_sequence :: u64
  i_table_files :: "string list"
  i_table_layers :: "table_layer list"
  i_pending :: memtable
  i_pending_bytes :: nat
  i_max_journaling_size :: nat
  i_max_memtable_bytes :: nat
  i_max_table_layers :: nat
  i_journal_bytes :: nat
  i_frame_count :: nat
  i_cache :: table_cache
  i_recovery_required :: bool
  i_generation :: nat
  i_flush_scheduled :: bool

type_synonym 'a engine = "(inner, db_error, 'a) proc"

definition FORMAT_VERSION :: nat where
  "FORMAT_VERSION = 1"

definition TABLE_BLOCK_CACHE_BYTES :: nat where
  "TABLE_BLOCK_CACHE_BYTES = 8 * 1024 * 1024"

definition maybe_fail :: "string \<Rightarrow> string option \<Rightarrow> unit db_result" where
  "maybe_fail point fault_point =
     (if fault_point = Some point then Err (Message (''injected ThingDB fault: '' @ point)) else Ok ())"

section \<open>File names\<close>

text \<open>\<open>format!("table-{:020}-{:04}.tdb")\<close>, see \<open>Decimal\<close>.\<close>

definition flush_table_name :: "u64 \<Rightarrow> nat \<Rightarrow> string" where
  "flush_table_name sequence layers =
     ''table-'' @ zero_padded 20 (unat sequence) @ ''-'' @ zero_padded 4 layers @ ''.tdb''"

definition compact_table_name :: "u64 \<Rightarrow> string" where
  "compact_table_name sequence = ''table-'' @ zero_padded 20 (unat sequence) @ ''-compact.tdb''"

definition temp_name :: "string \<Rightarrow> string" where
  "temp_name name = ''.'' @ name @ ''.tmp''"

text \<open>The components of a relative path are normal unless one is \<open>..\<close> or the first is \<open>.\<close>.\<close>

fun split_on :: "char \<Rightarrow> string \<Rightarrow> string list" where
  "split_on c [] = [[]]"
| "split_on c (x # xs) = (if x = c then [] # split_on c xs
     else case split_on c xs of [] \<Rightarrow> [[x]] | w # ws \<Rightarrow> (x # w) # ws)"

definition validate_table_name :: "string \<Rightarrow> unit db_result" where
  "validate_table_name name =
     reject_if (name = [] \<or> hd name = CHR ''/'' \<or> hd (split_on CHR ''/'' name) = ''.''
         \<or> ''..'' \<in> set (split_on CHR ''/'' name))
       (Message ''invalid ThingDB table filename'')"

definition ends_with :: "string \<Rightarrow> string \<Rightarrow> bool" where
  "ends_with suf s = suffix suf s"

definition cleanup_temporary_files :: "disk \<Rightarrow> disk" where
  "cleanup_temporary_files d =
     d\<lparr>d_manifest_temp := None,
       d_files := filter (\<lambda>e. \<not> (prefix ''.table-'' (fst e) \<and> ends_with ''.tdb.tmp'' (fst e))) (d_files d)\<rparr>"

section \<open>Manifest\<close>

fun validate_names :: "string list \<Rightarrow> string list \<Rightarrow> unit db_result" where
  "validate_names seen [] = Ok ()"
| "validate_names seen (f # fs) =
     and_then (validate_table_name f) (\<lambda>_.
     and_then (reject_if (f \<in> set seen) (Message ''duplicate ThingDB table filename'')) (\<lambda>_.
     validate_names (f # seen) fs))"

fun names_ascending :: "string list \<Rightarrow> bool" where
  "names_ascending (a # b # fs) = (a < b \<and> names_ascending (b # fs))"
| "names_ascending _ = True"

definition manifest_tables :: "manifest \<Rightarrow> string list" where
  "manifest_tables m =
     (if m_table_files m = [] then (case m_table_file m of None \<Rightarrow> [] | Some f \<Rightarrow> [f]) else m_table_files m)"

definition validate_manifest :: "manifest \<Rightarrow> unit db_result" where
  "validate_manifest m =
     and_then (validate_names [] (m_table_files m)) (\<lambda>_.
     and_then (case m_table_file m of
                 None \<Rightarrow> Ok ()
               | Some table_file \<Rightarrow>
                   and_then (validate_table_name table_file) (\<lambda>_.
                   reject_if (m_table_files m \<noteq> [] \<and> last (m_table_files m) \<noteq> table_file)
                     (Message ''ThingDB manifest legacy table filename does not match table layers''))) (\<lambda>_.
     and_then (reject_if (manifest_tables m = [] \<and> m_table_sequence m \<noteq> 0)
                (Message ''ThingDB manifest has a table sequence without a table'')) (\<lambda>_.
     reject_if (\<not> names_ascending (manifest_tables m))
       (Message ''ThingDB manifest table layers are not in filename order''))))"

text \<open>\<open>write_manifest\<close>: the temporary file, then the rename.\<close>

definition set_disk :: "(disk \<Rightarrow> disk) \<Rightarrow> inner \<Rightarrow> inner" where
  "set_disk f s = s\<lparr>i_disk := f (i_disk s)\<rparr>"

definition write_manifest :: "string option \<Rightarrow> manifest \<Rightarrow> unit engine" where
  "write_manifest thread_fault m =
     st_then (st_do (set_disk (\<lambda>d. d\<lparr>d_manifest_temp := Some m\<rparr>))) (\<lambda>_.
     st_then (st_try (maybe_fail ''after-manifest-sync-before-rename'' thread_fault)) (\<lambda>_.
     st_do (set_disk (\<lambda>d. d\<lparr>d_manifest := Manifest_File m, d_manifest_temp := None\<rparr>))))"

section \<open>Reads\<close>

definition get_durable_value :: "(bytes \<Rightarrow> u32) \<Rightarrow> bytes \<Rightarrow> bytes option engine" where
  "get_durable_value crc key s =
     (case bm_get (i_pending s) key of
        Some v \<Rightarrow> (Ok v, s)
      | None \<Rightarrow>
          (case bm_get (i_state s) key of
             Some v \<Rightarrow> (Ok (Some v), s)
           | None \<Rightarrow>
               (case lookup_layers crc (rev (i_table_layers s)) key (i_cache s) of
                  (r, cache) \<Rightarrow> (r, s\<lparr>i_cache := cache\<rparr>))))"

text \<open>
  \<open>get_many_durable_values\<close>: the memtable and the state are read for all keys first, the
  unresolved keys then one after another from the layers.
\<close>

fun resolve_keys ::
    "(bytes \<Rightarrow> u32) \<Rightarrow> table_layer list \<Rightarrow> (bytes \<times> bytes option option) list \<Rightarrow> table_cache
      \<Rightarrow> bytes option list db_result \<times> table_cache" where
  "resolve_keys crc layers [] cache = (Ok [], cache)"
| "resolve_keys crc layers ((key, Some v) # keys) cache =
     (case resolve_keys crc layers keys cache of
        (Inl e, cache) \<Rightarrow> (Err e, cache)
      | (Inr vs, cache) \<Rightarrow> (Ok (v # vs), cache))"
| "resolve_keys crc layers ((key, None) # keys) cache =
     (case lookup_layers crc layers key cache of
        (Inl e, cache) \<Rightarrow> (Err e, cache)
      | (Inr v, cache) \<Rightarrow>
          (case resolve_keys crc layers keys cache of
             (Inl e, cache) \<Rightarrow> (Err e, cache)
           | (Inr vs, cache) \<Rightarrow> (Ok (v # vs), cache)))"

definition get_many_durable_values :: "(bytes \<Rightarrow> u32) \<Rightarrow> bytes list \<Rightarrow> bytes option list engine" where
  "get_many_durable_values crc keys s =
     (let resolved = map (\<lambda>key. (key, case bm_get (i_pending s) key of
                Some v \<Rightarrow> Some v
              | None \<Rightarrow> map_option Some (bm_get (i_state s) key))) keys
      in case resolve_keys crc (rev (i_table_layers s)) resolved (i_cache s) of
           (r, cache) \<Rightarrow> (r, s\<lparr>i_cache := cache\<rparr>))"

text \<open>\<open>materialize_state\<close>\<close>

fun materialize_entries ::
    "(bytes \<Rightarrow> u32) \<Rightarrow> table_layer \<Rightarrow> table_index_entry list \<Rightarrow> kv_state \<Rightarrow> kv_state db_result" where
  "materialize_entries crc layer [] st = Ok st"
| "materialize_entries crc layer (entry # entries) st =
     and_then (read_table_value_handle crc (tl_file layer) entry (tl_is_v2 layer)) (\<lambda>r.
     materialize_entries crc layer entries
       (case r of Some v \<Rightarrow> bm_insert (te_key entry) v st | None \<Rightarrow> bm_remove (te_key entry) st))"

fun materialize_layers :: "(bytes \<Rightarrow> u32) \<Rightarrow> table_layer list \<Rightarrow> kv_state \<Rightarrow> kv_state db_result" where
  "materialize_layers crc [] st = Ok st"
| "materialize_layers crc (layer # layers) st =
     and_then (loaded_entries crc layer) (\<lambda>entries.
     and_then (materialize_entries crc layer entries st) (\<lambda>st.
     materialize_layers crc layers st))"

definition overlay_entry :: "bytes \<times> bytes option \<Rightarrow> kv_state \<Rightarrow> kv_state" where
  "overlay_entry e st = (case snd e of Some v \<Rightarrow> bm_insert (fst e) v st | None \<Rightarrow> bm_remove (fst e) st)"

definition materialize_state :: "(bytes \<Rightarrow> u32) \<Rightarrow> inner \<Rightarrow> kv_state db_result" where
  "materialize_state crc s =
     and_then (materialize_layers crc (i_table_layers s) []) (\<lambda>st.
     Ok (fold overlay_entry (i_pending s) (fold (\<lambda>(k, v). bm_insert k v) (i_state s) st)))"

section \<open>Flush and compaction\<close>

text \<open>A table file is written under a temporary name and renamed.\<close>

definition write_temp_table :: "(bytes \<Rightarrow> u32) \<Rightarrow> string \<Rightarrow> u64 \<Rightarrow> memtable \<Rightarrow> unit engine" where
  "write_temp_table crc name sequence entries =
     st_then (st_try (write_table crc sequence entries)) (\<lambda>bs.
     st_do (set_disk (\<lambda>d. d\<lparr>d_files := hm_insert (temp_name name) bs (d_files d)\<rparr>)))"

definition rename_file :: "string \<Rightarrow> string \<Rightarrow> disk \<Rightarrow> disk" where
  "rename_file from dest d =
     (case hm_get (d_files d) from of
        None \<Rightarrow> d
      | Some bs \<Rightarrow> d\<lparr>d_files := hm_insert dest bs (hm_remove from (d_files d))\<rparr>)"

definition open_table :: "(bytes \<Rightarrow> u32) \<Rightarrow> string \<Rightarrow> disk \<Rightarrow> (u64 \<times> table_layer) db_result" where
  "open_table crc name d =
     and_then (ok_or (Message (''ThingDB manifest references missing table: '' @ name)) (hm_get (d_files d) name))
       (open_layer crc name)"

definition publish_table ::
    "(bytes \<Rightarrow> u32) \<Rightarrow> string option \<Rightarrow> string option \<Rightarrow> string \<Rightarrow> u64 \<Rightarrow> memtable \<Rightarrow> string list \<Rightarrow> unit engine" where
  "publish_table crc thread_fault fault_point table_name next_sequence entries table_files =
     st_then (st_try (maybe_fail ''before-table-write'' fault_point)) (\<lambda>_.
     st_then (write_temp_table crc table_name next_sequence entries) (\<lambda>_.
     st_then (st_try (maybe_fail ''after-table-sync-before-rename'' fault_point)) (\<lambda>_.
     st_then (st_try (maybe_fail ''before-table-rename'' fault_point)) (\<lambda>_.
     st_then (st_do (set_disk (rename_file (temp_name table_name) table_name))) (\<lambda>_.
     st_then (st_try (maybe_fail ''after-table-rename-before-manifest'' fault_point)) (\<lambda>_.
     st_then (st_try (maybe_fail ''before-manifest-write'' fault_point)) (\<lambda>_.
     st_then (write_manifest thread_fault \<lparr>m_format_version = FORMAT_VERSION, m_table_file = Some table_name,
                m_table_files = table_files, m_table_sequence = next_sequence\<rparr>) (\<lambda>_.
     st_try (maybe_fail ''after-manifest-rename-before-wal-truncate'' fault_point)))))))))"

definition truncate_wal :: "nat \<Rightarrow> inner \<Rightarrow> inner" where
  "truncate_wal n s = (set_disk (\<lambda>d. d\<lparr>d_wal := take n (d_wal d)\<rparr>) s)\<lparr>i_journal_bytes := n\<rparr>"

definition flush_updates ::
    "(bytes \<Rightarrow> u32) \<Rightarrow> string option \<Rightarrow> string option \<Rightarrow> memtable \<Rightarrow> unit engine" where
  "flush_updates crc thread_fault fault_point updates s =
     (let next_sequence = i_sequence s;
          table_name = flush_table_name next_sequence (length (i_table_files s));
          table_files = i_table_files s @ [table_name]
      in st_then (publish_table crc thread_fault fault_point table_name next_sequence updates table_files) (\<lambda>_.
         st_then (st_do (\<lambda>s. s\<lparr>i_table_files := table_files\<rparr>)) (\<lambda>_.
         st_then (\<lambda>s. (open_table crc table_name (i_disk s), s)) (\<lambda>(_, layer).
         st_do (\<lambda>s. (truncate_wal 0 (s\<lparr>i_table_layers := i_table_layers s @ [layer],
           i_table_sequence := next_sequence, i_state := [], i_pending_bytes := 0\<rparr>))\<lparr>i_frame_count := 0\<rparr>)))) s)"

definition flush_table_locked :: "(bytes \<Rightarrow> u32) \<Rightarrow> string option \<Rightarrow> string option \<Rightarrow> unit engine" where
  "flush_table_locked crc thread_fault fault_point s =
     (if i_recovery_required s
      then (Err (Message ''ThingDB requires reopen and recovery before writing''), s)
      else if i_pending s = [] then (Ok (), s)
      else
        let updates = i_pending s;
            update_bytes = i_pending_bytes s;
            (result, s) = flush_updates crc thread_fault fault_point updates (s\<lparr>i_pending := []\<rparr>);
            s = (case result of
                   Inl _ \<Rightarrow> s\<lparr>i_pending := updates, i_pending_bytes := update_bytes\<rparr>
                 | Inr _ \<Rightarrow> s)
        in (result, s\<lparr>i_generation := sat_add (i_generation s) 1\<rparr>))"

definition remove_tables :: "string list \<Rightarrow> disk \<Rightarrow> disk" where
  "remove_tables names d = d\<lparr>d_files := fold hm_remove names (d_files d)\<rparr>"

text \<open>The size of the tables that go into a compaction; it fails if an index cannot be loaded.\<close>

fun compaction_input_bytes :: "(bytes \<Rightarrow> u32) \<Rightarrow> table_layer list \<Rightarrow> nat db_result" where
  "compaction_input_bytes crc [] = Ok 0"
| "compaction_input_bytes crc (layer # layers) =
     and_then (loaded_entries crc layer) (\<lambda>entries.
     and_then (compaction_input_bytes crc layers) (\<lambda>n.
     Ok (sat_add (sum_list (map te_length entries)) n)))"

definition compact_tables_locked :: "(bytes \<Rightarrow> u32) \<Rightarrow> string option \<Rightarrow> string option \<Rightarrow> unit engine" where
  "compact_tables_locked crc thread_fault fault_point s =
     (if i_recovery_required s
      then (Err (Message ''ThingDB requires reopen and recovery before writing''), s)
      else
        let next_sequence = i_sequence s;
            table_name = compact_table_name next_sequence
        in st_then (st_try (compaction_input_bytes crc (i_table_layers s))) (\<lambda>_.
           st_then (st_try (materialize_state crc s)) (\<lambda>st.
           st_then (publish_table crc thread_fault fault_point table_name next_sequence
                      (map (\<lambda>(k, v). (k, Some v)) st) [table_name]) (\<lambda>_.
           st_then (st_do (\<lambda>s. set_disk (remove_tables (filter (\<lambda>old. old \<noteq> table_name) (i_table_files s))) s)) (\<lambda>_.
           st_then (st_do (\<lambda>s. s\<lparr>i_table_files := [table_name]\<rparr>)) (\<lambda>_.
           st_then (\<lambda>s. (open_table crc table_name (i_disk s), s)) (\<lambda>(_, layer).
           st_do (\<lambda>s. (truncate_wal 0 (s\<lparr>i_table_layers := [layer], i_table_sequence := next_sequence,
             i_state := [], i_pending := [], i_pending_bytes := 0,
             i_generation := sat_add (i_generation s) 1\<rparr>))\<lparr>i_frame_count := 0\<rparr>))))))) s)"

section \<open>Commits\<close>

record commit_request =
  cr_operations :: "operation list"
  cr_fault_point :: "string option"

text \<open>What the operating system does with one group: bytes appended before a write error, and
  whether the sync, the truncation and the start of the flush thread succeed.\<close>

record commit_io =
  io_short_write :: "nat option"
  io_sync_ok :: bool
  io_set_len_ok :: bool
  io_spawn_ok :: bool

definition value_bytes :: "bytes option \<Rightarrow> nat" where
  "value_bytes v = (case v of None \<Rightarrow> 0 | Some b \<Rightarrow> length b)"

definition apply_operation_with_pending :: "operation \<Rightarrow> inner \<Rightarrow> inner" where
  "apply_operation_with_pending operation s =
     (case operation of
        Put k v \<Rightarrow>
          let n = (case bm_get (i_pending s) k of
                     Some previous \<Rightarrow> i_pending_bytes s - sat_add (sat_add (length k) 1) (value_bytes previous)
                   | None \<Rightarrow> i_pending_bytes s)
          in s\<lparr>i_state := bm_insert k v (i_state s), i_pending := bm_insert k (Some v) (i_pending s),
               i_pending_bytes := sat_add n (sat_add (sat_add (length k) 1) (length v))\<rparr>
      | Delete k \<Rightarrow>
          let n = (case bm_get (i_pending s) k of
                     Some previous \<Rightarrow> i_pending_bytes s - sat_add (sat_add (length k) 1) (value_bytes previous)
                   | None \<Rightarrow> i_pending_bytes s)
          in s\<lparr>i_state := bm_remove k (i_state s), i_pending := bm_insert k None (i_pending s),
               i_pending_bytes := sat_add n (sat_add (length k) 1)\<rparr>)"

definition request_has_fault :: "commit_request list \<Rightarrow> string \<Rightarrow> string option" where
  "request_has_fault requests point =
     (if \<exists>r \<in> set requests. cr_fault_point r = Some point then Some point else None)"

definition schedule_background_flush :: "commit_io \<Rightarrow> inner \<Rightarrow> bool \<times> inner" where
  "schedule_background_flush io s =
     (if i_flush_scheduled s then (True, s)
      else if io_spawn_ok io then (True, s\<lparr>i_flush_scheduled := True\<rparr>)
      else (False, s))"

text \<open>The maintenance at the end of a group: flush now, or have the background thread flush.\<close>

definition after_apply :: "(bytes \<Rightarrow> u32) \<Rightarrow> commit_io \<Rightarrow> commit_request list \<Rightarrow> unit engine" where
  "after_apply crc io requests s =
     (let wal_over_budget = (i_max_journaling_size s > 0 \<and> i_journal_bytes s \<ge> i_max_journaling_size s)
      in if i_pending_bytes s \<ge> i_max_memtable_bytes s \<or> wal_over_budget then
           if i_max_memtable_bytes s \<le> 1 \<or> request_has_fault requests ''before-table-write'' \<noteq> None
           then st_then (flush_table_locked crc None (request_has_fault requests ''before-table-write'')) (\<lambda>_ s.
                if length (i_table_layers s) \<ge> i_max_table_layers s
                then compact_tables_locked crc None None s else (Ok (), s)) s
           else
             case schedule_background_flush io s of
               (True, s) \<Rightarrow> (Ok (), s)
             | (False, s) \<Rightarrow> (Err (Message ''ThingDB could not start its background flush worker''),
                             s\<lparr>i_recovery_required := True\<rparr>)
         else (Ok (), s))"

definition group_conflict :: "u64 \<Rightarrow> nat \<Rightarrow> inner \<Rightarrow> bool" where
  "group_conflict expected_sequence expected_generation s \<longleftrightarrow>
     i_recovery_required s \<or> sat_inc (i_sequence s) \<noteq> expected_sequence \<or> i_generation s \<noteq> expected_generation"

definition fail_group :: "commit_request list \<Rightarrow> string \<Rightarrow> unit db_result" where
  "fail_group requests point = maybe_fail point (request_has_fault requests point)"

text \<open>\<open>next_sequence.saturating_sub(1)\<close>\<close>

definition sat_dec :: "u64 \<Rightarrow> u64" where
  "sat_dec w = (if w = 0 then 0 else w - 1)"

text \<open>
  \<open>execute_group\<close>: the result, whether the group was synced, and the new state. The append,
  then the sync, then the operations applied in order; an error after the append and before the
  sync cuts the log back to where the group began.
\<close>

definition append_wal :: "bytes \<Rightarrow> inner \<Rightarrow> inner" where
  "append_wal bs = set_disk (\<lambda>d. d\<lparr>d_wal := d_wal d @ bs\<rparr>)"

definition undo_append :: "commit_io \<Rightarrow> nat \<Rightarrow> inner \<Rightarrow> inner" where
  "undo_append io wal_start s = (if io_set_len_ok io then truncate_wal wal_start s else s)"

definition apply_group :: "commit_request list \<Rightarrow> u64 \<Rightarrow> inner \<Rightarrow> inner" where
  "apply_group requests next_sequence s =
     (fold apply_operation_with_pending (concat (map cr_operations requests)) s)
       \<lparr>i_sequence := sat_dec next_sequence, i_generation := sat_add (i_generation s) 1,
        i_frame_count := sat_add (i_frame_count s) (length requests)\<rparr>"

definition execute_group ::
    "(bytes \<Rightarrow> u32) \<Rightarrow> commit_io \<Rightarrow> commit_request list \<Rightarrow> u64 \<Rightarrow> nat \<Rightarrow> nat \<Rightarrow> inner
      \<Rightarrow> unit db_result \<times> bool \<times> inner" where
  "execute_group crc io requests expected_sequence expected_generation wal_start s =
     (case encode_group crc [] expected_sequence (map cr_operations requests) of
        Inl e \<Rightarrow> (Err e, False, s)
      | Inr (wal_buffer, next_sequence) \<Rightarrow>
          case fail_group requests ''before-wal-append'' of
            Inl e \<Rightarrow> (Err e, False, s)
          | Inr _ \<Rightarrow>
            if group_conflict expected_sequence expected_generation s
            then (Err (Message ''ThingDB commit state changed while preparing WAL frames''), False, s)
            else case io_short_write io of
              Some n \<Rightarrow> (Err (Message ''write error''), False, append_wal (take n wal_buffer) s)
            | None \<Rightarrow>
              let s = append_wal wal_buffer s in
              case fail_group requests ''after-wal-write-before-sync'' of
                Inl e \<Rightarrow> (Err e, False, undo_append io wal_start s)
              | Inr _ \<Rightarrow>
                if \<not> io_sync_ok io then (Err (Message ''sync error''), False, undo_append io wal_start s)
                else
                  let s = s\<lparr>i_journal_bytes := sat_add wal_start (length wal_buffer)\<rparr> in
                  case fail_group requests ''after-wal-sync-before-state-apply'' of
                    Inl e \<Rightarrow> (Err e, True, s)
                  | Inr _ \<Rightarrow>
                    if group_conflict expected_sequence expected_generation s
                    then (Err (Message ''ThingDB commit state changed before state application''), True, s)
                    else case after_apply crc io requests (apply_group requests next_sequence s) of
                      (r, s) \<Rightarrow> (r, True, s))"

definition process_group ::
    "(bytes \<Rightarrow> u32) \<Rightarrow> commit_io \<Rightarrow> commit_request list \<Rightarrow> unit engine" where
  "process_group crc io requests s =
     (if i_recovery_required s
      then (Err (Message ''ThingDB requires reopen and recovery before writing''), s)
      else
        case (if i_max_memtable_bytes s > 1 \<and> i_pending_bytes s \<ge> sat_mul (i_max_memtable_bytes s) 2
              then flush_table_locked crc None None s else (Ok (), s)) of
          (Inl e, s) \<Rightarrow> (Err e, s\<lparr>i_recovery_required := True\<rparr>)
        | (Inr _, s) \<Rightarrow>
            case execute_group crc io requests (sat_inc (i_sequence s)) (i_generation s) (i_journal_bytes s) s of
              (Inl e, synced, s) \<Rightarrow> (Err e, if synced then s\<lparr>i_recovery_required := True\<rparr> else s)
            | (Inr _, _, s) \<Rightarrow> (Ok (), s))"

text \<open>One round of the background flush thread; the result says whether it goes on.\<close>

definition background_flush_round :: "(bytes \<Rightarrow> u32) \<Rightarrow> inner \<Rightarrow> bool \<times> inner" where
  "background_flush_round crc s =
     (if i_recovery_required s \<or> i_pending s = [] then (False, s)
      else case flush_table_locked crc None None s of
        (Inl e, s) \<Rightarrow> (False, s\<lparr>i_recovery_required := True\<rparr>)
      | (Inr _, s) \<Rightarrow>
          case (if length (i_table_layers s) \<ge> i_max_table_layers s
                then compact_tables_locked crc None None s else (Ok (), s)) of
            (Inl e, s) \<Rightarrow> (False, s\<lparr>i_recovery_required := True\<rparr>)
          | (Inr _, s) \<Rightarrow> (i_pending_bytes s \<ge> i_max_memtable_bytes s, s))"

section \<open>Opening\<close>

record db_options =
  o_max_journaling_size :: nat
  o_max_memtable_bytes :: nat
  o_max_table_layers :: nat

fun open_tables :: "(bytes \<Rightarrow> u32) \<Rightarrow> disk \<Rightarrow> u64 \<Rightarrow> u64 \<Rightarrow> string list \<Rightarrow> table_layer list db_result" where
  "open_tables crc d table_sequence previous_sequence [] = Ok []"
| "open_tables crc d table_sequence previous_sequence (f # fs) =
     and_then (open_table crc f d) (\<lambda>(sequence, layer).
     and_then (reject_if (sequence > table_sequence) (Message ''table sequence exceeds manifest sequence'')) (\<lambda>_.
     and_then (reject_if (sequence < previous_sequence) (Message ''ThingDB table layers are not in sequence order'')) (\<lambda>_.
     and_then (open_tables crc d table_sequence sequence fs) (\<lambda>layers. Ok (layer # layers)))))"

definition load_manifest :: "disk \<Rightarrow> manifest option db_result" where
  "load_manifest d =
     (case d_manifest d of
        No_Manifest \<Rightarrow> Ok None
      | Bad_Manifest \<Rightarrow> Err (Message ''invalid manifest'')
      | Manifest_File m \<Rightarrow>
          and_then (reject_if (m_format_version m \<noteq> FORMAT_VERSION)
                     (Message (''unsupported ThingDB format version '' @ decimal (m_format_version m)))) (\<lambda>_.
          and_then (validate_manifest m) (\<lambda>_. Ok (Some m))))"

definition open_locked :: "(bytes \<Rightarrow> u32) \<Rightarrow> string option \<Rightarrow> db_options \<Rightarrow> disk \<Rightarrow> inner db_result \<times> disk" where
  "open_locked crc thread_fault opts d0 =
     (let d = cleanup_temporary_files d0;
          opened =
            and_then (load_manifest d) (\<lambda>manifest.
            let table_files = (case manifest of None \<Rightarrow> [] | Some m \<Rightarrow> manifest_tables m);
                table_sequence = (case manifest of None \<Rightarrow> 0 | Some m \<Rightarrow> m_table_sequence m)
            in and_then (open_tables crc d table_sequence 0 table_files) (\<lambda>layers.
               and_then (replay_wal crc (d_wal d) table_sequence []) (\<lambda>(last_sequence, valid_offset, frame_count, st).
               Ok (manifest, \<lparr>i_disk = d\<lparr>d_wal := take valid_offset (d_wal d)\<rparr>, i_state = st,
                 i_sequence = max last_sequence table_sequence, i_table_sequence = table_sequence,
                 i_table_files = table_files, i_table_layers = layers, i_pending = [], i_pending_bytes = 0,
                 i_max_journaling_size = o_max_journaling_size opts,
                 i_max_memtable_bytes = o_max_memtable_bytes opts,
                 i_max_table_layers = o_max_table_layers opts,
                 i_journal_bytes = valid_offset, i_frame_count = frame_count,
                 i_cache = bc_with_capacity TABLE_BLOCK_CACHE_BYTES, i_recovery_required = False,
                 i_generation = 0, i_flush_scheduled = False\<rparr>))))
      in case opened of
           Inl e \<Rightarrow> (Err e, d)
         | Inr (Some _, s) \<Rightarrow> (Ok s, i_disk s)
         | Inr (None, s) \<Rightarrow>
             (case write_manifest thread_fault \<lparr>m_format_version = FORMAT_VERSION, m_table_file = None,
                 m_table_files = [], m_table_sequence = 0\<rparr> s of
                (Inl e, s) \<Rightarrow> (Err e, i_disk s)
              | (Inr _, s) \<Rightarrow> (Ok s, i_disk s)))"

text \<open>\<open>DatabaseBuilder::open\<close>: the lock file is taken first and released on failure.\<close>

definition open_database :: "(bytes \<Rightarrow> u32) \<Rightarrow> string option \<Rightarrow> db_options \<Rightarrow> disk \<Rightarrow> inner db_result \<times> disk" where
  "open_database crc thread_fault opts d =
     (if d_lock d then (Err (Message ''database is locked''), d)
      else case open_locked crc thread_fault opts (d\<lparr>d_lock := True\<rparr>) of
        (Inl e, d) \<Rightarrow> (Err e, d\<lparr>d_lock := False\<rparr>)
      | (Inr s, d) \<Rightarrow> (Ok s, d))"

end
