(* ===== verification/Engine_Names.thy ===== *)
theory Engine_Names
  imports Engine
begin

text \<open>
  The names of table files: a flush or a compaction at a later sequence number has a name that is
  new and greater than every earlier one, because the number is printed with a fixed width. The
  crash-safety of a flush rests on this: publishing a table never overwrites one the manifest
  refers to, and the manifest it writes passes \<open>validate_manifest\<close>.
\<close>

section \<open>Table names\<close>

text \<open>The names written up to a sequence number.\<close>

definition table_name :: "u64 \<Rightarrow> string \<Rightarrow> bool" where
  "table_name ts n \<longleftrightarrow> (\<exists>s. s \<le> ts \<and> ((\<exists>i. n = flush_table_name s i) \<or> n = compact_table_name s))"

lemma table_name_shape:
  assumes "table_name ts n"
  obtains s r where "s \<le> ts" "n = ''table-'' @ zero_padded 20 (unat s) @ r" "CHR ''/'' \<notin> set r"
proof -
  have slash: "CHR ''/'' \<notin> set (zero_padded w n)" for w n
    using zero_padded_digits [of w n] by (auto simp: is_digits_def)
  show ?thesis
    using assms that slash by (fastforce simp: table_name_def flush_table_name_def compact_table_name_def)
qed

lemma table_name_mono: "table_name ts n \<Longrightarrow> ts \<le> ts' \<Longrightarrow> table_name ts' n"
  unfolding table_name_def by (blast intro: order_trans)

lemma table_name_new [simp]:
  "table_name s (flush_table_name s i)" "table_name s (compact_table_name s)"
  by (auto simp: table_name_def)

lemma table_name_less:
  assumes "table_name ts n" "ts < s"
  shows "n < flush_table_name s i" "n < compact_table_name s"
proof -
  obtain s0 r where n: "s0 \<le> ts" "n = ''table-'' @ zero_padded 20 (unat s0) @ r"
    using assms(1) by (rule table_name_shape)
  have "unat s0 < unat s"
    using n(1) assms(2) by (simp add: word_less_nat_alt word_le_nat_alt)
  then have "zero_padded 20 (unat s0) @ r < zero_padded 20 (unat s) @ t" for t
    by (intro digits_less) (simp_all add: zero_padded_digits)
  then show "n < flush_table_name s i" "n < compact_table_name s"
    by (simp_all add: n(2) flush_table_name_def compact_table_name_def)
qed

lemma table_name_fresh:
  "table_name ts n \<Longrightarrow> ts < s \<Longrightarrow> n \<noteq> flush_table_name s i"
  "table_name ts n \<Longrightarrow> ts < s \<Longrightarrow> n \<noteq> compact_table_name s"
  using table_name_less by fastforce+

lemma split_on_absent: "c \<notin> set xs \<Longrightarrow> split_on c xs = [xs]"
  by (induction xs) auto

lemma table_name_valid:
  assumes "table_name ts n"
  shows "validate_table_name n = Ok ()"
proof -
  obtain s r where "s \<le> ts" and n: "n = ''table-'' @ zero_padded 20 (unat s) @ r" "CHR ''/'' \<notin> set r"
    using assms by (rule table_name_shape)
  have "CHR ''/'' \<notin> set n"
    using n zero_padded_digits [of 20 "unat s"] by (auto simp: is_digits_def)
  then show ?thesis
    using n(1) by (simp add: validate_table_name_def split_on_absent)
qed

lemma table_name_not_temp: "table_name ts n \<Longrightarrow> n \<noteq> temp_name m" "table_name ts n \<Longrightarrow> \<not> prefix ''.table-'' n"
  by (auto simp: temp_name_def prefix_def elim!: table_name_shape)

lemma names_ascending_sorted: "names_ascending fs \<longleftrightarrow> sorted_wrt (<) fs"
  by (induction fs rule: names_ascending.induct) (auto intro: less_trans)

lemma validate_names_ok:
  "(\<And>f. f \<in> set fs \<Longrightarrow> validate_table_name f = Ok ()) \<Longrightarrow> distinct fs \<Longrightarrow> set fs \<inter> set seen = {} \<Longrightarrow>
   validate_names seen fs = Ok ()"
  by (induction fs arbitrary: seen) auto

text \<open>The manifests a flush and a compaction write.\<close>

lemma validate_manifest_ok:
  assumes "m_table_files m = fs" "fs \<noteq> []" "\<forall>f \<in> set fs. table_name ts f" "sorted_wrt (<) fs"
    "m_table_file m = Some (last fs)"
  shows "validate_manifest m = Ok ()" "manifest_tables m = fs"
proof -
  have "distinct fs"
    using assms(4) by (simp add: strict_sorted_iff)
  then have "validate_names [] fs = Ok ()"
    using assms(3) by (intro validate_names_ok) (auto simp: table_name_valid)
  moreover have "validate_table_name (last fs) = Ok ()"
    using assms(2,3) table_name_valid [of ts "last fs"] by simp
  ultimately show "validate_manifest m = Ok ()" "manifest_tables m = fs"
    using assms by (auto simp: validate_manifest_def manifest_tables_def names_ascending_sorted reject_if_def)
qed

end
