(* ===== verification/Engine_View.thy ===== *)
theory Engine_View
  imports Engine_Names
begin

text \<open>
  What the durable engine means to its callers: the map from keys to values that
  \<open>get_durable_value\<close> answers (\<open>engine_view\<close>), and the invariant \<open>mem_ok\<close> on the
  in-memory structures under which the view is the memtable over the mutable state over the
  table layers. Reads leave the view alone, commits apply their operations to it, and flushes
  and compactions do not change it.
\<close>

section \<open>The view\<close>

definition engine_view :: "(bytes \<Rightarrow> u32) \<Rightarrow> inner \<Rightarrow> bytes \<Rightarrow> bytes option" where
  "engine_view crc s key = (case fst (get_durable_value crc key s) of Inr v \<Rightarrow> v | Inl _ \<Rightarrow> None)"

text \<open>A stack of memtables, newest first, and the same flattened to values.\<close>

fun layered :: "memtable list \<Rightarrow> bytes \<Rightarrow> bytes option option" where
  "layered [] key = None"
| "layered (es # ess) key = (case bm_get es key of Some v \<Rightarrow> Some v | None \<Rightarrow> layered ess key)"

definition flat :: "bytes option option \<Rightarrow> bytes option" where
  "flat v = (case v of Some v \<Rightarrow> v | None \<Rightarrow> None)"

lemma flat_simps [simp]: "flat None = None" "flat (Some v) = v"
  by (simp_all add: flat_def)

definition cache_ok :: "u64 \<Rightarrow> table_layer list \<Rightarrow> table_cache \<Rightarrow> bool" where
  "cache_ok ts layers cache \<longleftrightarrow> (\<exists>src. bc_coherent src cache \<and> (\<forall>l \<in> set layers. block_source src l) \<and>
     (\<forall>p off. src (p, off) \<noteq> None \<longrightarrow> table_name ts p \<and> (p = compact_table_name ts \<longrightarrow> p \<in> tl_path ` set layers)) \<and>
     (\<forall>l \<in> set layers. table_name ts (tl_path l)))"

definition mem_ok :: "(bytes \<Rightarrow> u32) \<Rightarrow> memtable list \<Rightarrow> inner \<Rightarrow> bool" where
  "mem_ok crc ess s \<longleftrightarrow> list_all2 (layer_holds crc) ess (i_table_layers s) \<and>
     bm_ok (i_pending s) \<and> bm_ok (i_state s) \<and>
     cache_ok (i_table_sequence s) (i_table_layers s) (i_cache s)"

definition stacked :: "memtable \<Rightarrow> kv_state \<Rightarrow> memtable list \<Rightarrow> bytes \<Rightarrow> bytes option" where
  "stacked pending st ess key =
     (case bm_get pending key of
        Some v \<Rightarrow> v
      | None \<Rightarrow> (case bm_get st key of Some v \<Rightarrow> Some v | None \<Rightarrow> flat (layered (rev ess) key)))"

lemma lookup_layers_ok:
  assumes "list_all2 (layer_holds crc) ess layers" "bc_coherent src cache" "\<forall>l \<in> set layers. block_source src l"
  shows "\<exists>cache'. lookup_layers crc layers key cache = (Ok (flat (layered ess key)), cache') \<and> bc_coherent src cache'"
  using assms
proof (induction ess layers arbitrary: cache rule: list_all2_induct)
  case (Cons es ess layer layers)
  obtain cache' where c: "lookup_layer crc layer key cache = (Ok (bm_get es key), cache')" "bc_coherent src cache'"
    using lookup_layer_ok [OF Cons.hyps(1) Cons.prems(1)] Cons.prems(2) by auto
  show ?case
  proof (cases "bm_get es key")
    case None
    then show ?thesis
      using Cons.IH [OF c(2)] Cons.prems(2) c(1) by simp
  next
    case (Some v)
    then show ?thesis
      using c by simp
  qed
qed simp

lemma get_durable_value_ok:
  assumes "mem_ok crc ess s"
  shows "\<exists>cache'. get_durable_value crc key s = (Ok (stacked (i_pending s) (i_state s) ess key), s\<lparr>i_cache := cache'\<rparr>) \<and>
    cache_ok (i_table_sequence s) (i_table_layers s) cache'"
proof -
  obtain src where src: "bc_coherent src (i_cache s)" "\<forall>l \<in> set (i_table_layers s). block_source src l"
    "\<forall>p off. src (p, off) \<noteq> None \<longrightarrow> table_name (i_table_sequence s) p \<and>
      (p = compact_table_name (i_table_sequence s) \<longrightarrow> p \<in> tl_path ` set (i_table_layers s))"
    "\<forall>l \<in> set (i_table_layers s). table_name (i_table_sequence s) (tl_path l)"
    using assms by (auto simp: mem_ok_def cache_ok_def)
  have layers: "list_all2 (layer_holds crc) (rev ess) (rev (i_table_layers s))"
    using assms by (simp add: mem_ok_def)
  obtain cache' where c: "lookup_layers crc (rev (i_table_layers s)) key (i_cache s) =
      (Ok (flat (layered (rev ess) key)), cache')" "bc_coherent src cache'"
    using lookup_layers_ok [OF layers src(1), of key] src(2) by auto
  have cache: "cache_ok (i_table_sequence s) (i_table_layers s) (i_cache s)"
    using assms by (simp add: mem_ok_def)
  have cache': "cache_ok (i_table_sequence s) (i_table_layers s) cache'"
    using src c(2) unfolding cache_ok_def by blast
  show ?thesis
  proof (cases "bm_get (i_pending s) key = None \<and> bm_get (i_state s) key = None")
    case True
    then show ?thesis
      using c(1) cache' by (intro exI [of _ cache']) (simp add: get_durable_value_def stacked_def)
  next
    case False
    then show ?thesis
      using cache by (intro exI [of _ "i_cache s"])
        (auto simp: get_durable_value_def stacked_def split: option.splits)
  qed
qed

lemma engine_view_stacked:
  assumes "mem_ok crc ess s"
  shows "engine_view crc s = stacked (i_pending s) (i_state s) ess"
proof
  fix key
  show "engine_view crc s key = stacked (i_pending s) (i_state s) ess key"
    using get_durable_value_ok [OF assms, of key] by (auto simp: engine_view_def)
qed

lemma mem_ok_cache:
  "mem_ok crc ess s \<Longrightarrow> cache_ok (i_table_sequence s) (i_table_layers s) cache' \<Longrightarrow> mem_ok crc ess (s\<lparr>i_cache := cache'\<rparr>)"
  by (simp add: mem_ok_def)

lemma resolve_keys_ok:
  assumes "list_all2 (layer_holds crc) ess layers" "bc_coherent src cache" "\<forall>l \<in> set layers. block_source src l"
  shows "fst (resolve_keys crc layers keys cache) =
    Ok (map (\<lambda>(key, r). case r of Some v \<Rightarrow> v | None \<Rightarrow> flat (layered ess key)) keys)"
  using assms(2)
proof (induction keys arbitrary: cache)
  case (Cons p keys)
  obtain key r where p: "p = (key, r)" by (cases p)
  show ?case
  proof (cases r)
    case None
    obtain cache' where "lookup_layers crc layers key cache = (Ok (flat (layered ess key)), cache')" "bc_coherent src cache'"
      using lookup_layers_ok [OF assms(1) Cons.prems assms(3)] by blast
    then show ?thesis
      using Cons.IH [of cache'] None p by (auto split: prod.splits sum.splits)
  next
    case (Some v)
    then show ?thesis
      using Cons.IH [OF Cons.prems] p by (auto split: prod.splits sum.splits)
  qed
qed simp

section \<open>Publishing a table\<close>

text \<open>The states of the directory between the writes of \<open>publish_table\<close>.\<close>

definition publish_stage :: "bytes \<Rightarrow> string \<Rightarrow> manifest \<Rightarrow> nat \<Rightarrow> disk \<Rightarrow> disk" where
  "publish_stage bs name m i d =
     (let d1 = d\<lparr>d_files := hm_insert (temp_name name) bs (d_files d)\<rparr>;
          d2 = rename_file (temp_name name) name d1;
          d3 = d2\<lparr>d_manifest_temp := Some m\<rparr>;
          d4 = d3\<lparr>d_manifest := Manifest_File m, d_manifest_temp := None\<rparr>
      in if i = 0 then d else if i = 1 then d1 else if i = 2 then d2 else if i = 3 then d3 else d4)"

definition new_manifest :: "string \<Rightarrow> string list \<Rightarrow> u64 \<Rightarrow> manifest" where
  "new_manifest name table_files sequence = \<lparr>m_format_version = FORMAT_VERSION, m_table_file = Some name,
     m_table_files = table_files, m_table_sequence = sequence\<rparr>"

lemma maybe_fail_None [simp]: "maybe_fail p None = Ok ()"
  by (simp add: maybe_fail_def)

lemma maybe_fail_step:
  "st_then (st_try (maybe_fail q fp)) f s =
    (if fp = Some q then (Err (Message (''injected ThingDB fault: '' @ q)), s) else f () s)"
  "st_try (maybe_fail q fp) s =
    (if fp = Some q then (Err (Message (''injected ThingDB fault: '' @ q)), s) else (Ok (), s))"
  by (simp_all add: maybe_fail_def st_try_def)

lemma st_then_assoc: "st_then (st_then m f) g s = st_then m (\<lambda>a. st_then (f a) g) s"
  by (simp add: st_then_def split: prod.split sum.split)

definition injected :: "string \<Rightarrow> unit db_result" where
  "injected q = Err (Message (''injected ThingDB fault: '' @ q))"

definition publish_outcome :: "string option \<Rightarrow> string option \<Rightarrow> unit db_result \<times> nat" where
  "publish_outcome tf fp =
     (if fp = Some ''before-table-write'' then (injected ''before-table-write'', 0)
      else if fp = Some ''after-table-sync-before-rename'' then (injected ''after-table-sync-before-rename'', 1)
      else if fp = Some ''before-table-rename'' then (injected ''before-table-rename'', 1)
      else if fp = Some ''after-table-rename-before-manifest'' then (injected ''after-table-rename-before-manifest'', 2)
      else if fp = Some ''before-manifest-write'' then (injected ''before-manifest-write'', 2)
      else if tf = Some ''after-manifest-sync-before-rename'' then (injected ''after-manifest-sync-before-rename'', 3)
      else if fp = Some ''after-manifest-rename-before-wal-truncate''
      then (injected ''after-manifest-rename-before-wal-truncate'', 4)
      else (Ok (), 4))"

lemma publish_outcome_ok:
  "fst (publish_outcome tf fp) = Ok () \<Longrightarrow> snd (publish_outcome tf fp) = 4"
  "publish_outcome None None = (Ok (), 4)"
  by (simp_all add: publish_outcome_def injected_def split: if_splits)

lemma publish_table_outcome:
  assumes "write_table crc sequence entries = Ok bs"
  shows "publish_table crc tf fp name sequence entries table_files s =
    (fst (publish_outcome tf fp), s\<lparr>i_disk := publish_stage bs name (new_manifest name table_files sequence)
      (snd (publish_outcome tf fp)) (i_disk s)\<rparr>)"
proof -
  define d1 where "d1 = (i_disk s)\<lparr>d_files := hm_insert (temp_name name) bs (d_files (i_disk s))\<rparr>"
  define d2 where "d2 = rename_file (temp_name name) name d1"
  define m where "m = new_manifest name table_files sequence"
  have stages: "publish_stage bs name m 0 (i_disk s) = i_disk s" "publish_stage bs name m 1 (i_disk s) = d1"
    "publish_stage bs name m 2 (i_disk s) = d2" "publish_stage bs name m 3 (i_disk s) = d2\<lparr>d_manifest_temp := Some m\<rparr>"
    "publish_stage bs name m 4 (i_disk s) = d2\<lparr>d_manifest := Manifest_File m, d_manifest_temp := None\<rparr>"
    by (simp_all add: publish_stage_def d1_def d2_def Let_def)
  have wr: "st_then (write_temp_table crc name sequence entries) f t =
      f () (t\<lparr>i_disk := (i_disk t)\<lparr>d_files := hm_insert (temp_name name) bs (d_files (i_disk t))\<rparr>\<rparr>)" for f t
    using assms by (simp add: write_temp_table_def set_disk_def st_then_assoc)
  have man: "st_then (write_manifest tf m) f t =
      (if tf = Some ''after-manifest-sync-before-rename''
       then (injected ''after-manifest-sync-before-rename'', t\<lparr>i_disk := (i_disk t)\<lparr>d_manifest_temp := Some m\<rparr>\<rparr>)
       else f () (t\<lparr>i_disk := (i_disk t)\<lparr>d_manifest := Manifest_File m, d_manifest_temp := None\<rparr>\<rparr>))" for f t
    by (simp add: write_manifest_def set_disk_def st_then_assoc maybe_fail_step injected_def)
  show ?thesis
    unfolding publish_table_def new_manifest_def [symmetric] m_def [symmetric] wr man maybe_fail_step
      injected_def [symmetric] st_then_do set_disk_def
    by (simp add: publish_outcome_def stages d1_def [symmetric] d2_def [symmetric] del: One_nat_def)
qed

lemma publish_stage_4_file:
  assumes "table_name ts name"
  shows "hm_get (d_files (publish_stage bs name m 4 d)) name = Some bs"
  using table_name_not_temp(1) [OF assms, of name] by (simp add: publish_stage_def rename_file_def)

lemma hm_get_fold_remove: "k \<notin> set ks \<Longrightarrow> hm_get (fold hm_remove ks m) k = hm_get m k"
  by (induction ks arbitrary: m) auto

section \<open>Flush\<close>

lemma flush_failed:
  assumes "\<not> i_recovery_required s" "i_pending s \<noteq> []"
    "write_table crc (i_sequence s) (i_pending s) = Ok bs" "fst (publish_outcome tf fp) = Err e"
  defines "name \<equiv> flush_table_name (i_sequence s) (length (i_table_files s))"
  shows "flush_table_locked crc tf fp s =
    (Err e, s\<lparr>i_disk := publish_stage bs name (new_manifest name (i_table_files s @ [name]) (i_sequence s))
        (snd (publish_outcome tf fp)) (i_disk s), i_generation := sat_add (i_generation s) 1\<rparr>)"
  using assms by (simp add: flush_table_locked_def flush_updates_def publish_table_outcome Let_def)

lemma flush_done:
  assumes "\<not> i_recovery_required s" "i_pending s \<noteq> []" "fst (publish_outcome tf fp) = Ok ()"
    "write_table crc (i_sequence s) (i_pending s) = Ok bs"
  defines "name \<equiv> flush_table_name (i_sequence s) (length (i_table_files s))"
  assumes "open_layer crc name bs = Ok (sequence, layer)"
  shows "flush_table_locked crc tf fp s =
    (Ok (), s\<lparr>i_disk := (publish_stage bs name (new_manifest name (i_table_files s @ [name]) (i_sequence s)) 4
          (i_disk s))\<lparr>d_wal := []\<rparr>, i_state := [], i_table_sequence := i_sequence s,
        i_table_files := i_table_files s @ [name], i_table_layers := i_table_layers s @ [layer], i_pending := [],
        i_pending_bytes := 0, i_journal_bytes := 0, i_frame_count := 0,
        i_generation := sat_add (i_generation s) 1\<rparr>)"
proof -
  have "table_name (i_sequence s) name"
    by (simp add: name_def)
  then have "hm_get (d_files (publish_stage bs name m 4 d)) name = Some bs" for m d
    by (rule publish_stage_4_file)
  moreover have "snd (publish_outcome tf fp) = 4"
    using assms(3) by (rule publish_outcome_ok)
  ultimately show ?thesis
    using assms by (simp add: flush_table_locked_def flush_updates_def publish_table_outcome Let_def
        open_table_def truncate_wal_def set_disk_def st_then_def st_do_def)
qed

text \<open>The cache stays coherent when a layer with a new name joins or replaces the others.\<close>

lemma cache_ok_new_layer:
  assumes "cache_ok ts layers cache" "layer_holds crc es layer" "tl_path layer = name"
    "table_name ts' name" "\<And>n. table_name ts n \<Longrightarrow> n = compact_table_name ts \<longrightarrow> n \<in> tl_path ` set layers \<Longrightarrow> n \<noteq> name"
    "ts \<le> ts'" "set kept \<subseteq> set layers" "ts < ts' \<or> name = compact_table_name ts"
  shows "cache_ok ts' (kept @ [layer]) cache"
proof -
  obtain src where src: "bc_coherent src cache" "\<forall>l \<in> set layers. block_source src l"
    "\<forall>p off. src (p, off) \<noteq> None \<longrightarrow> table_name ts p \<and> (p = compact_table_name ts \<longrightarrow> p \<in> tl_path ` set layers)"
    "\<forall>l \<in> set layers. table_name ts (tl_path l)"
    using assms(1) unfolding cache_ok_def by blast
  obtain new where new: "block_source new layer"
    using block_source_exists [OF assms(2)] .
  define src' where "src' = (\<lambda>(p, off). if p = name then new (p, off) else src (p, off))"
  have old: "p \<noteq> name" if "src (p, off) \<noteq> None" for p off
    using src(3) assms(5) that by blast
  have "bc_coherent src' cache"
    unfolding bc_coherent_def bc_all_def
  proof (intro allI impI)
    fix k e assume "hm_get (bc_entries cache) k = Some e"
    then have "src k = Some (cb_bytes e)"
      using src(1) by (cases k) (simp add: bc_coherent_def bc_all_def)
    moreover from this have "fst k \<noteq> name"
      using old [of "fst k" "snd k"] by simp
    ultimately show "src' k = Some (cb_bytes e)"
      by (cases k) (simp add: src'_def)
  qed
  moreover have "block_source src' layer"
    using new assms(3) by (simp add: block_source_def src'_def)
  moreover have "block_source src' l" if "l \<in> set kept" for l
  proof -
    have "l \<in> set layers"
      using assms(7) that by auto
    then have "tl_path l \<noteq> name"
      using src(4) by (intro assms(5)) (auto intro: rev_image_eqI)
    then show ?thesis
      using src(2) assms(7) that by (auto simp: block_source_def src'_def)
  qed
  moreover have "\<forall>p off. src' (p, off) \<noteq> None \<longrightarrow> table_name ts' p \<and>
      (p = compact_table_name ts' \<longrightarrow> p \<in> tl_path ` set (kept @ [layer]))"
  proof (intro allI impI)
    fix p off assume "src' (p, off) \<noteq> None"
    show "table_name ts' p \<and> (p = compact_table_name ts' \<longrightarrow> p \<in> tl_path ` set (kept @ [layer]))"
    proof (cases "p = name")
      case False
      then have "table_name ts p"
        using \<open>src' (p, off) \<noteq> None\<close> src(3) by (auto simp: src'_def)
      moreover from this have "p \<noteq> compact_table_name ts'" if "ts < ts'"
        using that table_name_fresh(2) by blast
      ultimately show ?thesis
        using assms(6,8) False by (auto intro: table_name_mono dest: order_le_imp_less_or_eq)
    qed (use assms(3,4) in auto)
  qed
  moreover have "\<forall>l \<in> set (kept @ [layer]). table_name ts' (tl_path l)"
    using src(4) assms(3,4,6,7) by (auto intro: table_name_mono)
  ultimately show ?thesis
    unfolding cache_ok_def by (intro exI [of _ src']) auto
qed

lemma write_table_ok:
  assumes "table_bytes es < 2 ^ 60"
  shows "write_table crc sequence es = Ok (enc_table crc sequence es)"
  using write_table_enc [of es crc sequence] assms by (simp add: write_table_def data_start_def usize_max_def)

text \<open>
  The mutable state holds the live entries of the memtable and, where the memtable has none, those
  of \<open>base\<close>: what was recovered from the log when the database was opened.
\<close>

definition covered :: "(bytes \<Rightarrow> bytes option) \<Rightarrow> inner \<Rightarrow> bool" where
  "covered base s \<longleftrightarrow> (\<forall>k. bm_get (i_state s) k = (case bm_get (i_pending s) k of Some v \<Rightarrow> v | None \<Rightarrow> base k))"

lemma layered_snoc: "layered (rev (ess @ [es])) key = (case bm_get es key of Some v \<Rightarrow> Some v | None \<Rightarrow> layered (rev ess) key)"
  by simp

lemma stacked_covered:
  assumes "covered base s"
  shows "stacked (i_pending s) (i_state s) ess key =
    (if bm_get (i_pending s) key = None \<and> base key \<noteq> None then base key else flat (layered (rev (ess @ [i_pending s])) key))"
  using assms by (auto simp: covered_def stacked_def split: option.split)

lemma flush_ok:
  assumes "mem_ok crc ess s" "\<not> i_recovery_required s" "i_pending s \<noteq> []"
    "table_bytes (i_pending s) < 2 ^ 60" "i_table_sequence s < i_sequence s" "fst (publish_outcome tf fp) = Ok ()"
  obtains s' where "flush_table_locked crc tf fp s = (Ok (), s')" "mem_ok crc (ess @ [i_pending s]) s'"
    "covered Map.empty s'" "\<And>key. engine_view crc s' key = flat (layered (rev (ess @ [i_pending s])) key)"
    "i_pending s' = []" "i_state s' = []" "i_sequence s' = i_sequence s" "i_table_sequence s' = i_sequence s"
    "i_recovery_required s' = i_recovery_required s"
proof -
  define name where "name = flush_table_name (i_sequence s) (length (i_table_files s))"
  have ok: "bm_ok (i_pending s)" and cache: "cache_ok (i_table_sequence s) (i_table_layers s) (i_cache s)"
    and layers: "list_all2 (layer_holds crc) ess (i_table_layers s)"
    using assms(1) by (simp_all add: mem_ok_def)
  obtain layer where layer: "open_layer crc name (enc_table crc (i_sequence s) (i_pending s)) = Ok (i_sequence s, layer)"
    "layer_holds crc (i_pending s) layer" "tl_path layer = name"
    using open_layer_enc [OF ok assms(4)] by metis
  note flush = flush_done [OF assms(2,3,6) write_table_ok [OF assms(4)] layer(1) [unfolded name_def]]
  have "cache_ok (i_sequence s) (i_table_layers s @ [layer]) (i_cache s)"
    using assms(5) table_name_fresh(1) [OF _ assms(5)]
    by (intro cache_ok_new_layer [OF cache layer(2,3)]) (auto simp: name_def)
  then have mem: "mem_ok crc (ess @ [i_pending s]) (snd (flush_table_locked crc tf fp s))"
    using layers layer(2) by (simp add: flush mem_ok_def list_all2_appendI)
  show ?thesis
  proof (rule that [of "snd (flush_table_locked crc tf fp s)"])
    show "engine_view crc (snd (flush_table_locked crc tf fp s)) key = flat (layered (rev (ess @ [i_pending s])) key)" for key
      unfolding engine_view_stacked [OF mem] by (simp add: flush stacked_def)
  qed (use mem in \<open>simp_all add: flush covered_def\<close>)
qed

section \<open>The materialised map\<close>

lemma bm_ok_overlay: "bm_ok st \<Longrightarrow> bm_ok (fold overlay_entry es st)"
  by (induction es arbitrary: st) (auto simp: overlay_entry_def split: option.split)

lemma bm_get_overlay:
  "bm_ok es \<Longrightarrow> bm_get (fold overlay_entry es st) k = (case bm_get es k of Some v \<Rightarrow> v | None \<Rightarrow> bm_get st k)"
proof (induction es arbitrary: st)
  case (Cons e es)
  have "bm_get es (fst e) = None"
    using Cons.prems by (cases e) (simp add: bm_get_None_iff, force)
  then show ?case
    using Cons by (auto simp: overlay_entry_def split: option.split)
qed simp

lemma materialize_entries_ok:
  assumes "list_all2 (\<lambda>entry e. te_key entry = fst e \<and>
      read_table_value_handle crc (tl_file layer) entry (tl_is_v2 layer) = Ok (snd e)) entries es"
  shows "materialize_entries crc layer entries st = Ok (fold overlay_entry es st)"
  using assms
  by (induction entries es arbitrary: st rule: list_all2_induct)
    (simp_all add: overlay_entry_def split: option.split)

lemma materialize_layer_ok:
  assumes "layer_holds crc es layer"
  shows "materialize_entries crc layer (index_of data_start es) st = Ok (fold overlay_entry es st)"
proof (rule materialize_entries_ok)
  obtain sequence where f: "tl_file layer = enc_table crc sequence es" "tl_is_v2 layer" "table_bytes es < 2 ^ 60"
    using assms by (auto simp: layer_holds_def)
  show "list_all2 (\<lambda>entry e. te_key entry = fst e \<and>
      read_table_value_handle crc (tl_file layer) entry (tl_is_v2 layer) = Ok (snd e)) (index_of data_start es) es"
    unfolding list_all2_conv_all_nth
    using f read_handle_enc [of _ es crc sequence] by (simp add: index_of_nth)
qed

lemma materialize_layers_ok:
  assumes "list_all2 (layer_holds crc) ess layers"
  shows "materialize_layers crc layers st = Ok (fold (fold overlay_entry) ess st)"
  using assms
  by (induction ess layers arbitrary: st rule: list_all2_induct)
    (simp_all add: loaded_entries_ok materialize_layer_ok)

lemma fold_overlay_layers:
  assumes "\<And>es. es \<in> set ess \<Longrightarrow> bm_ok es"
  shows "bm_get (fold (fold overlay_entry) ess []) k = flat (layered (rev ess) k)"
  using assms
proof (induction ess rule: rev_induct)
  case (snoc es ess)
  then show ?case
    by (simp add: bm_get_overlay split: option.split)
qed simp

lemma bm_ok_overlay_layers: "bm_ok st \<Longrightarrow> bm_ok (fold (fold overlay_entry) ess st)"
  by (induction ess arbitrary: st) (auto simp: bm_ok_overlay)

lemma materialize_state_ok:
  assumes "mem_ok crc ess s"
  obtains st where "materialize_state crc s = Ok st" "bm_ok st" "bm_get st = engine_view crc s"
proof -
  have layers: "list_all2 (layer_holds crc) ess (i_table_layers s)" and ok: "bm_ok (i_pending s)" "bm_ok (i_state s)"
    using assms by (simp_all add: mem_ok_def)
  have "bm_ok es" if "es \<in> set ess" for es
    using layers that by (metis in_set_conv_nth layer_holds_def list_all2_conv_all_nth)
  note flat = fold_overlay_layers [OF this]
  let ?base = "fold (fold overlay_entry) ess []"
  let ?mid = "fold (\<lambda>(k, v). bm_insert k v) (i_state s) ?base"
  have base: "bm_ok ?base"
    by (rule bm_ok_overlay_layers) simp
  have mid: "bm_ok ?mid"
    using base by (rule bm.ok_fold_ins)
  have "map_of (rev (i_state s)) = map_of (i_state s)"
    using bm_ok_distinct [OF ok(2)] by (subst map_of_inject_set) (simp_all add: rev_map [symmetric])
  then have "bm_get ?mid k = (case bm_get (i_state s) k of Some v \<Rightarrow> Some v | None \<Rightarrow> bm_get ?base k)" for k
    using bm.get_fold_ins [OF base, of "i_state s"] by (simp add: map_add_def bm_get_def split: option.split)
  then have "bm_get (fold overlay_entry (i_pending s) ?mid) k = engine_view crc s k" for k
    using flat by (simp add: bm_get_overlay [OF ok(1)] engine_view_stacked [OF assms] stacked_def split: option.split)
  then show ?thesis
    using that [of "fold overlay_entry (i_pending s) ?mid"] bm_ok_overlay [OF mid]
    by (simp add: materialize_state_def materialize_layers_ok [OF layers] fun_eq_iff)
qed

section \<open>Compaction\<close>

lemma compaction_input_ok: "list_all2 (layer_holds crc) ess layers \<Longrightarrow> \<exists>n. compaction_input_bytes crc layers = Ok n"
  by (induction ess layers rule: list_all2_induct) (auto simp: loaded_entries_ok)

definition compacted :: "kv_state \<Rightarrow> memtable" where
  "compacted st = map (\<lambda>(k, v). (k, Some v)) st"

lemma map_fst_compacted [simp]: "map fst (compacted st) = map fst st"
  by (simp add: compacted_def split_def o_def)

lemma compacted_ok: "bm_ok st \<Longrightarrow> bm_ok (compacted st)"
  by (simp add: bm_ok_def)

lemma bm_get_compacted: "bm_get (compacted st) k = map_option Some (bm_get st k)"
  by (induction st) (auto simp: compacted_def)

lemma compact_failed:
  assumes "mem_ok crc ess s" "\<not> i_recovery_required s" "materialize_state crc s = Ok st"
    "table_bytes (compacted st) < 2 ^ 60" "fst (publish_outcome tf fp) = Err e"
  defines "name \<equiv> compact_table_name (i_sequence s)"
  shows "compact_tables_locked crc tf fp s =
    (Err e, s\<lparr>i_disk := publish_stage (enc_table crc (i_sequence s) (compacted st)) name
        (new_manifest name [name] (i_sequence s)) (snd (publish_outcome tf fp)) (i_disk s)\<rparr>)"
proof -
  obtain n where "compaction_input_bytes crc (i_table_layers s) = Ok n"
    using compaction_input_ok [of crc ess "i_table_layers s"] assms(1) by (auto simp: mem_ok_def)
  then show ?thesis
    using assms by (simp add: compact_tables_locked_def publish_table_outcome [OF write_table_ok] Let_def
        compacted_def [symmetric])
qed

lemma compact_done:
  assumes "mem_ok crc ess s" "\<not> i_recovery_required s" "materialize_state crc s = Ok st"
    "table_bytes (compacted st) < 2 ^ 60" "fst (publish_outcome tf fp) = Ok ()"
  defines "name \<equiv> compact_table_name (i_sequence s)" and "bs \<equiv> enc_table crc (i_sequence s) (compacted st)"
  assumes "open_layer crc name bs = Ok (sequence, layer)"
  shows "compact_tables_locked crc tf fp s =
    (Ok (), s\<lparr>i_disk := (remove_tables (filter (\<lambda>old. old \<noteq> name) (i_table_files s))
          (publish_stage bs name (new_manifest name [name] (i_sequence s)) 4 (i_disk s)))\<lparr>d_wal := []\<rparr>,
        i_state := [], i_table_sequence := i_sequence s, i_table_files := [name], i_table_layers := [layer],
        i_pending := [], i_pending_bytes := 0, i_journal_bytes := 0, i_frame_count := 0,
        i_generation := sat_add (i_generation s) 1\<rparr>)"
proof -
  obtain n where input: "compaction_input_bytes crc (i_table_layers s) = Ok n"
    using compaction_input_ok [of crc ess "i_table_layers s"] assms(1) by (auto simp: mem_ok_def)
  have "table_name (i_sequence s) name"
    by (simp add: name_def)
  then have "hm_get (d_files (publish_stage bs name m 4 d)) name = Some bs" for m d
    by (rule publish_stage_4_file)
  then have "hm_get (d_files (remove_tables (filter (\<lambda>old. old \<noteq> name) fs) (publish_stage bs name m 4 d))) name = Some bs"
    for fs m d
    by (simp add: remove_tables_def hm_get_fold_remove)
  moreover have "snd (publish_outcome tf fp) = 4"
    using assms(5) by (rule publish_outcome_ok)
  ultimately show ?thesis
    using assms input by (simp add: compact_tables_locked_def publish_table_outcome [OF write_table_ok] Let_def
        compacted_def [symmetric] open_table_def truncate_wal_def set_disk_def st_then_def st_do_def st_try_def)
qed

lemma compact_ok:
  assumes "mem_ok crc ess s" "\<not> i_recovery_required s" "materialize_state crc s = Ok st"
    "table_bytes (compacted st) < 2 ^ 60" "i_table_sequence s \<le> i_sequence s"
    "compact_table_name (i_sequence s) \<notin> tl_path ` set (i_table_layers s)" "fst (publish_outcome tf fp) = Ok ()"
  obtains s' where "compact_tables_locked crc tf fp s = (Ok (), s')" "mem_ok crc [compacted st] s'" "covered Map.empty s'"
    "engine_view crc s' = engine_view crc s" "i_pending s' = []" "i_state s' = []"
    "i_sequence s' = i_sequence s" "i_table_sequence s' = i_sequence s"
    "i_recovery_required s' = i_recovery_required s"
proof -
  define name where "name = compact_table_name (i_sequence s)"
  have cache: "cache_ok (i_table_sequence s) (i_table_layers s) (i_cache s)"
    using assms(1) by (simp add: mem_ok_def)
  have st: "bm_ok st" "bm_get st = engine_view crc s"
    using materialize_state_ok [OF assms(1)] assms(3) by auto
  obtain layer where layer: "open_layer crc name (enc_table crc (i_sequence s) (compacted st)) = Ok (i_sequence s, layer)"
    "layer_holds crc (compacted st) layer" "tl_path layer = name"
    using open_layer_enc [OF compacted_ok [OF st(1)] assms(4)] by metis
  note compact = compact_done [OF assms(1-4,7) layer(1) [unfolded name_def]]
  have fresh: "n \<noteq> name" if "table_name (i_table_sequence s) n"
      "n = compact_table_name (i_table_sequence s) \<longrightarrow> n \<in> tl_path ` set (i_table_layers s)" for n
    using that assms(5,6) table_name_fresh(2) [OF that(1), of "i_sequence s"]
    by (cases "i_table_sequence s = i_sequence s") (auto simp: name_def order_less_le)
  have "cache_ok (i_sequence s) ([] @ [layer]) (i_cache s)"
    using assms(5) fresh
    by (intro cache_ok_new_layer [OF cache layer(2,3)]) (auto simp: name_def order_less_le)
  then have mem: "mem_ok crc [compacted st] (snd (compact_tables_locked crc tf fp s))"
    using layer(2) by (simp add: compact mem_ok_def)
  show ?thesis
  proof (rule that [of "snd (compact_tables_locked crc tf fp s)"])
    show "engine_view crc (snd (compact_tables_locked crc tf fp s)) = engine_view crc s"
      unfolding engine_view_stacked [OF mem] st(2) [symmetric]
      by (auto simp: compact stacked_def bm_get_compacted fun_eq_iff split: option.split)
  qed (use mem in \<open>simp_all add: compact covered_def\<close>)
qed

end
