(* ===== verification/Engine_Recovery.thy ===== *)
theory Engine_Recovery
  imports Engine_View
begin

text \<open>
  Durability of the engine: the invariant \<open>engine_ok\<close> relates the in-memory state to the
  directory (the manifest names exactly the open tables, the log replays to the mutable state),
  commits, flushes and compactions keep it, and opening a directory, also one a flush was
  interrupted in, gives the view back.
\<close>

section \<open>Applying operations\<close>

definition op_effect :: "operation \<Rightarrow> (bytes \<Rightarrow> bytes option) \<Rightarrow> bytes \<Rightarrow> bytes option" where
  "op_effect op m = (case op of Put k v \<Rightarrow> m(k \<mapsto> v) | Delete k \<Rightarrow> m(k := None))"

definition pend_op :: "operation \<Rightarrow> memtable \<Rightarrow> memtable" where
  "pend_op op p = (case op of Put k v \<Rightarrow> bm_insert k (Some v) p | Delete k \<Rightarrow> bm_insert k None p)"

lemma apply_operation_pending_fields:
  "\<exists>n. apply_operation_with_pending op s =
     s\<lparr>i_state := apply_operation op (i_state s), i_pending := pend_op op (i_pending s), i_pending_bytes := n\<rparr>"
  by (cases op; simp add: apply_operation_with_pending_def apply_operation_def pend_op_def Let_def; blast)

lemma apply_operation_selectors [simp]:
  "i_state (apply_operation_with_pending op s) = apply_operation op (i_state s)"
  "i_pending (apply_operation_with_pending op s) = pend_op op (i_pending s)"
  "i_table_layers (apply_operation_with_pending op s) = i_table_layers s"
  "i_cache (apply_operation_with_pending op s) = i_cache s"
  "i_table_sequence (apply_operation_with_pending op s) = i_table_sequence s"
  using apply_operation_pending_fields [of op s] by auto

lemma apply_operations_fields:
  "\<exists>n. fold apply_operation_with_pending ops s =
     s\<lparr>i_state := fold apply_operation ops (i_state s), i_pending := fold pend_op ops (i_pending s), i_pending_bytes := n\<rparr>"
proof (induction ops arbitrary: s)
  case Nil
  show ?case by (intro exI [of _ "i_pending_bytes s"]) simp
next
  case (Cons op ops)
  obtain n where n: "apply_operation_with_pending op s =
      s\<lparr>i_state := apply_operation op (i_state s), i_pending := pend_op op (i_pending s), i_pending_bytes := n\<rparr>"
    using apply_operation_pending_fields by blast
  then show ?case
    using Cons.IH [of "apply_operation_with_pending op s"] by simp
qed

lemma bm_ok_apply_operation: "bm_ok st \<Longrightarrow> bm_ok (apply_operation op st)"
  by (cases op) (simp_all add: apply_operation_def)

lemma bm_ok_pend_op: "bm_ok p \<Longrightarrow> bm_ok (pend_op op p)"
  by (cases op) (simp_all add: pend_op_def)

lemma mem_ok_apply:
  "mem_ok crc ess s \<Longrightarrow> mem_ok crc ess (apply_operation_with_pending op s)"
  by (simp add: mem_ok_def bm_ok_apply_operation bm_ok_pend_op)

lemma view_apply:
  assumes "mem_ok crc ess s"
  shows "engine_view crc (apply_operation_with_pending op s) = op_effect op (engine_view crc s)"
  unfolding engine_view_stacked [OF mem_ok_apply [OF assms]] engine_view_stacked [OF assms]
  by (cases op) (simp_all add: stacked_def pend_op_def apply_operation_def op_effect_def fun_eq_iff split: option.split)

lemma covered_apply: "covered base s \<Longrightarrow> covered base (apply_operation_with_pending op s)"
  by (cases op) (auto simp: covered_def apply_operation_def pend_op_def)

lemma apply_operations_ok:
  "mem_ok crc ess s \<Longrightarrow> mem_ok crc ess (fold apply_operation_with_pending ops s) \<and>
     engine_view crc (fold apply_operation_with_pending ops s) = fold op_effect ops (engine_view crc s) \<and>
     (covered base s \<longrightarrow> covered base (fold apply_operation_with_pending ops s))"
  by (induction ops arbitrary: s) (simp_all add: mem_ok_apply view_apply covered_apply)

lemma fold_pend_op_nonempty: "ops \<noteq> [] \<Longrightarrow> fold pend_op ops p \<noteq> []"
proof (induction ops rule: rev_induct)
  case (snoc op ops)
  have "bm_insert k v m \<noteq> []" for k and v :: "bytes option" and m
    by (cases m) auto
  then show ?case
    by (cases op) (simp_all add: pend_op_def)
qed simp

text \<open>The size the memtable is charged for.\<close>

definition charged :: "memtable \<Rightarrow> nat" where
  "charged p = sum_list (map (\<lambda>(k, v). length k + 1 + value_bytes v) p)"

lemma charged_insert:
  "bm_ok p \<Longrightarrow> charged (bm_insert k v p) + (case bm_get p k of Some w \<Rightarrow> length k + 1 + value_bytes w | None \<Rightarrow> 0) =
     charged p + (length k + 1 + value_bytes v)"
proof (induction p)
  case (Cons e p)
  consider "fst e < k" | "fst e = k" | "k < fst e"
    by (metis linorder_less_linear)
  then show ?case
  proof cases
    case 1
    then have "fst e \<noteq> k" by auto
    then show ?thesis
      using 1 Cons by (simp add: charged_def split_def)
  next
    case 2
    then show ?thesis
      by (simp add: charged_def split_def)
  next
    case 3
    then have "bm_get (e # p) k = None"
      using Cons.prems by (auto simp: bm_get_None_iff)
    moreover have "\<not> fst e < k" "fst e \<noteq> k"
      using 3 by auto
    ultimately show ?thesis
      by (simp add: charged_def split_def)
  qed
qed (simp add: charged_def)

lemma charged_entry: "bm_ok p \<Longrightarrow> bm_get p k = Some w \<Longrightarrow> length k + 1 + value_bytes w \<le> charged p"
  by (drule bm_get_SomeD) (force simp: charged_def in_set_conv_decomp)

lemma charged_Nil [simp]: "charged [] = 0"
  by (simp add: charged_def)

lemma charged_le: "charged p \<le> table_bytes p"
  by (induction p) (auto simp: charged_def entry_bytes_def value_bytes_def split: option.split)

fun op_charge :: "operation \<Rightarrow> nat" where
  "op_charge (Put k v) = length k + 1 + length v"
| "op_charge (Delete k) = length k + 1"

lemma apply_operation_charged:
  assumes "bm_ok (i_pending s)" "i_pending_bytes s = charged (i_pending s)" "charged (i_pending s) + op_charge op \<le> usize_max"
  shows "i_pending_bytes (apply_operation_with_pending op s) = charged (pend_op op (i_pending s)) \<and>
    charged (pend_op op (i_pending s)) \<le> charged (i_pending s) + op_charge op"
proof -
  obtain k v where op: "op_charge op = length k + 1 + value_bytes v" "pend_op op (i_pending s) = bm_insert k v (i_pending s)"
    "i_pending_bytes (apply_operation_with_pending op s) =
      sat_add (case bm_get (i_pending s) k of
          Some w \<Rightarrow> i_pending_bytes s - sat_add (sat_add (length k) 1) (value_bytes w)
        | None \<Rightarrow> i_pending_bytes s) (sat_add (sat_add (length k) 1) (value_bytes v))"
  proof (cases op)
    case (Put k v)
    then show ?thesis
      using that [of k "Some v"]
      by (simp add: pend_op_def apply_operation_with_pending_def Let_def value_bytes_def)
  next
    case (Delete k)
    then show ?thesis
      using that [of k None] assms(3)
      by (simp add: pend_op_def apply_operation_with_pending_def Let_def value_bytes_def)
  qed
  note ins = charged_insert [OF assms(1), of k v]
  show ?thesis
  proof (cases "bm_get (i_pending s) k")
    case None
    then show ?thesis
      using ins assms(2,3) by (simp add: op)
  next
    case (Some w)
    then show ?thesis
      using ins assms(2,3) charged_entry [OF assms(1) Some] by (simp add: op)
  qed
qed

lemma apply_operations_charged:
  "bm_ok (i_pending s) \<Longrightarrow> i_pending_bytes s = charged (i_pending s) \<Longrightarrow>
    charged (i_pending s) + sum_list (map op_charge ops) \<le> usize_max \<Longrightarrow>
    i_pending_bytes (fold apply_operation_with_pending ops s) = charged (fold pend_op ops (i_pending s)) \<and>
    charged (fold pend_op ops (i_pending s)) \<le> charged (i_pending s) + sum_list (map op_charge ops)"
proof (induction ops arbitrary: s)
  case (Cons op ops)
  then have "i_pending_bytes (apply_operation_with_pending op s) = charged (pend_op op (i_pending s))"
    "charged (pend_op op (i_pending s)) \<le> charged (i_pending s) + op_charge op"
    using apply_operation_charged [of s op] by simp_all
  then show ?case
    using Cons.IH [of "apply_operation_with_pending op s"] Cons.prems by (auto simp: bm_ok_pend_op)
qed simp

lemma op_charge_le: "sum_list (map op_charge ops) \<le> length (concat (map enc_op ops))"
proof (induction ops)
  case (Cons op ops)
  then show ?case by (cases op) simp_all
qed simp

section \<open>What the directory stores\<close>

text \<open>The tables the manifest names, oldest first, with the memtables they were written from.\<close>

definition table_stored :: "(bytes \<Rightarrow> u32) \<Rightarrow> disk \<Rightarrow> u64 \<Rightarrow> string \<Rightarrow> memtable \<Rightarrow> u64 \<Rightarrow> bool" where
  "table_stored crc d ts name es sequence \<longleftrightarrow> hm_get (d_files d) name = Some (enc_table crc sequence es) \<and>
     bm_ok es \<and> table_bytes es < 2 ^ 60 \<and> table_name ts name \<and> sequence \<le> ts"

fun tables_stored :: "(bytes \<Rightarrow> u32) \<Rightarrow> disk \<Rightarrow> u64 \<Rightarrow> u64 \<Rightarrow> string list \<Rightarrow> memtable list \<Rightarrow> bool" where
  "tables_stored crc d ts low [] [] \<longleftrightarrow> low \<le> ts"
| "tables_stored crc d ts low (f # fs) (es # ess) \<longleftrightarrow>
     (\<exists>sequence. table_stored crc d ts f es sequence \<and> low \<le> sequence \<and> tables_stored crc d ts sequence fs ess)"
| "tables_stored crc d ts low _ _ \<longleftrightarrow> False"

definition stored :: "(bytes \<Rightarrow> u32) \<Rightarrow> disk \<Rightarrow> string list \<Rightarrow> memtable list \<Rightarrow> u64 \<Rightarrow> bool" where
  "stored crc d files ess ts \<longleftrightarrow> tables_stored crc d ts 0 files ess \<and> sorted_wrt (<) files \<and>
     (\<exists>m. load_manifest d = Ok (Some m) \<and> manifest_tables m = files \<and> m_table_sequence m = ts)"

lemma tables_stored_names: "tables_stored crc d ts low fs ess \<Longrightarrow> f \<in> set fs \<Longrightarrow> table_name ts f"
  by (induction crc d ts low fs ess rule: tables_stored.induct) (auto simp: table_stored_def)

lemma tables_stored_length: "tables_stored crc d ts low fs ess \<Longrightarrow> length fs = length ess"
  by (induction crc d ts low fs ess rule: tables_stored.induct) auto

lemma tables_stored_snoc:
  "tables_stored crc d ts low fs ess \<Longrightarrow> table_stored crc d ts f es ts \<Longrightarrow> tables_stored crc d ts low (fs @ [f]) (ess @ [es])"
  by (induction crc d ts low fs ess rule: tables_stored.induct) (auto intro: exI [of _ ts])

text \<open>Only the named files matter, and a larger table sequence admits the same tables.\<close>

lemma tables_stored_cong:
  assumes "tables_stored crc d ts low fs ess" "\<And>f. f \<in> set fs \<Longrightarrow> hm_get (d_files d') f = hm_get (d_files d) f" "ts \<le> ts'"
  shows "tables_stored crc d' ts' low fs ess"
  using assms
proof (induction crc d ts low fs ess rule: tables_stored.induct)
  case (2 crc d ts low f fs es ess)
  then show ?case
    by (auto simp: table_stored_def intro: order_trans table_name_mono)
qed auto

lemma hm_get_filter_keep: "(\<And>v. P (k, v)) \<Longrightarrow> hm_get (filter P m) k = hm_get m k"
  by (induction m) (auto simp: hm_get_def)

lemma cleanup_keeps:
  assumes "table_name ts f"
  shows "hm_get (d_files (cleanup_temporary_files d)) f = hm_get (d_files d) f"
  using table_name_not_temp(2) [OF assms] by (simp add: cleanup_temporary_files_def hm_get_filter_keep)

lemma cleanup_manifest [simp]:
  "d_manifest (cleanup_temporary_files d) = d_manifest d" "d_wal (cleanup_temporary_files d) = d_wal d"
  "load_manifest (cleanup_temporary_files d) = load_manifest d"
  by (simp_all add: cleanup_temporary_files_def load_manifest_def)

lemma open_tables_ok:
  assumes "tables_stored crc d ts low fs ess"
  obtains layers where "open_tables crc d ts low fs = Ok layers" "list_all2 (layer_holds crc) ess layers"
    "map tl_path layers = fs"
  using assms
proof (induction crc d ts low fs ess arbitrary: thesis rule: tables_stored.induct)
  case (2 crc d ts low f fs es ess)
  from "2.prems"(2) obtain sequence where t: "table_stored crc d ts f es sequence" "low \<le> sequence"
    "tables_stored crc d ts sequence fs ess"
    by auto
  obtain layers where layers: "open_tables crc d ts sequence fs = Ok layers" "list_all2 (layer_holds crc) ess layers"
    "map tl_path layers = fs"
    using "2.IH" t(3) by blast
  have es: "bm_ok es" "table_bytes es < 2 ^ 60" "hm_get (d_files d) f = Some (enc_table crc sequence es)" "sequence \<le> ts"
    using t(1) by (auto simp: table_stored_def)
  obtain layer where layer: "open_layer crc f (enc_table crc sequence es) = Ok (sequence, layer)"
    "layer_holds crc es layer" "tl_path layer = f"
    using open_layer_enc [OF es(1,2)] by metis
  have "\<not> sequence > ts" "\<not> sequence < low"
    using es(4) t(2) by simp_all
  then have "open_tables crc d ts low (f # fs) = Ok (layer # layers)"
    using layer(1) layers(1) es(3) by (simp add: open_table_def)
  then show ?case
    using "2.prems"(1) layers(2,3) layer(2,3) by simp
qed auto

lemma fresh_cache_ok:
  assumes "list_all2 (layer_holds crc) ess layers" "distinct (map tl_path layers)"
    "\<forall>l \<in> set layers. table_name ts (tl_path l)"
  shows "cache_ok ts layers (bc_with_capacity n)"
proof -
  have "\<exists>src. (\<forall>l \<in> set layers. block_source src l) \<and> (\<forall>p off. src (p, off) \<noteq> None \<longrightarrow> p \<in> tl_path ` set layers)"
    using assms(1,2)
  proof (induction ess layers rule: list_all2_induct)
    case Nil
    show ?case by (intro exI [of _ "\<lambda>_. None"]) simp
  next
    case (Cons es ess layer layers)
    then obtain src where src: "\<forall>l \<in> set layers. block_source src l"
      "\<forall>p off. src (p, off) \<noteq> None \<longrightarrow> p \<in> tl_path ` set layers"
      by auto
    obtain new where new: "block_source new layer"
      using block_source_exists [OF Cons.hyps(1)] .
    define src' where "src' = (\<lambda>(p, off). if p = tl_path layer then new (p, off) else src (p, off))"
    have "block_source src' layer"
      using new by (simp add: block_source_def src'_def)
    moreover have "block_source src' l" if "l \<in> set layers" for l
    proof -
      have "tl_path l \<noteq> tl_path layer"
        using imageI [OF that, of tl_path] Cons.prems by auto
      then show ?thesis
        using that src(1) by (simp add: block_source_def src'_def)
    qed
    moreover have "\<forall>p off. src' (p, off) \<noteq> None \<longrightarrow> p \<in> tl_path ` set (layer # layers)"
      using src(2) by (auto simp: src'_def)
    ultimately show ?case
      by (intro exI [of _ src']) auto
  qed
  then obtain src where "\<forall>l \<in> set layers. block_source src l"
    "\<forall>p off. src (p, off) \<noteq> None \<longrightarrow> p \<in> tl_path ` set layers"
    by auto
  then show ?thesis
    using assms(3) bc_coherent_empty [of src n] unfolding cache_ok_def by (intro exI [of _ src]) blast
qed

end
