(* ===== verification/Engine_Durability.thy ===== *)
theory Engine_Durability
  imports Engine_Recovery
begin

text \<open>
  The durability of the engine. \<open>engine_ok\<close> relates the in-memory state to the directory: the
  manifest names exactly the open tables, the log replays to the mutable state, and everything
  fits a size budget. Every successful commit, flush and compaction keeps it and acts on the view
  as specified.
\<close>

section \<open>Sizes\<close>

definition weight :: "kv_state \<Rightarrow> nat" where
  "weight st = table_bytes (compacted st)"

lemma weight_simps [simp]: "weight [] = 0" "weight ((k, v) # st) = entry_bytes (k, Some v) + weight st"
  by (simp_all add: weight_def compacted_def)

lemma table_bytes_insert: "table_bytes (bm_insert k v p) \<le> table_bytes p + entry_bytes (k, v)"
  by (induction k v p rule: bm_insert.induct) auto

lemma weight_insert: "weight (bm_insert k v st) \<le> weight st + entry_bytes (k, Some v)"
  by (induction k v st rule: bm_insert.induct) auto

lemma weight_remove: "weight (bm_remove k st) \<le> weight st"
  by (induction st) (auto simp: bm_remove_def)

lemma weight_overlay: "weight (fold overlay_entry es st) \<le> weight st + table_bytes es"
proof (induction es arbitrary: st)
  case (Cons e es)
  obtain k v where e: "e = (k, v)" by (cases e)
  have "weight (overlay_entry e st) \<le> weight st + entry_bytes e"
    using weight_insert [of k _ st] weight_remove [of k st]
    by (auto simp: e overlay_entry_def intro: trans_le_add1 split: option.split)
  then show ?case
    using Cons.IH [of "overlay_entry e st"] by simp
qed simp

lemma weight_layers: "weight (fold (fold overlay_entry) ess st) \<le> weight st + sum_list (map table_bytes ess)"
proof (induction ess arbitrary: st)
  case (Cons es ess)
  show ?case
    using Cons.IH [of "fold overlay_entry es st"] weight_overlay [of es st] by simp
qed simp

lemma weight_inserts: "weight (fold (\<lambda>(k, v). bm_insert k v) kvs st) \<le> weight st + weight kvs"
proof (induction kvs arbitrary: st)
  case (Cons e kvs)
  obtain k v where e: "e = (k, v)" by (cases e)
  show ?case
    using Cons.IH [of "bm_insert k v st"] weight_insert [of k v st] by (simp add: e)
qed simp

text \<open>All that the engine holds, and what a group of commits can add to it.\<close>

definition footprint :: "memtable list \<Rightarrow> inner \<Rightarrow> nat" where
  "footprint ess s = sum_list (map table_bytes ess) + table_bytes (i_pending s) + weight (i_state s)"

definition request_cost :: "operation list \<Rightarrow> nat" where
  "request_cost ops = 32 + 3 * length (concat (map enc_op ops))"

definition group_cost :: "operation list list \<Rightarrow> nat" where
  "group_cost reqs = sum_list (map request_cost reqs)"

lemma materialized_weight:
  assumes "mem_ok crc ess s" "materialize_state crc s = Ok st"
  shows "weight st \<le> footprint ess s"
proof -
  let ?base = "fold (fold overlay_entry) ess []"
  let ?mid = "fold (\<lambda>(k, v). bm_insert k v) (i_state s) ?base"
  have "st = fold overlay_entry (i_pending s) ?mid"
    using assms(2) materialize_layers_ok [of crc ess "i_table_layers s"] assms(1)
    by (simp add: materialize_state_def mem_ok_def)
  then show ?thesis
    using weight_overlay [of "i_pending s" ?mid] weight_inserts [of "i_state s" ?base] weight_layers [of ess "[]"]
    by (simp add: footprint_def)
qed

lemma footprint_apply:
  "footprint ess (apply_operation_with_pending op s) \<le> footprint ess s + 3 * length (enc_op op)"
proof (cases op)
  case (Put k v)
  then show ?thesis
    using table_bytes_insert [of k "Some v" "i_pending s"] weight_insert [of k v "i_state s"]
    by (simp add: footprint_def pend_op_def apply_operation_def entry_bytes_def)
next
  case (Delete k)
  then show ?thesis
    using table_bytes_insert [of k None "i_pending s"] weight_remove [of k "i_state s"]
    by (simp add: footprint_def pend_op_def apply_operation_def entry_bytes_def)
qed

lemma footprint_apply_all:
  "footprint ess (fold apply_operation_with_pending ops s) \<le> footprint ess s + 3 * length (concat (map enc_op ops))"
proof (induction ops arbitrary: s)
  case (Cons op ops)
  show ?case
    using Cons.IH [of "apply_operation_with_pending op s"] footprint_apply [of ess op s] by simp
qed simp

lemma group_cost_ops: "3 * length (concat (map enc_op (concat reqs))) + 32 * length reqs = group_cost reqs"
  by (induction reqs) (simp_all add: group_cost_def request_cost_def)

lemma encode_group_cost:
  assumes "encode_group crc out s reqs = Ok (log, s')"
  shows "length log = length out + 32 * length reqs + length (concat (map enc_op (concat reqs)))"
  using assms
proof (induction reqs arbitrary: out s)
  case (Cons ops reqs)
  then obtain r where r: "encode_frame_into crc out s ops = Ok r"
    and rest: "encode_group crc r (sat_inc s) reqs = Ok (log, s')"
    by (auto simp: and_then_eq_Ok)
  have "length r = length out + 32 + length (concat (map enc_op ops))"
    using r by (auto simp: encode_frame_into_def Let_def and_then_eq_Ok write_u32_def write_u64_def copy_at_def
        dest!: encode_operations_Ok)
  then show ?case
    using Cons.IH [OF rest] by simp
qed simp

section \<open>The log\<close>

definition log_ok :: "(bytes \<Rightarrow> u32) \<Rightarrow> inner \<Rightarrow> bool" where
  "log_ok crc s \<longleftrightarrow> i_journal_bytes s = length (d_wal (i_disk s)) \<and>
     (\<exists>fs. d_wal (i_disk s) = enc_log crc fs \<and> list_all frame_ok fs \<and>
        recover fs (i_table_sequence s, []) = (i_sequence s, i_state s))"

lemma log_ok_empty:
  "d_wal (i_disk s) = [] \<Longrightarrow> i_journal_bytes s = 0 \<Longrightarrow> i_state s = [] \<Longrightarrow> i_table_sequence s = i_sequence s \<Longrightarrow>
    log_ok crc s"
  by (simp add: log_ok_def exI [of _ "[]"])

lemma recover_append: "recover (fs @ gs) r = recover gs (recover fs r)"
proof (induction fs arbitrary: r)
  case (Cons f fs)
  then show ?case by (cases f; cases r) simp
qed simp

lemma sat_inc_nat: "unat s < usize_max \<Longrightarrow> unat (sat_inc s) = Suc (unat s)"
proof -
  assume s: "unat s < usize_max"
  then have "s \<noteq> - 1"
    by (auto simp: usize_max_def unsigned_minus_1_eq_mask mask_eq_exp_minus_1)
  moreover have "unat (s + 1) = Suc (unat s)"
    using s unat_add_lem [of s 1] by (simp add: usize_max_def)
  ultimately show ?thesis by (simp add: sat_inc_def)
qed

lemma sat_inc_steps: "unat s + n \<le> usize_max \<Longrightarrow> unat ((sat_inc ^^ n) s) = unat s + n"
  by (induction n) (simp_all add: sat_inc_nat)

lemma sat_dec_inc: "unat s < usize_max \<Longrightarrow> sat_dec (sat_inc s) = s"
  using sat_inc_nat [of s] by (auto simp: sat_dec_def sat_inc_def usize_max_def)

lemma recover_numbered:
  "unat s + length reqs \<le> usize_max \<Longrightarrow>
    recover (number_frames (sat_inc s) reqs) (s, st) = ((sat_inc ^^ length reqs) s, fold apply_operation (concat reqs) st)"
proof (induction reqs arbitrary: s st)
  case (Cons ops reqs)
  then have "s < sat_inc s" "unat (sat_inc s) = Suc (unat s)"
    by (simp_all add: word_less_nat_alt sat_inc_nat)
  then show ?case
    using Cons.IH [of "sat_inc s"] Cons.prems by (simp add: funpow_Suc_right del: funpow.simps(2))
qed simp

section \<open>The directory while a table is published\<close>

lemma compact_not_flush: "compact_table_name sequence \<noteq> flush_table_name sequence i"
proof
  assume "compact_table_name sequence = flush_table_name sequence i"
  then have "''compact.tdb'' = zero_padded 4 i @ ''.tdb''"
    by (simp add: compact_table_name_def flush_table_name_def)
  then show False
    using zero_padded_digits [of 4 i] by (cases "zero_padded 4 i") (auto simp: is_digits_def)
qed

lemma load_manifest_simps [simp]:
  "load_manifest (d\<lparr>d_files := x\<rparr>) = load_manifest d" "load_manifest (d\<lparr>d_wal := w\<rparr>) = load_manifest d"
  "load_manifest (d\<lparr>d_manifest_temp := t\<rparr>) = load_manifest d" "load_manifest (d\<lparr>d_lock := b\<rparr>) = load_manifest d"
  by (simp_all add: load_manifest_def)

lemma publish_stage_other:
  assumes "f \<noteq> name" "f \<noteq> temp_name name"
  shows "hm_get (d_files (publish_stage bs name m i d)) f = hm_get (d_files d) f"
  using assms by (simp add: publish_stage_def rename_file_def Let_def split: option.split)

lemma publish_stage_manifest: "i < 4 \<Longrightarrow> load_manifest (publish_stage bs name m i d) = load_manifest d"
  by (simp add: publish_stage_def rename_file_def Let_def split: option.split)

lemma publish_stage_wal [simp]: "d_wal (publish_stage bs name m i d) = d_wal d"
  by (simp add: publish_stage_def rename_file_def Let_def split: option.split)

lemma publish_stage_done: "d_manifest (publish_stage bs name m 4 d) = Manifest_File m"
  by (simp add: publish_stage_def Let_def)

lemma stored_cong:
  assumes "stored crc d files ess ts" "\<And>f. f \<in> set files \<Longrightarrow> hm_get (d_files d') f = hm_get (d_files d) f"
    "load_manifest d' = load_manifest d"
  shows "stored crc d' files ess ts"
  using assms tables_stored_cong [of crc d ts 0 files ess d' ts] by (simp add: stored_def)

lemma stored_names: "stored crc d files ess ts \<Longrightarrow> f \<in> set files \<Longrightarrow> table_name ts f"
  unfolding stored_def using tables_stored_names by blast

lemma stored_before:
  assumes "stored crc d files ess ts" "name \<notin> set files" "i < 4"
  shows "stored crc (publish_stage bs name m i d) files ess ts"
proof (rule stored_cong [OF assms(1) _ publish_stage_manifest [OF assms(3)]])
  fix f assume "f \<in> set files"
  moreover from this have "f \<noteq> temp_name name"
    using stored_names [OF assms(1)] table_name_not_temp(1) by blast
  ultimately show "hm_get (d_files (publish_stage bs name m i d)) f = hm_get (d_files d) f"
    using assms(2) by (intro publish_stage_other) auto
qed

lemma load_new_manifest:
  assumes "\<forall>f \<in> set files. table_name ts f" "sorted_wrt (<) files" "files \<noteq> []" "last files = name"
  shows "load_manifest (publish_stage bs name (new_manifest name files sequence) 4 d) =
    Ok (Some (new_manifest name files sequence))"
    "manifest_tables (new_manifest name files sequence) = files"
  using validate_manifest_ok [of "new_manifest name files sequence" files ts] assms
  by (simp_all add: load_manifest_def publish_stage_done new_manifest_def)

lemma stored_flushed:
  fixes i :: nat
  assumes "stored crc d files ess ts" "ts < sequence" "bm_ok es" "table_bytes es < 2 ^ 60"
  defines "name \<equiv> flush_table_name sequence i"
  shows "stored crc (publish_stage (enc_table crc sequence es) name (new_manifest name (files @ [name]) sequence) 4 d)
    (files @ [name]) (ess @ [es]) sequence"
proof -
  let ?d = "publish_stage (enc_table crc sequence es) name (new_manifest name (files @ [name]) sequence) 4 d"
  have old: "f < name" "table_name sequence f" "f \<noteq> temp_name name" if "f \<in> set files" for f
    using stored_names [OF assms(1) that] assms(2) table_name_less(1) table_name_not_temp(1)
    by (auto simp: name_def intro: table_name_mono)
  have new: "table_name sequence name"
    by (simp add: name_def)
  have names: "\<forall>f \<in> set (files @ [name]). table_name sequence f" "sorted_wrt (<) (files @ [name])"
    using old new assms(1) by (auto simp: stored_def sorted_wrt_append)
  have "tables_stored crc ?d sequence 0 files ess"
  proof (rule tables_stored_cong [of crc d ts 0 files ess])
    fix f assume "f \<in> set files"
    then show "hm_get (d_files ?d) f = hm_get (d_files d) f"
      using old by (intro publish_stage_other) (auto simp: less_imp_neq)
  qed (use assms(1,2) in \<open>simp_all add: stored_def\<close>)
  then have "tables_stored crc ?d sequence 0 (files @ [name]) (ess @ [es])"
    using publish_stage_4_file [OF new] assms(3,4) new
    by (intro tables_stored_snoc) (simp_all add: table_stored_def)
  then show ?thesis
    using load_new_manifest [OF names] names(2) by (simp add: stored_def new_manifest_def)
qed

lemma stored_compacted:
  fixes sequence :: u64
  assumes "bm_ok es" "table_bytes es < 2 ^ 60"
  defines "name \<equiv> compact_table_name sequence"
  shows "stored crc (publish_stage (enc_table crc sequence es) name (new_manifest name [name] sequence) 4 d)
    [name] [es] sequence"
proof -
  have new: "table_name sequence name"
    by (simp add: name_def)
  then show ?thesis
    using load_new_manifest [of "[name]" sequence name] publish_stage_4_file [OF new] assms(1,2)
    by (simp add: stored_def table_stored_def new_manifest_def) (rule exI [of _ sequence], simp)
qed

section \<open>The invariant\<close>

definition engine_rep :: "(bytes \<Rightarrow> u32) \<Rightarrow> (bytes \<Rightarrow> bytes option) \<Rightarrow> memtable list \<Rightarrow> nat \<Rightarrow> inner \<Rightarrow> bool" where
  "engine_rep crc base ess n s \<longleftrightarrow> mem_ok crc ess s \<and> covered base s \<and>
     stored crc (i_disk s) (i_table_files s) ess (i_table_sequence s) \<and>
     map tl_path (i_table_layers s) = i_table_files s \<and> log_ok crc s \<and>
     i_table_sequence s \<le> i_sequence s \<and> (i_pending s \<noteq> [] \<longrightarrow> i_table_sequence s < i_sequence s) \<and>
     i_pending_bytes s = charged (i_pending s) \<and>
     footprint ess s \<le> n \<and> length (d_wal (i_disk s)) \<le> n \<and> unat (i_sequence s) \<le> n"

definition engine_ok :: "(bytes \<Rightarrow> u32) \<Rightarrow> nat \<Rightarrow> inner \<Rightarrow> bool" where
  "engine_ok crc n s \<longleftrightarrow> (\<exists>ess. engine_rep crc Map.empty ess n s)"

lemma engine_rep_mem: "engine_rep crc base ess n s \<Longrightarrow> mem_ok crc ess s"
  by (simp add: engine_rep_def)

lemma engine_rep_mono: "engine_rep crc base ess n s \<Longrightarrow> n \<le> n' \<Longrightarrow> engine_rep crc base ess n' s"
  unfolding engine_rep_def by (meson order_trans)

lemma engine_ok_mono: "engine_ok crc n s \<Longrightarrow> n \<le> n' \<Longrightarrow> engine_ok crc n' s"
  unfolding engine_ok_def using engine_rep_mono by blast

text \<open>Fields no part of the invariant depends on.\<close>

lemma engine_rep_irrelevant [simp]:
  "engine_rep crc base ess n (s\<lparr>i_recovery_required := b\<rparr>) = engine_rep crc base ess n s"
  "engine_rep crc base ess n (s\<lparr>i_flush_scheduled := b\<rparr>) = engine_rep crc base ess n s"
  "engine_rep crc base ess n (s\<lparr>i_generation := g\<rparr>) = engine_rep crc base ess n s"
  by (simp_all add: engine_rep_def mem_ok_def covered_def log_ok_def footprint_def)

lemma engine_view_irrelevant [simp]:
  "engine_view crc (s\<lparr>i_recovery_required := b\<rparr>) = engine_view crc s"
  "engine_view crc (s\<lparr>i_flush_scheduled := b\<rparr>) = engine_view crc s"
  "engine_view crc (s\<lparr>i_generation := g\<rparr>) = engine_view crc s"
  "engine_view crc (s\<lparr>i_disk := d\<rparr>) = engine_view crc s"
  by (simp_all add: fun_eq_iff engine_view_def get_durable_value_def split: option.split prod.split)

lemma engine_rep_names:
  assumes "engine_rep crc base ess n s" "f \<in> tl_path ` set (i_table_layers s)"
  shows "f \<in> set (i_table_files s)"
proof -
  have "set (map tl_path (i_table_layers s)) = set (i_table_files s)"
    using assms(1) unfolding engine_rep_def by metis
  then show ?thesis
    using assms(2) by simp
qed

text \<open>A flush: the memtable becomes a layer.\<close>

lemma flush_rep:
  assumes rep: "engine_rep crc base ess n s" and n: "n < 2 ^ 60" and "\<not> i_recovery_required s" "i_pending s \<noteq> []"
  obtains s' where "flush_table_locked crc None None s = (Ok (), s')" "engine_rep crc Map.empty (ess @ [i_pending s]) n s'"
    "\<And>key. engine_view crc s' key = flat (layered (rev (ess @ [i_pending s])) key)"
    "base = Map.empty \<Longrightarrow> engine_view crc s' = engine_view crc s" "i_pending s' = []" "i_pending_bytes s' = 0"
    "i_sequence s' = i_sequence s" "i_recovery_required s' = i_recovery_required s"
    "compact_table_name (i_sequence s') \<notin> set (i_table_files s')" "i_max_memtable_bytes s' = i_max_memtable_bytes s"
proof -
  let ?n = "flush_table_name (i_sequence s) (length (i_table_files s))"
  have parts: "mem_ok crc ess s" "covered base s" "stored crc (i_disk s) (i_table_files s) ess (i_table_sequence s)"
    "map tl_path (i_table_layers s) = i_table_files s" "i_table_sequence s < i_sequence s" "footprint ess s \<le> n"
    "unat (i_sequence s) \<le> n"
    using rep assms(4) by (simp_all add: engine_rep_def)
  have small: "table_bytes (i_pending s) < 2 ^ 60" and ok: "bm_ok (i_pending s)"
    using parts(1,6) n by (simp_all add: footprint_def mem_ok_def)
  obtain s' where s': "flush_table_locked crc None None s = (Ok (), s')" "mem_ok crc (ess @ [i_pending s]) s'"
    "covered Map.empty s'" "\<And>key. engine_view crc s' key = flat (layered (rev (ess @ [i_pending s])) key)"
    using flush_ok [OF parts(1) assms(3,4) small parts(5), of None None] publish_outcome_ok(2) by auto
  have view: "engine_view crc s' = engine_view crc s" if "base = Map.empty"
    using s'(4) stacked_covered [OF parts(2)] that by (simp add: fun_eq_iff engine_view_stacked [OF parts(1)])
  obtain layer where layer: "open_layer crc ?n (enc_table crc (i_sequence s) (i_pending s)) = Ok (i_sequence s, layer)"
    "tl_path layer = ?n"
    using open_layer_enc [OF ok small] by metis
  note flush = flush_done [OF assms(3,4) _ write_table_ok [OF small] layer(1), of None None]
  have fields: "s' = snd (flush_table_locked crc None None s)"
    by (simp add: s'(1))
  have "stored crc (i_disk s') (i_table_files s') (ess @ [i_pending s]) (i_table_sequence s')"
    using stored_flushed [OF parts(3,5) ok small] unfolding fields
    by (simp add: flush publish_outcome_ok(2)) (rule stored_cong, auto)
  moreover have fresh: "compact_table_name (i_sequence s') \<notin> set (i_table_files s')"
    using stored_names [OF parts(3)] table_name_fresh(2) [OF _ parts(5)] compact_not_flush unfolding fields
    by (auto simp: flush publish_outcome_ok(2))
  moreover have f: "i_pending s' = []" "i_state s' = []" "i_pending_bytes s' = 0" "i_sequence s' = i_sequence s"
    "i_table_sequence s' = i_sequence s" "i_recovery_required s' = i_recovery_required s" "d_wal (i_disk s') = []"
    "i_journal_bytes s' = 0" "map tl_path (i_table_layers s') = i_table_files s'"
    "i_max_memtable_bytes s' = i_max_memtable_bytes s"
    using parts(4) layer(2) unfolding fields by (simp_all add: flush publish_outcome_ok(2))
  ultimately have "engine_rep crc Map.empty (ess @ [i_pending s]) n s'"
    using s'(2,3) parts(6,7) by (simp add: engine_rep_def log_ok_empty footprint_def)
  then show ?thesis
    using that s'(1,4) view f fresh by blast
qed

text \<open>A compaction: one layer with the materialised map.\<close>

lemma compact_rep:
  assumes rep: "engine_rep crc base ess n s" and n: "n < 2 ^ 60" and "\<not> i_recovery_required s"
    "compact_table_name (i_sequence s) \<notin> set (i_table_files s)"
  obtains s' es where "compact_tables_locked crc None None s = (Ok (), s')" "engine_rep crc Map.empty [es] n s'"
    "engine_view crc s' = engine_view crc s" "i_pending s' = []" "i_pending_bytes s' = 0"
    "i_sequence s' = i_sequence s" "i_recovery_required s' = i_recovery_required s"
    "i_max_memtable_bytes s' = i_max_memtable_bytes s"
proof -
  let ?n = "compact_table_name (i_sequence s)"
  have parts: "mem_ok crc ess s" "stored crc (i_disk s) (i_table_files s) ess (i_table_sequence s)"
    "i_table_sequence s \<le> i_sequence s" "footprint ess s \<le> n" "unat (i_sequence s) \<le> n"
    using rep by (simp_all add: engine_rep_def)
  obtain st where st: "materialize_state crc s = Ok st" "bm_ok st"
    using materialize_state_ok [OF parts(1)] .
  have small: "table_bytes (compacted st) < 2 ^ 60" and le: "table_bytes (compacted st) \<le> n"
    using materialized_weight [OF parts(1) st(1)] parts(4) n by (simp_all add: weight_def)
  have fresh: "?n \<notin> tl_path ` set (i_table_layers s)"
    using engine_rep_names [OF rep] assms(4) by blast
  obtain s' where s': "compact_tables_locked crc None None s = (Ok (), s')" "mem_ok crc [compacted st] s'"
    "covered Map.empty s'" "engine_view crc s' = engine_view crc s"
    using compact_ok [OF parts(1) assms(3) st(1) small parts(3) fresh, of None None] publish_outcome_ok(2) by auto
  obtain layer where layer: "open_layer crc ?n (enc_table crc (i_sequence s) (compacted st)) = Ok (i_sequence s, layer)"
    "tl_path layer = ?n"
    using open_layer_enc [OF compacted_ok [OF st(2)] small] by metis
  note compact = compact_done [OF parts(1) assms(3) st(1) small _ layer(1), of None None]
  have fields: "s' = snd (compact_tables_locked crc None None s)"
    by (simp add: s'(1))
  have "stored crc (i_disk s') (i_table_files s') [compacted st] (i_table_sequence s')"
    unfolding fields
    by (simp add: compact publish_outcome_ok(2))
      (rule stored_cong [OF stored_compacted [OF compacted_ok [OF st(2)] small]],
        auto simp: remove_tables_def hm_get_fold_remove)
  moreover have f: "i_pending s' = []" "i_state s' = []" "i_pending_bytes s' = 0" "i_sequence s' = i_sequence s"
    "i_table_sequence s' = i_sequence s" "i_recovery_required s' = i_recovery_required s" "d_wal (i_disk s') = []"
    "i_journal_bytes s' = 0" "map tl_path (i_table_layers s') = i_table_files s'"
    "i_max_memtable_bytes s' = i_max_memtable_bytes s"
    using layer(2) unfolding fields by (simp_all add: compact publish_outcome_ok(2))
  ultimately have "engine_rep crc Map.empty [compacted st] n s'"
    using s'(2,3) parts(5) le by (simp add: engine_rep_def log_ok_empty footprint_def)
  then show ?thesis
    using that s'(1,4) f by blast
qed

text \<open>A commit group: its frames join the log, its operations the memtable.\<close>

definition logged :: "bytes \<Rightarrow> inner \<Rightarrow> inner" where
  "logged buf s = (append_wal buf s)\<lparr>i_journal_bytes := sat_add (i_journal_bytes s) (length buf)\<rparr>"

lemma logged_simps [simp]:
  "i_state (logged buf s) = i_state s" "i_pending (logged buf s) = i_pending s"
  "i_sequence (logged buf s) = i_sequence s" "i_table_sequence (logged buf s) = i_table_sequence s"
  "i_table_layers (logged buf s) = i_table_layers s" "i_table_files (logged buf s) = i_table_files s"
  "i_cache (logged buf s) = i_cache s" "d_files (i_disk (logged buf s)) = d_files (i_disk s)"
  "d_wal (i_disk (logged buf s)) = d_wal (i_disk s) @ buf" "load_manifest (i_disk (logged buf s)) = load_manifest (i_disk s)"
  "i_journal_bytes (logged buf s) = sat_add (i_journal_bytes s) (length buf)"
  "i_pending_bytes (logged buf s) = i_pending_bytes s" "i_max_memtable_bytes (logged buf s) = i_max_memtable_bytes s"
  "i_max_journaling_size (logged buf s) = i_max_journaling_size s"
  "i_recovery_required (logged buf s) = i_recovery_required s" "i_generation (logged buf s) = i_generation s"
  by (simp_all add: logged_def append_wal_def set_disk_def load_manifest_def)

lemma mem_ok_logged [simp]: "mem_ok crc ess (logged buf s) = mem_ok crc ess s"
  by (simp add: mem_ok_def)

lemma log_ok_commit:
  assumes "log_ok crc s" "encode_group crc [] (sat_inc (i_sequence s)) reqs = Ok (buf, next)"
    "length (d_wal (i_disk s)) + length buf \<le> usize_max" "unat (i_sequence s) + length reqs < usize_max"
    "d_wal (i_disk s') = d_wal (i_disk s) @ buf" "i_journal_bytes s' = sat_add (i_journal_bytes s) (length buf)"
    "i_table_sequence s' = i_table_sequence s" "i_sequence s' = sat_dec next"
    "i_state s' = fold apply_operation (concat reqs) (i_state s)"
  shows "log_ok crc s' \<and> unat (sat_dec next) = unat (i_sequence s) + length reqs"
proof -
  obtain fs where fs: "d_wal (i_disk s) = enc_log crc fs" "list_all frame_ok fs"
    "recover fs (i_table_sequence s, []) = (i_sequence s, i_state s)"
    and journal: "i_journal_bytes s = length (d_wal (i_disk s))"
    using assms(1) by (auto simp: log_ok_def)
  let ?gs = "number_frames (sat_inc (i_sequence s)) reqs"
  have gs: "list_all frame_ok ?gs" "buf = enc_log crc ?gs"
    using encode_group_frames [OF assms(2)] assms(3) by simp_all
  then have "next = (sat_inc ^^ length reqs) (sat_inc (i_sequence s))"
    using encode_group_enc [of "sat_inc (i_sequence s)" reqs crc "[]"] assms(2) by simp
  then have "next = sat_inc ((sat_inc ^^ length reqs) (i_sequence s))"
    by (simp add: funpow_swap1)
  then have dec: "sat_dec next = (sat_inc ^^ length reqs) (i_sequence s)"
    using sat_inc_steps [of "i_sequence s" "length reqs"] assms(4) by (simp add: sat_dec_inc)
  have "recover (fs @ ?gs) (i_table_sequence s, []) = (i_sequence s', i_state s')"
    using recover_numbered [of "i_sequence s" reqs] assms(4) by (simp add: recover_append fs(3) assms(8,9) dec)
  then have "log_ok crc s'"
    unfolding log_ok_def using fs gs assms(3,5-7) journal by (auto intro!: exI [of _ "fs @ ?gs"])
  then show ?thesis
    using sat_inc_steps [of "i_sequence s" "length reqs"] assms(4) by (simp add: dec)
qed

lemma commit_rep:
  assumes rep: "engine_rep crc base ess n s" and n: "n + group_cost (map cr_operations requests) < 2 ^ 60"
    and enc: "encode_group crc [] (sat_inc (i_sequence s)) (map cr_operations requests) = Ok (buf, next)"
  defines "s' \<equiv> apply_group requests next (logged buf s)"
  shows "engine_rep crc base ess (n + group_cost (map cr_operations requests)) s'"
    "engine_view crc s' = fold op_effect (concat (map cr_operations requests)) (engine_view crc s)"
    "unat (i_sequence s') = unat (i_sequence s) + length requests" "i_recovery_required s' = i_recovery_required s"
    "i_pending_bytes s' \<le> i_pending_bytes s + sum_list (map op_charge (concat (map cr_operations requests)))"
proof -
  let ?ops = "concat (map cr_operations requests)"
  let ?t = "fold apply_operation_with_pending ?ops (logged buf s)"
  obtain b where t: "?t = (logged buf s)\<lparr>i_state := fold apply_operation ?ops (i_state s),
      i_pending := fold pend_op ?ops (i_pending s), i_pending_bytes := b\<rparr>"
    using apply_operations_fields [of ?ops "logged buf s"] by auto
  have parts: "mem_ok crc ess s" "covered base s" "stored crc (i_disk s) (i_table_files s) ess (i_table_sequence s)"
    "map tl_path (i_table_layers s) = i_table_files s" "log_ok crc s" "i_table_sequence s \<le> i_sequence s"
    "i_pending s \<noteq> [] \<longrightarrow> i_table_sequence s < i_sequence s" "footprint ess s \<le> n"
    "length (d_wal (i_disk s)) \<le> n" "unat (i_sequence s) \<le> n" "i_pending_bytes s = charged (i_pending s)"
    using rep by (simp_all add: engine_rep_def)
  note cost = group_cost_ops [of "map cr_operations requests"] encode_group_cost [OF enc]
  have "covered base (logged buf s)"
    using parts(2) by (simp add: covered_def)
  then have applied: "mem_ok crc ess ?t" "engine_view crc ?t = fold op_effect ?ops (engine_view crc (logged buf s))" "covered base ?t"
    using apply_operations_ok [of crc ess "logged buf s" ?ops base] parts(1) by simp_all
  have log: "log_ok crc s' \<and> unat (sat_dec next) = unat (i_sequence s) + length requests"
    using log_ok_commit [OF parts(5) enc, of s'] cost parts(9,10) n
    by (simp add: s'_def apply_group_def t usize_max_def)
  have mem: "mem_ok crc ess s'" and cov: "covered base s'" and foot: "footprint ess s' = footprint ess ?t"
    using applied(1,3) by (simp_all add: s'_def apply_group_def mem_ok_def covered_def footprint_def)
  have "engine_view crc s' = engine_view crc ?t"
    unfolding engine_view_stacked [OF mem] engine_view_stacked [OF applied(1)] by (simp add: s'_def apply_group_def)
  moreover have "engine_view crc (logged buf s) = engine_view crc s"
    using engine_view_stacked [of crc ess "logged buf s"] engine_view_stacked [OF parts(1)] parts(1) by simp
  ultimately show "engine_view crc s' = fold op_effect ?ops (engine_view crc s)"
    using applied(2) by simp
  have f: "i_sequence s' = sat_dec next" "i_pending s' = fold pend_op ?ops (i_pending s)"
    "i_table_sequence s' = i_table_sequence s" "i_table_files s' = i_table_files s"
    "i_table_layers s' = i_table_layers s" "i_disk s' = i_disk (logged buf s)"
    by (simp_all add: s'_def apply_group_def t)
  have "stored crc (i_disk s') (i_table_files s') ess (i_table_sequence s')"
    unfolding f by (rule stored_cong [OF parts(3)]) simp_all
  moreover have "i_table_sequence s < sat_dec next" if "i_pending s' \<noteq> []"
  proof (cases "requests = []")
    case True
    then show ?thesis
      using that parts(7) log f by (simp add: word_less_nat_alt)
  next
    case False
    then have "0 < length requests" by simp
    then show ?thesis
      using log parts(6) unfolding word_less_nat_alt word_le_nat_alt by linarith
  qed
  moreover have "footprint ess s' \<le> n + group_cost (map cr_operations requests)"
    using footprint_apply_all [of ess ?ops "logged buf s"] cost(1) parts(8) foot by (simp add: footprint_def)
  moreover have "unat (sat_dec next) \<le> n + group_cost (map cr_operations requests)"
    "length (d_wal (i_disk s')) \<le> n + group_cost (map cr_operations requests)"
    using log parts(9,10) cost by (simp_all add: f)
  moreover have charge: "i_pending_bytes s' = charged (i_pending s') \<and>
      i_pending_bytes s' \<le> i_pending_bytes s + sum_list (map op_charge ?ops)"
  proof -
    have "charged (i_pending s) + sum_list (map op_charge ?ops) \<le> usize_max"
      using charged_le [of "i_pending s"] op_charge_le [of ?ops] parts(8) n cost(1)
      by (simp add: footprint_def usize_max_def)
    moreover have "bm_ok (i_pending (logged buf s))" "i_pending_bytes (logged buf s) = charged (i_pending (logged buf s))"
      using parts(1,11) by (simp_all add: mem_ok_def)
    ultimately show ?thesis
      using apply_operations_charged [of "logged buf s" ?ops] f(2) by (simp add: s'_def apply_group_def)
  qed
  ultimately show "engine_rep crc base ess (n + group_cost (map cr_operations requests)) s'"
    using mem cov log parts(4,6) f by (simp add: engine_rep_def word_le_nat_alt)
  show "unat (i_sequence s') = unat (i_sequence s) + length requests"
    "i_recovery_required s' = i_recovery_required s"
    "i_pending_bytes s' \<le> i_pending_bytes s + sum_list (map op_charge ?ops)"
    using log f charge by (simp_all add: s'_def apply_group_def t)
qed

section \<open>A new database\<close>

definition empty_disk :: disk where
  "empty_disk = \<lparr>d_files = [], d_manifest = No_Manifest, d_manifest_temp = None, d_wal = [], d_lock = False\<rparr>"

definition new_database :: "db_options \<Rightarrow> inner" where
  "new_database opts = \<lparr>i_disk = \<lparr>d_files = [], d_manifest = Manifest_File \<lparr>m_format_version = FORMAT_VERSION,
       m_table_file = None, m_table_files = [], m_table_sequence = 0\<rparr>, d_manifest_temp = None, d_wal = [], d_lock = True\<rparr>,
     i_state = [], i_sequence = 0, i_table_sequence = 0, i_table_files = [], i_table_layers = [], i_pending = [],
     i_pending_bytes = 0, i_max_journaling_size = o_max_journaling_size opts,
     i_max_memtable_bytes = o_max_memtable_bytes opts, i_max_table_layers = o_max_table_layers opts,
     i_journal_bytes = 0, i_frame_count = 0, i_cache = bc_with_capacity TABLE_BLOCK_CACHE_BYTES,
     i_recovery_required = False, i_generation = 0, i_flush_scheduled = False\<rparr>"

lemma open_new: "open_database crc None opts empty_disk = (Ok (new_database opts), i_disk (new_database opts))"
proof -
  have "replay_wal crc [] 0 [] = Ok (0, 0, 0, [])"
    using replay_wal_log [of "[]" crc "[]" 0 "[]"] by (simp add: torn_tail_def)
  then show ?thesis
    by (simp add: open_database_def open_locked_def empty_disk_def new_database_def cleanup_temporary_files_def
        load_manifest_def Let_def write_manifest_def set_disk_def st_then_def st_do_def st_try_def)
qed

lemma new_database_rep: "engine_rep crc Map.empty [] 0 (new_database opts)"
proof -
  have "load_manifest (i_disk (new_database opts)) = Ok (Some \<lparr>m_format_version = FORMAT_VERSION,
       m_table_file = None, m_table_files = [], m_table_sequence = 0\<rparr>)"
    by (simp add: load_manifest_def new_database_def validate_manifest_def manifest_tables_def)
  moreover have "cache_ok 0 [] (bc_with_capacity k)" for k
    using fresh_cache_ok [of crc "[]" "[]" 0] by simp
  moreover have "log_ok crc (new_database opts)"
    by (rule log_ok_empty) (simp_all add: new_database_def)
  ultimately show ?thesis
    by (simp add: engine_rep_def mem_ok_def covered_def stored_def footprint_def manifest_tables_def)
      (simp add: new_database_def)
qed

lemma new_database_ok: "engine_ok crc 0 (new_database opts)"
  using new_database_rep by (auto simp: engine_ok_def)

lemma new_database_view: "engine_view crc (new_database opts) = (\<lambda>_. None)"
  by (simp add: fun_eq_iff engine_view_stacked [OF engine_rep_mem [OF new_database_rep]] stacked_def)
    (simp add: new_database_def)

section \<open>Commits\<close>

text \<open>The maintenance after a commit keeps the view, whatever becomes of it.\<close>

lemma after_apply_rep:
  assumes rep: "engine_rep crc Map.empty ess n s" and n: "n < 2 ^ 60" and "\<not> i_recovery_required s" "i_pending s \<noteq> []"
    "after_apply crc io requests s = (r, s')"
  shows "engine_ok crc n s' \<and> engine_view crc s' = engine_view crc s \<and> (r = Ok () \<longrightarrow> \<not> i_recovery_required s') \<and>
    i_pending_bytes s' \<le> i_pending_bytes s \<and>
    (request_has_fault requests ''before-table-write'' = None \<and> io_spawn_ok io \<longrightarrow> r = Ok ())"
proof -
  let ?fault = "request_has_fault requests ''before-table-write''"
  have fail: "flush_table_locked crc None (Some ''before-table-write'') s =
      (Err e, s\<lparr>i_generation := sat_add (i_generation s) 1\<rparr>)" if "injected ''before-table-write'' = Err e" for e
  proof -
    have "table_bytes (i_pending s) < 2 ^ 60"
      using rep n by (simp add: engine_rep_def footprint_def)
    then show ?thesis
      using flush_failed [OF assms(3,4) write_table_ok, where tf = None and fp = "Some ''before-table-write''"] that
      by (simp add: publish_outcome_def publish_stage_def)
  qed
  obtain s1 where s1: "flush_table_locked crc None None s = (Ok (), s1)" "engine_rep crc Map.empty (ess @ [i_pending s]) n s1"
    "engine_view crc s1 = engine_view crc s" "\<not> i_recovery_required s1"
    "compact_table_name (i_sequence s1) \<notin> set (i_table_files s1)" "i_pending_bytes s1 = 0"
    using flush_rep [OF rep n assms(3,4)] assms(3) by metis
  obtain s2 es where s2: "compact_tables_locked crc None None s1 = (Ok (), s2)" "engine_rep crc Map.empty [es] n s2"
    "engine_view crc s2 = engine_view crc s1" "\<not> i_recovery_required s2" "i_pending_bytes s2 = 0"
    using compact_rep [OF s1(2) n s1(4,5)] s1(4) by metis
  have fault: "?fault \<noteq> None \<Longrightarrow> ?fault = Some ''before-table-write''"
    by (simp add: request_has_fault_def split: if_splits)
  define due where "due \<longleftrightarrow> i_pending_bytes s \<ge> i_max_memtable_bytes s \<or>
    i_max_journaling_size s > 0 \<and> i_journal_bytes s \<ge> i_max_journaling_size s"
  note def = after_apply_def [of crc io requests s, unfolded Let_def, folded due_def]
  consider "\<not> due" | "due" "?fault \<noteq> None" | "due" "?fault = None" "i_max_memtable_bytes s \<le> 1"
    | "due" "?fault = None" "\<not> i_max_memtable_bytes s \<le> 1"
    by blast
  then show ?thesis
  proof cases
    case 1
    then show ?thesis
      using assms(3,5) rep by (auto simp: def engine_ok_def)
  next
    case 2
    then have "after_apply crc io requests s = (injected ''before-table-write'', s\<lparr>i_generation := sat_add (i_generation s) 1\<rparr>)"
      using fault fail by (simp add: def st_then_def injected_def)
    then show ?thesis
      using assms(5) rep 2(2) by (auto simp: engine_ok_def injected_def)
  next
    case 3
    then have "after_apply crc io requests s = (if length (i_table_layers s1) \<ge> i_max_table_layers s1 then (Ok (), s2) else (Ok (), s1))"
      using s1(1) s2(1) by (simp add: def st_then_def)
    then show ?thesis
      using assms(5) s1 s2 by (auto simp: engine_ok_def split: if_splits)
  next
    case 4
    then have "after_apply crc io requests s = (if i_flush_scheduled s then (Ok (), s)
        else if io_spawn_ok io then (Ok (), s\<lparr>i_flush_scheduled := True\<rparr>)
        else (Err (Message ''ThingDB could not start its background flush worker''), s\<lparr>i_recovery_required := True\<rparr>))"
      by (simp add: def schedule_background_flush_def)
    then show ?thesis
      using assms(3,5) rep by (auto simp: engine_ok_def split: if_splits)
  qed
qed

text \<open>The ways a group can end.\<close>

definition well_formed_group :: "commit_request list \<Rightarrow> bool" where
  "well_formed_group requests \<longleftrightarrow> requests \<noteq> [] \<and> (\<forall>r \<in> set requests. cr_operations r \<noteq> [])"

lemma undo_append_restores:
  assumes "i_journal_bytes s = length (d_wal (i_disk s))" "io_set_len_ok io"
  shows "undo_append io (i_journal_bytes s) (append_wal buf s) = s"
  using assms by (simp add: undo_append_def truncate_wal_def append_wal_def set_disk_def)

lemma undo_append_view: "engine_view crc (undo_append io k (append_wal buf s)) = engine_view crc s"
  "i_recovery_required (undo_append io k (append_wal buf s)) = i_recovery_required s"
  by (simp_all add: undo_append_def truncate_wal_def append_wal_def set_disk_def fun_eq_iff engine_view_def
      get_durable_value_def split: option.split prod.split)

lemma append_wal_simps [simp]: "i_sequence (append_wal buf s) = i_sequence s" "i_generation (append_wal buf s) = i_generation s"
  by (simp_all add: append_wal_def set_disk_def)

lemma append_wal_view [simp]: "engine_view crc (append_wal buf s) = engine_view crc s"
  "i_recovery_required (append_wal buf s) = i_recovery_required s"
  by (simp_all add: append_wal_def set_disk_def)

lemma logged_view [simp]: "engine_view crc (logged buf s) = engine_view crc s"
  by (simp add: fun_eq_iff engine_view_def get_durable_value_def logged_def append_wal_def set_disk_def
      split: option.split prod.split)

lemma pending_after_group:
  assumes "well_formed_group requests"
  shows "i_pending (apply_group requests next s) \<noteq> []"
proof -
  obtain r rs where "requests = r # rs" "cr_operations r \<noteq> []"
    using assms by (cases requests) (auto simp: well_formed_group_def)
  then have "concat (map cr_operations requests) \<noteq> []"
    by simp
  moreover obtain b where "fold apply_operation_with_pending (concat (map cr_operations requests)) s =
      s\<lparr>i_state := fold apply_operation (concat (map cr_operations requests)) (i_state s),
        i_pending := fold pend_op (concat (map cr_operations requests)) (i_pending s), i_pending_bytes := b\<rparr>"
    using apply_operations_fields by blast
  ultimately show ?thesis
    using fold_pend_op_nonempty by (simp add: apply_group_def)
qed

text \<open>A group nothing goes wrong with: no fault is injected, and the operating system does its part.\<close>

definition calm_group :: "commit_io \<Rightarrow> commit_request list \<Rightarrow> bool" where
  "calm_group io requests \<longleftrightarrow> io_short_write io = None \<and> io_sync_ok io \<and> io_spawn_ok io \<and>
     (\<forall>r \<in> set requests. cr_fault_point r = None \<and> length (cr_operations r) < 2 ^ 32)"

lemma calm_group_faults: "calm_group io requests \<Longrightarrow> request_has_fault requests p = None"
  by (auto simp: calm_group_def request_has_fault_def)

lemma calm_group_spawn: "calm_group io requests \<Longrightarrow> io_spawn_ok io"
  by (simp add: calm_group_def)

lemma calm_group_frames:
  assumes "calm_group io requests" "group_cost (map cr_operations requests) < 2 ^ 60"
  shows "list_all frame_ok (number_frames q (map cr_operations requests))"
  using assms
proof (induction requests arbitrary: q)
  case (Cons r requests)
  then show ?case
    by (simp add: calm_group_def group_cost_def request_cost_def frame_ok_def length_enc_body usize_max_def)
qed simp

definition group_outcome ::
    "(bytes \<Rightarrow> u32) \<Rightarrow> commit_io \<Rightarrow> commit_request list \<Rightarrow> nat \<Rightarrow> inner \<Rightarrow> unit db_result \<Rightarrow> bool \<Rightarrow> inner \<Rightarrow> bool" where
  "group_outcome crc io requests n s r synced s' \<longleftrightarrow> (calm_group io requests \<longrightarrow> r = Ok ()) \<and>
     (r = Ok () \<longrightarrow>
        i_pending_bytes s' \<le> i_pending_bytes s + sum_list (map op_charge (concat (map cr_operations requests)))) \<and>
     (if synced
      then engine_ok crc (n + group_cost (map cr_operations requests)) s' \<and>
           engine_view crc s' = fold op_effect (concat (map cr_operations requests)) (engine_view crc s) \<and>
           (r = Ok () \<longrightarrow> \<not> i_recovery_required s') \<or>
           r \<noteq> Ok () \<and> engine_view crc s' = engine_view crc s
      else r \<noteq> Ok () \<and> engine_view crc s' = engine_view crc s \<and> i_recovery_required s' = i_recovery_required s \<and>
           (io_short_write io = None \<and> io_set_len_ok io \<longrightarrow> s' = s))"

lemma execute_group_outcome:
  assumes rep: "engine_rep crc Map.empty ess n s" and n: "n + group_cost (map cr_operations requests) < 2 ^ 60"
    and "\<not> i_recovery_required s" "well_formed_group requests"
    and exec: "execute_group crc io requests (sat_inc (i_sequence s)) (i_generation s) (i_journal_bytes s) s = (r, synced, s')"
  shows "group_outcome crc io requests n s r synced s'"
proof (cases "encode_group crc [] (sat_inc (i_sequence s)) (map cr_operations requests)")
  case (Inl e)
  then have "\<not> calm_group io requests"
    using calm_group_frames [of io requests] encode_group_enc n by fastforce
  then show ?thesis
    using Inl exec by (auto simp: execute_group_def group_outcome_def)
next
  case (Inr p)
  obtain buf nxt where enc: "encode_group crc [] (sat_inc (i_sequence s)) (map cr_operations requests) = Ok (buf, nxt)"
    using Inr by (cases p) auto
  have journal: "i_journal_bytes s = length (d_wal (i_disk s))"
    using rep by (simp add: engine_rep_def log_ok_def)
  have calm: "\<not> group_conflict (sat_inc (i_sequence s)) (i_generation s) s"
    "\<not> group_conflict (sat_inc (i_sequence s)) (i_generation s) (logged buf s)"
    using assms(3) by (simp_all add: group_conflict_def)
  note undo = undo_append_restores [OF journal] undo_append_view
  let ?applied = "apply_group requests nxt (logged buf s)"
  obtain r2 s2 where after: "after_apply crc io requests ?applied = (r2, s2)"
    by (cases "after_apply crc io requests ?applied")
  have finish: "engine_ok crc (n + group_cost (map cr_operations requests)) s2 \<and>
      engine_view crc s2 = fold op_effect (concat (map cr_operations requests)) (engine_view crc s) \<and>
      (r2 = Ok () \<longrightarrow> \<not> i_recovery_required s2) \<and> (calm_group io requests \<longrightarrow> r2 = Ok ()) \<and>
      i_pending_bytes s2 \<le> i_pending_bytes s + sum_list (map op_charge (concat (map cr_operations requests)))"
    using after_apply_rep [OF commit_rep(1) [OF rep n enc] n _ pending_after_group [OF assms(4)] after]
      commit_rep(2,4,5) [OF rep n enc] assms(3) calm_group_faults calm_group_spawn by fastforce
  have calm_fails: "fail_group requests p = Ok ()" if "calm_group io requests" for p
    using calm_group_faults [OF that] by (simp add: fail_group_def)
  have exec': "execute_group crc io requests (sat_inc (i_sequence s)) (i_generation s) (i_journal_bytes s) s =
     (case fail_group requests ''before-wal-append'' of Inl e \<Rightarrow> (Err e, False, s) | Inr _ \<Rightarrow>
      case io_short_write io of
        Some k \<Rightarrow> (Err (Message ''write error''), False, append_wal (take k buf) s)
      | None \<Rightarrow>
        case fail_group requests ''after-wal-write-before-sync'' of
          Inl e \<Rightarrow> (Err e, False, undo_append io (i_journal_bytes s) (append_wal buf s))
        | Inr _ \<Rightarrow>
          if \<not> io_sync_ok io then (Err (Message ''sync error''), False, undo_append io (i_journal_bytes s) (append_wal buf s))
          else case fail_group requests ''after-wal-sync-before-state-apply'' of
            Inl e \<Rightarrow> (Err e, True, logged buf s) | Inr _ \<Rightarrow> (r2, True, s2))"
    using calm after by (simp add: execute_group_def enc logged_def Let_def split: sum.split option.split)
  show ?thesis
    using exec finish calm_fails unfolding exec' group_outcome_def
    by (auto simp: undo calm_group_def split: sum.splits option.splits if_splits)
qed

lemma process_group_outcome:
  assumes ok: "engine_ok crc n s" and n: "n + group_cost (map cr_operations requests) < 2 ^ 60"
    and "well_formed_group requests" "\<not> i_recovery_required s" "process_group crc io requests s = (r, s')"
  obtains s1 s2 synced where "engine_ok crc n s1" "engine_view crc s1 = engine_view crc s" "\<not> i_recovery_required s1"
    "group_outcome crc io requests n s1 r synced s2"
    "s' = (if r \<noteq> Ok () \<and> synced then s2\<lparr>i_recovery_required := True\<rparr> else s2)"
    "1 < i_max_memtable_bytes s \<Longrightarrow> i_max_memtable_bytes s < 2 ^ 60 \<Longrightarrow> i_pending_bytes s1 < 2 * i_max_memtable_bytes s"
proof -
  obtain ess where rep: "engine_rep crc Map.empty ess n s"
    using ok by (auto simp: engine_ok_def)
  have n': "n < 2 ^ 60" using n by simp
  define first where "first = (if i_max_memtable_bytes s > 1 \<and> i_pending_bytes s \<ge> sat_mul (i_max_memtable_bytes s) 2
      then flush_table_locked crc None None s else (Ok (), s))"
  have sat: "sat_mul (i_max_memtable_bytes s) 2 = 2 * i_max_memtable_bytes s" if "i_max_memtable_bytes s < 2 ^ 60"
    using that by (simp add: sat_mul_def usize_max_def)
  have "\<exists>ess1 s1. first = (Ok (), s1) \<and> engine_rep crc Map.empty ess1 n s1 \<and> engine_view crc s1 = engine_view crc s \<and>
      \<not> i_recovery_required s1 \<and> (1 < i_max_memtable_bytes s \<and> i_max_memtable_bytes s < 2 ^ 60 \<longrightarrow>
        i_pending_bytes s1 < 2 * i_max_memtable_bytes s)"
  proof (cases "i_pending s = []")
    case True
    moreover from this have "i_pending_bytes s = 0"
      using rep by (simp add: engine_rep_def)
    ultimately show ?thesis
      using rep assms(4) by (auto simp: first_def flush_table_locked_def)
  next
    case False
    obtain s1 where "flush_table_locked crc None None s = (Ok (), s1)" "engine_rep crc Map.empty (ess @ [i_pending s]) n s1"
      "engine_view crc s1 = engine_view crc s" "\<not> i_recovery_required s1" "i_pending_bytes s1 = 0"
      using flush_rep [OF rep n' assms(4) False] assms(4) by metis
    then show ?thesis
      using rep assms(4) sat by (auto simp: first_def)
  qed
  then obtain ess1 s1 where s1: "first = (Ok (), s1)" "engine_rep crc Map.empty ess1 n s1"
    "engine_view crc s1 = engine_view crc s" "\<not> i_recovery_required s1" "1 < i_max_memtable_bytes s \<and>
      i_max_memtable_bytes s < 2 ^ 60 \<longrightarrow> i_pending_bytes s1 < 2 * i_max_memtable_bytes s"
    by blast
  obtain r2 synced s2 where exec: "execute_group crc io requests (sat_inc (i_sequence s1)) (i_generation s1)
      (i_journal_bytes s1) s1 = (r2, synced, s2)"
    by (cases "execute_group crc io requests (sat_inc (i_sequence s1)) (i_generation s1) (i_journal_bytes s1) s1") auto
  have "process_group crc io requests s =
      (r2, if r2 \<noteq> Ok () \<and> synced then s2\<lparr>i_recovery_required := True\<rparr> else s2)"
    using assms(4) s1(1) exec by (simp add: process_group_def first_def split: sum.split)
  then show ?thesis
    using that [of s1 synced s2] s1 execute_group_outcome [OF s1(2) n s1(4) assms(3) exec] assms(5)
    by (auto simp: engine_ok_def)
qed

text \<open>
  C1: A commit group is atomic. If the writer acknowledges it, the view has all its operations
  applied in order and the engine and its directory are consistent again; if it reports an error,
  the view has either not changed, or has every operation applied and the engine refuses further
  writes. A group that fails before the log is synced leaves a consistent directory, provided the
  write did not stop half-way and the log could be cut back.
\<close>

theorem commit_atomic:
  assumes "engine_ok crc n s" "n + group_cost (map cr_operations requests) < 2 ^ 60" "well_formed_group requests"
    "process_group crc io requests s = (r, s')"
  defines "applied \<equiv> fold op_effect (concat (map cr_operations requests)) (engine_view crc s)"
  shows "(r = Ok () \<longrightarrow> engine_ok crc (n + group_cost (map cr_operations requests)) s' \<and>
      \<not> i_recovery_required s' \<and> engine_view crc s' = applied) \<and>
    (r \<noteq> Ok () \<longrightarrow> engine_view crc s' = engine_view crc s \<or> i_recovery_required s' \<and> engine_view crc s' = applied) \<and>
    (r \<noteq> Ok () \<and> \<not> i_recovery_required s' \<and> io_short_write io = None \<and> io_set_len_ok io \<longrightarrow>
      engine_ok crc n s' \<and> engine_view crc s' = engine_view crc s)"
proof -
  consider "i_recovery_required s" "r \<noteq> Ok ()" "s' = s" | "\<not> i_recovery_required s"
    using assms(4) by (cases "i_recovery_required s") (auto simp: process_group_def)
  then show ?thesis
  proof cases
    case 2
    obtain s1 s2 synced where "engine_ok crc n s1" "engine_view crc s1 = engine_view crc s" "\<not> i_recovery_required s1"
      "group_outcome crc io requests n s1 r synced s2"
      "s' = (if r \<noteq> Ok () \<and> synced then s2\<lparr>i_recovery_required := True\<rparr> else s2)"
      using process_group_outcome [OF assms(1-3) 2 assms(4)] .
    then show ?thesis
      by (cases synced) (auto simp: group_outcome_def applied_def)
  qed simp
qed

lemma calm_commit:
  assumes "engine_ok crc n s" "n + group_cost (map cr_operations requests) < 2 ^ 60" "well_formed_group requests"
    "\<not> i_recovery_required s" "calm_group io requests"
  obtains s' where "process_group crc io requests s = (Ok (), s')"
proof -
  obtain r s' where r: "process_group crc io requests s = (r, s')"
    by (cases "process_group crc io requests s")
  obtain s1 s2 synced where "group_outcome crc io requests n s1 r synced s2"
    using process_group_outcome [OF assms(1-4) r] .
  then show ?thesis
    using assms(5) r that by (simp add: group_outcome_def)
qed

text \<open>A first commit to a new database, for the witnesses.\<close>

definition demo_options :: db_options where
  "demo_options = \<lparr>o_max_journaling_size = 0, o_max_memtable_bytes = 10, o_max_table_layers = 4\<rparr>"

definition demo_io :: commit_io where
  "demo_io = \<lparr>io_short_write = None, io_sync_ok = True, io_set_len_ok = True, io_spawn_ok = True\<rparr>"

definition demo_group :: "commit_request list" where
  "demo_group = [\<lparr>cr_operations = [Put [1] [2], Put [3] [4]], cr_fault_point = None\<rparr>,
     \<lparr>cr_operations = [Delete [3]], cr_fault_point = None\<rparr>]"

lemma demo_group_facts:
  "well_formed_group demo_group" "calm_group demo_io demo_group" "map cr_operations demo_group = [[Put [1] [2], Put [3] [4]], [Delete [3]]]"
  "0 + group_cost (map cr_operations demo_group) < 2 ^ 60" "\<not> i_recovery_required (new_database demo_options)"
  by (simp_all add: demo_group_def well_formed_group_def calm_group_def demo_io_def group_cost_def request_cost_def
      new_database_def)

lemma demo_commit:
  obtains s' where "process_group crc demo_io demo_group (new_database demo_options) = (Ok (), s')"
  using calm_commit [OF new_database_ok demo_group_facts(4,1,5,2)] by metis

text \<open>The state after the group, before any maintenance.\<close>

definition demo_state :: "(bytes \<Rightarrow> u32) \<Rightarrow> inner" where
  "demo_state crc = apply_group demo_group 3
     (logged (enc_log crc (number_frames 1 (map cr_operations demo_group))) (new_database demo_options))"

lemma demo_state_facts:
  "engine_ok crc (group_cost (map cr_operations demo_group)) (demo_state crc)"
  "i_pending (demo_state crc) = [([1], Some [2]), ([3], None)]" "i_max_memtable_bytes (demo_state crc) = 10"
  "\<not> i_recovery_required (demo_state crc)" "engine_view crc (demo_state crc) = Map.empty([1] \<mapsto> [2])"
  "i_table_files (demo_state crc) = []"
  "engine_rep crc Map.empty [] (group_cost (map cr_operations demo_group)) (demo_state crc)"
proof -
  have one: "sat_inc (i_sequence (new_database demo_options)) = 1" and three: "(sat_inc ^^ length (map cr_operations demo_group)) 1 = 3"
    by (simp_all add: new_database_def sat_inc_def demo_group_def)
  have frames: "list_all frame_ok (number_frames 1 (map cr_operations demo_group))"
    using calm_group_frames [OF demo_group_facts(2)] demo_group_facts(4) by simp
  have enc: "encode_group crc [] (sat_inc (i_sequence (new_database demo_options))) (map cr_operations demo_group) =
      Ok (enc_log crc (number_frames 1 (map cr_operations demo_group)), 3)"
    using encode_group_enc [OF frames, where crc = crc and out = "[]"] unfolding one three by simp
  note commit = commit_rep [OF new_database_rep demo_group_facts(4) enc, folded demo_state_def]
  show "engine_ok crc (group_cost (map cr_operations demo_group)) (demo_state crc)" "\<not> i_recovery_required (demo_state crc)"
    "engine_rep crc Map.empty [] (group_cost (map cr_operations demo_group)) (demo_state crc)"
    using commit(1,4) demo_group_facts(5) by (auto simp: engine_ok_def)
  show "engine_view crc (demo_state crc) = Map.empty([1] \<mapsto> [2])"
    using commit(2) by (simp add: demo_group_facts(3) new_database_view op_effect_def)
  obtain b where "fold apply_operation_with_pending (concat (map cr_operations demo_group)) s =
      s\<lparr>i_state := fold apply_operation (concat (map cr_operations demo_group)) (i_state s),
        i_pending := fold pend_op (concat (map cr_operations demo_group)) (i_pending s), i_pending_bytes := b s\<rparr>" for s
    using apply_operations_fields by metis
  then show "i_pending (demo_state crc) = [([1], Some [2]), ([3], None)]" "i_max_memtable_bytes (demo_state crc) = 10"
    "i_table_files (demo_state crc) = []"
    by (simp_all add: demo_state_def apply_group_def demo_group_facts(3) pend_op_def)
      (simp_all add: new_database_def demo_options_def)
qed

text \<open>
  C6: A commit is acknowledged whenever the operating system does its part: if no fault is injected,
  the append, the sync and (where one is due) the start of the flush thread succeed, and each
  request has fewer than \<open>2 ^ 32\<close> operations, the writer answers \<open>Ok\<close>. Flushes and compactions due on
  the way succeed as well.
\<close>

theorem commit_acknowledged:
  assumes "engine_ok crc n s" "n + group_cost (map cr_operations requests) < 2 ^ 60" "well_formed_group requests"
    "\<not> i_recovery_required s" "calm_group io requests"
  shows "\<exists>s'. process_group crc io requests s = (Ok (), s')"
  using calm_commit [OF assms] by metis

theorem commit_acknowledged_witness:
  "\<exists>s'. process_group (\<lambda>_. 0) demo_io demo_group (new_database demo_options) = (Ok (), s')"
  by (rule commit_acknowledged [OF new_database_ok demo_group_facts(4,1,5,2)])

theorem commit_atomic_witness:
  "\<exists>s'. process_group (\<lambda>_. 0) demo_io demo_group (new_database demo_options) = (Ok (), s') \<and>
    engine_view (\<lambda>_. 0) s' [1] = Some [2] \<and> engine_view (\<lambda>_. 0) s' [3] = None"
proof -
  obtain s' where s': "process_group (\<lambda>_. 0) demo_io demo_group (new_database demo_options) = (Ok (), s')"
    using demo_commit .
  then have "engine_view (\<lambda>_. 0) s' = fold op_effect [Put [1] [2], Put [3] [4], Delete [3]] (\<lambda>_. None)"
    using commit_atomic [OF new_database_ok demo_group_facts(4,1) s'] by (simp add: demo_group_facts(3) new_database_view)
  then show ?thesis
    using s' by (simp add: op_effect_def)
qed

section \<open>Background maintenance\<close>



section \<open>The memtable bound\<close>

text \<open>
  C8: Backpressure. With the memtable bound \<open>max_memtable_bytes\<close> above one byte, the memtable never
  holds more than twice the bound plus what the last group wrote: before a group is admitted, a
  memtable of twice the bound or more is flushed. The size is charged exactly (key, one byte and
  value of every entry), with overwritten entries refunded.
\<close>

theorem memtable_bounded:
  assumes "engine_ok crc n s" "n + group_cost (map cr_operations requests) < 2 ^ 60" "well_formed_group requests"
    "1 < i_max_memtable_bytes s" "i_max_memtable_bytes s < 2 ^ 60" "process_group crc io requests s = (Ok (), s')"
  shows "i_pending_bytes s' = charged (i_pending s') \<and>
    i_pending_bytes s' < 2 * i_max_memtable_bytes s + sum_list (map op_charge (concat (map cr_operations requests)))"
proof -
  have calm: "\<not> i_recovery_required s"
    using assms(6) by (auto simp: process_group_def)
  obtain s1 s2 synced where o: "group_outcome crc io requests n s1 (Ok ()) synced s2" "s' = s2"
    "i_pending_bytes s1 < 2 * i_max_memtable_bytes s"
    using process_group_outcome [OF assms(1-3) calm assms(6)] assms(4,5) by metis
  then have "i_pending_bytes s2 = charged (i_pending s2)"
    by (auto simp: group_outcome_def engine_ok_def engine_rep_def split: if_splits)
  then show ?thesis
    using o by (simp add: group_outcome_def)
qed

theorem memtable_bounded_witness:
  "\<exists>s'. process_group (\<lambda>_. 0) demo_io demo_group (new_database demo_options) = (Ok (), s') \<and> i_pending_bytes s' < 28"
proof -
  obtain s' where s': "process_group (\<lambda>_. 0) demo_io demo_group (new_database demo_options) = (Ok (), s')"
    using demo_commit .
  have "i_max_memtable_bytes (new_database demo_options) = 10"
    by (simp add: new_database_def demo_options_def)
  then show ?thesis
    using memtable_bounded [OF new_database_ok demo_group_facts(4,1) _ _ s'] s' by (simp add: demo_group_facts(3))
qed

end
