(* ===== verification/Engine_Crash.thy ===== *)
theory Engine_Crash
  imports Engine_Durability
begin

text \<open>
  Opening a directory: a new database satisfies \<open>engine_ok\<close>, and a directory left behind at any
  point of a commit, a flush or a compaction opens again. Recovery puts the log into the mutable
  state only, not into the memtable, so the deletions in the log are not seen over older tables;
  the theorems state exactly which keys are recovered, and that the recovered part of the state is
  dropped by the next flush.
\<close>

section \<open>Opening\<close>

lemma recover_ok: "bm_ok st \<Longrightarrow> bm_ok (snd (recover fs (l, st)))"
proof (induction fs arbitrary: l st)
  case (Cons f fs)
  have "bm_ok (fold apply_operation ops st)" for ops
    using Cons.prems by (induction ops arbitrary: st) (simp_all add: bm_ok_apply_operation)
  then show ?case
    using Cons by (cases f) simp
qed simp

lemma recover_max: "l \<le> fst (recover fs (l, st)) \<and> (\<forall>f \<in> set fs. fst f \<le> fst (recover fs (l, st)))"
proof (induction fs arbitrary: l st)
  case (Cons f fs)
  obtain q ops where f: "f = (q, ops)" by (cases f)
  show ?case
    using Cons.IH [of q "fold apply_operation ops st"] Cons.IH [of l st] by (auto simp: f intro: order_trans)
qed simp

lemma recover_old: "\<forall>f \<in> set fs. fst f \<le> l \<Longrightarrow> recover fs (l, st) = (l, st)"
  by (induction fs) auto

lemma open_stored:
  assumes "stored crc d files ess ts" "d_wal d = enc_log crc fs @ t" "list_all frame_ok fs" "torn_tail crc t"
    "length (d_wal d) \<le> usize_max"
  obtains s where "open_locked crc tf opts d = (Ok s, i_disk s)" "mem_ok crc ess s" "i_pending s = []"
    "i_state s = snd (recover fs (ts, []))" "i_sequence s = fst (recover fs (ts, []))" "i_table_sequence s = ts"
    "i_table_files s = files" "map tl_path (i_table_layers s) = files" "\<not> i_recovery_required s"
    "i_disk s = (cleanup_temporary_files d)\<lparr>d_wal := enc_log crc fs\<rparr>" "i_journal_bytes s = length (enc_log crc fs)"
    "i_pending_bytes s = 0" "i_max_memtable_bytes s = o_max_memtable_bytes opts"
    "i_max_journaling_size s = o_max_journaling_size opts"
proof -
  let ?d = "cleanup_temporary_files d"
  obtain m where m: "load_manifest d = Ok (Some m)" "manifest_tables m = files" "m_table_sequence m = ts"
    and tables: "tables_stored crc d ts 0 files ess" and sorted: "sorted_wrt (<) files"
    using assms(1) by (auto simp: stored_def)
  have names: "\<forall>f \<in> set files. table_name ts f"
    using tables_stored_names [OF tables] by blast
  have "tables_stored crc ?d ts 0 files ess"
    by (rule tables_stored_cong [OF tables]) (use names cleanup_keeps in auto)
  then obtain layers where layers: "open_tables crc ?d ts 0 files = Ok layers" "list_all2 (layer_holds crc) ess layers"
    "map tl_path layers = files"
    by (rule open_tables_ok)
  obtain l st where r: "recover fs (ts, []) = (l, st)"
    by (cases "recover fs (ts, [])")
  then have st: "bm_ok st" "ts \<le> l"
    using recover_ok [of "[]" fs ts] recover_max [of ts fs "[]"] by simp_all
  have replay: "replay_wal crc (d_wal ?d) ts [] = Ok (l, length (enc_log crc fs), length fs, st)"
    using replay_wal_log [OF assms(3,4), of ts "[]"] assms(2,5) r by simp
  have "distinct (map tl_path layers)" "\<forall>x \<in> set layers. table_name ts (tl_path x)"
    using sorted names layers(3) by (auto simp: strict_sorted_iff)
  then have "cache_ok ts layers (bc_with_capacity k)" for k
    by (intro fresh_cache_ok [OF layers(2)])
  moreover define s where "s = \<lparr>i_disk = ?d\<lparr>d_wal := enc_log crc fs\<rparr>, i_state = st, i_sequence = l,
    i_table_sequence = ts, i_table_files = files, i_table_layers = layers, i_pending = [], i_pending_bytes = 0,
    i_max_journaling_size = o_max_journaling_size opts, i_max_memtable_bytes = o_max_memtable_bytes opts,
    i_max_table_layers = o_max_table_layers opts, i_journal_bytes = length (enc_log crc fs),
    i_frame_count = length fs, i_cache = bc_with_capacity TABLE_BLOCK_CACHE_BYTES, i_recovery_required = False,
    i_generation = 0, i_flush_scheduled = False\<rparr>"
  ultimately have "mem_ok crc ess s"
    using layers(2) st(1) by (simp add: mem_ok_def)
  moreover have "open_locked crc tf opts d = (Ok s, i_disk s)"
    using m layers(1) replay st(2) assms(2) by (simp add: open_locked_def s_def Let_def max_def)
  ultimately show ?thesis
    using that [of s] layers(3) r by (simp add: s_def)
qed

section \<open>Recovery\<close>

text \<open>What a directory recovers to: the log over the tables.\<close>

lemma recovered_view:
  assumes "mem_ok crc ess s" "i_pending s = []"
  shows "engine_view crc s key = (case bm_get (i_state s) key of Some v \<Rightarrow> Some v | None \<Rightarrow> flat (layered (rev ess) key))"
  using engine_view_stacked [OF assms(1)] assms(2) by (simp add: stacked_def)

lemma covered_view:
  assumes "engine_rep crc base ess n s"
  shows "(case bm_get (i_state s) key of Some v \<Rightarrow> Some v | None \<Rightarrow> flat (layered (rev ess) key)) =
    (if bm_get (i_pending s) key = Some None then flat (layered (rev ess) key) else engine_view crc s key)"
proof -
  have "bm_get (i_state s) key = (case bm_get (i_pending s) key of Some v \<Rightarrow> v | None \<Rightarrow> base key)" "mem_ok crc ess s"
    using assms by (simp_all add: engine_rep_def covered_def)
  then show ?thesis
    by (auto simp: engine_view_stacked [OF \<open>mem_ok crc ess s\<close>] stacked_def split: option.split)
qed

text \<open>
  The directory holds the old tables and the whole log, possibly with a torn frame after it: this
  is the state at every moment of a commit, and of a flush or a compaction before its manifest is
  in place.
\<close>

lemma recover_before:
  assumes rep: "engine_rep crc base ess n s" and d: "stored crc d (i_table_files s) ess (i_table_sequence s)"
    "d_wal d = d_wal (i_disk s) @ t" "torn_tail crc t" "length (d_wal d) \<le> usize_max"
  obtains s' where "open_locked crc tf opts d = (Ok s', i_disk s')"
    "engine_rep crc (bm_get (i_state s)) ess n s'" "\<not> i_recovery_required s'" "i_sequence s' = i_sequence s"
    "i_pending s' = []" "i_state s' = i_state s" "i_max_memtable_bytes s' = o_max_memtable_bytes opts"
    "i_max_journaling_size s' = o_max_journaling_size opts"
    "\<And>key. engine_view crc s' key =
      (if bm_get (i_pending s) key = Some None then flat (layered (rev ess) key) else engine_view crc s key)"
proof -
  obtain fs where fs: "d_wal (i_disk s) = enc_log crc fs" "list_all frame_ok fs"
    "recover fs (i_table_sequence s, []) = (i_sequence s, i_state s)"
    using rep by (auto simp: engine_rep_def log_ok_def)
  have "d_wal d = enc_log crc fs @ t"
    using d(2) fs(1) by simp
  then obtain s' where s': "open_locked crc tf opts d = (Ok s', i_disk s')" "mem_ok crc ess s'" "i_pending s' = []"
    "i_state s' = i_state s" "i_sequence s' = i_sequence s" "i_table_sequence s' = i_table_sequence s"
    "i_table_files s' = i_table_files s" "map tl_path (i_table_layers s') = i_table_files s'" "\<not> i_recovery_required s'"
    "i_disk s' = (cleanup_temporary_files d)\<lparr>d_wal := enc_log crc fs\<rparr>" "i_journal_bytes s' = length (enc_log crc fs)"
    "i_pending_bytes s' = 0" "i_max_memtable_bytes s' = o_max_memtable_bytes opts"
    "i_max_journaling_size s' = o_max_journaling_size opts"
    using open_stored [OF d(1) _ fs(2) d(3,4), of tf opts] fs(3) by (metis fst_conv snd_conv)
  have "stored crc (i_disk s') (i_table_files s') ess (i_table_sequence s')"
    unfolding s'(6,7,10) by (rule stored_cong [OF d(1)]) (use stored_names [OF d(1)] cleanup_keeps in auto)
  moreover have "log_ok crc s'"
    using fs s' by (auto simp: log_ok_def)
  moreover have "footprint ess s' \<le> footprint ess s"
    using s'(3,4) by (simp add: footprint_def)
  ultimately have "engine_rep crc (bm_get (i_state s)) ess n s'"
    using rep s' fs(1) by (simp add: engine_rep_def covered_def)
  then show ?thesis
    using that [of s'] s' recovered_view [OF s'(2,3)] covered_view [OF rep] by simp
qed

text \<open>The directory holds a table with everything, and a log with nothing newer.\<close>

lemma recover_after:
  assumes rep: "engine_rep crc base ess n s" and n: "n < 2 ^ 60" and d: "stored crc d files ess' (i_sequence s)"
    "d_wal d = d_wal (i_disk s) \<or> d_wal d = []" "\<And>key. flat (layered (rev ess') key) = engine_view crc s key"
  obtains s' where "open_locked crc tf opts d = (Ok s', i_disk s')" "mem_ok crc ess' s'"
    "i_sequence s' = i_sequence s" "engine_view crc s' = engine_view crc s"
proof -
  obtain fs where fs: "d_wal (i_disk s) = enc_log crc fs" "list_all frame_ok fs"
    "recover fs (i_table_sequence s, []) = (i_sequence s, i_state s)"
    using rep by (auto simp: engine_rep_def log_ok_def)
  have "recover fs (i_sequence s, []) = (i_sequence s, [])"
    using recover_max [of "i_table_sequence s" fs "[]"] fs(3) by (intro recover_old) simp
  then have "\<exists>gs. d_wal d = enc_log crc gs @ [] \<and> list_all frame_ok gs \<and>
      recover gs (i_sequence s, []) = (i_sequence s, [])"
    using d(2) fs by (intro exI [of _ "if d_wal d = [] then [] else fs"]) auto
  then obtain gs where gs: "d_wal d = enc_log crc gs @ []" "list_all frame_ok gs"
    "recover gs (i_sequence s, []) = (i_sequence s, [])"
    by blast
  have w: "torn_tail crc []" "length (d_wal d) \<le> usize_max"
    using rep n d(2) by (auto simp: engine_rep_def usize_max_def torn_tail_def)
  obtain s' where s': "open_locked crc tf opts d = (Ok s', i_disk s')" "mem_ok crc ess' s'" "i_pending s' = []"
    "i_state s' = []" "i_sequence s' = i_sequence s"
    using open_stored [OF d(1) gs(1,2) w, of tf opts] gs(3) by (metis fst_conv snd_conv)
  then show ?thesis
    using that [of s'] recovered_view [OF s'(2,3)] d(3) by (simp add: fun_eq_iff)
qed

section \<open>Interrupted operations\<close>

lemma publish_outcome_stage:
  "fst (publish_outcome tf fp) = Err e \<Longrightarrow> snd (publish_outcome tf fp) < 4 \<or> snd (publish_outcome tf fp) = 4"
  by (simp add: publish_outcome_def split: if_splits)

lemma rep_no_tail:
  assumes "engine_rep crc base ess n s" "n < 2 ^ 60"
  shows "d_wal (i_disk s) = d_wal (i_disk s) @ []" "torn_tail crc []" "length (d_wal (i_disk s)) \<le> usize_max"
  using assms by (simp_all add: engine_rep_def torn_tail_def usize_max_def)

text \<open>The flush published its table: the layers alone give the view.\<close>

lemma flushed_layers:
  assumes "engine_rep crc Map.empty ess n s"
  shows "flat (layered (rev (ess @ [i_pending s])) key) = engine_view crc s key"
  using assms stacked_covered [of Map.empty s ess key]
  unfolding engine_view_stacked [OF engine_rep_mem [OF assms]] by (simp add: engine_rep_def)



lemma compacted_layers: "bm_get st = engine_view crc s \<Longrightarrow> flat (layered (rev [compacted st]) key) = engine_view crc s key"
  by (simp add: bm_get_compacted split: option.split)



section \<open>Acknowledged commits\<close>

lemma commit_ok:
  assumes "engine_ok crc n s" "n + group_cost (map cr_operations requests) < 2 ^ 60" "well_formed_group requests"
    "process_group crc io requests s = (Ok (), s')"
  shows "engine_ok crc (n + group_cost (map cr_operations requests)) s'"
    "engine_view crc s' = fold op_effect (concat (map cr_operations requests)) (engine_view crc s)"
proof -
  have calm: "\<not> i_recovery_required s"
    using assms(4) by (auto simp: process_group_def)
  obtain s0 s1 synced where "engine_view crc s0 = engine_view crc s" "group_outcome crc io requests n s0 (Ok ()) synced s1"
    "s' = s1"
    using process_group_outcome [OF assms(1-3) calm assms(4)] by (metis (full_types))
  then show "engine_ok crc (n + group_cost (map cr_operations requests)) s'"
    "engine_view crc s' = fold op_effect (concat (map cr_operations requests)) (engine_view crc s)"
    by (auto simp: group_outcome_def split: if_splits)
qed

text \<open>What the table files alone hold for a key.\<close>

definition table_value :: "(bytes \<Rightarrow> u32) \<Rightarrow> inner \<Rightarrow> bytes \<Rightarrow> bytes option" where
  "table_value crc s key =
     (case fst (lookup_layers crc (rev (i_table_layers s)) key (i_cache s)) of Inr v \<Rightarrow> v | Inl _ \<Rightarrow> None)"

lemma table_value_ok:
  assumes "mem_ok crc ess s"
  shows "table_value crc s key = flat (layered (rev ess) key)"
proof -
  obtain src where "bc_coherent src (i_cache s)" "\<forall>l \<in> set (i_table_layers s). block_source src l"
    using assms unfolding mem_ok_def cache_ok_def by blast
  moreover have "list_all2 (layer_holds crc) (rev ess) (rev (i_table_layers s))"
    using assms by (simp add: mem_ok_def)
  ultimately show ?thesis
    using lookup_layers_ok [of crc "rev ess" "rev (i_table_layers s)" src "i_cache s" key] by (auto simp: table_value_def)
qed

lemma reopen_rep:
  assumes "engine_ok crc n s" "torn_tail crc t" "length (d_wal (i_disk s) @ t) \<le> usize_max"
  obtains ess s' where "open_locked crc tf opts ((i_disk s)\<lparr>d_wal := d_wal (i_disk s) @ t\<rparr>) = (Ok s', i_disk s')"
    "engine_rep crc (bm_get (i_state s)) ess n s'" "\<not> i_recovery_required s'" "i_sequence s' = i_sequence s"
    "i_pending s' = []" "i_max_memtable_bytes s' = o_max_memtable_bytes opts"
    "i_max_journaling_size s' = o_max_journaling_size opts"
    "\<And>key. engine_view crc s' key =
      (if bm_get (i_pending s) key = Some None then table_value crc s key else engine_view crc s key)"
proof -
  obtain ess where rep: "engine_rep crc Map.empty ess n s"
    using assms(1) by (auto simp: engine_ok_def)
  let ?d = "(i_disk s)\<lparr>d_wal := d_wal (i_disk s) @ t\<rparr>"
  have "stored crc (i_disk s) (i_table_files s) ess (i_table_sequence s)"
    using rep by (simp add: engine_rep_def)
  then have "stored crc ?d (i_table_files s) ess (i_table_sequence s)"
    by (rule stored_cong) simp_all
  moreover have "d_wal ?d = d_wal (i_disk s) @ t" "length (d_wal ?d) \<le> usize_max"
    using assms(3) by simp_all
  ultimately obtain s' where "open_locked crc tf opts ?d = (Ok s', i_disk s')"
    "engine_rep crc (bm_get (i_state s)) ess n s'" "\<not> i_recovery_required s'" "i_sequence s' = i_sequence s"
    "i_pending s' = []" "i_max_memtable_bytes s' = o_max_memtable_bytes opts"
    "i_max_journaling_size s' = o_max_journaling_size opts"
    "\<And>key. engine_view crc s' key =
      (if bm_get (i_pending s) key = Some None then flat (layered (rev ess) key) else engine_view crc s key)"
    using recover_before [OF rep _ _ assms(2), of ?d tf opts] by blast
  then show ?thesis
    using that [of s' ess] table_value_ok [OF engine_rep_mem [OF rep]] by simp
qed

text \<open>
  C5: Recovery, exactly. Close the database (or stop it in the middle of appending the next frame)
  and open it again: every key has the value it had, except that a key deleted since the last flush
  has whatever the table files hold for it. So a deletion that is only in the log does not survive
  when an older table still has the key.
\<close>

theorem reopen_exact:
  assumes "engine_ok crc n s" "torn_tail crc t" "length (d_wal (i_disk s) @ t) \<le> usize_max"
  shows "\<exists>s'. open_locked crc tf opts ((i_disk s)\<lparr>d_wal := d_wal (i_disk s) @ t\<rparr>) = (Ok s', i_disk s') \<and>
    i_sequence s' = i_sequence s \<and>
    engine_view crc s' = (\<lambda>key. if bm_get (i_pending s) key = Some None then table_value crc s key else engine_view crc s key)"
proof -
  obtain s' where "open_locked crc tf opts ((i_disk s)\<lparr>d_wal := d_wal (i_disk s) @ t\<rparr>) = (Ok s', i_disk s')"
    "i_sequence s' = i_sequence s" "\<And>key. engine_view crc s' key =
      (if bm_get (i_pending s) key = Some None then table_value crc s key else engine_view crc s key)"
    using reopen_rep [OF assms, of tf opts] by blast
  then show ?thesis
    by (intro exI [of _ s']) (simp add: fun_eq_iff)
qed

theorem reopen_exact_witness:
  "\<exists>s'. open_locked (\<lambda>_. 0) None demo_options ((i_disk (demo_state (\<lambda>_. 0)))\<lparr>d_wal := d_wal (i_disk (demo_state (\<lambda>_. 0))) @
      take 5 (enc_frame (\<lambda>_. 0) (3, []))\<rparr>) = (Ok s', i_disk s') \<and> engine_view (\<lambda>_. 0) s' [1] = Some [2]"
proof -
  have torn: "torn_tail (\<lambda>_. 0) (take 5 (enc_frame (\<lambda>_. 0) (3, [])))"
    unfolding torn_tail_def
    by (intro disjI2 exI [of _ "(3, [])"] exI [of _ 5]) (simp add: frame_ok_def length_enc_frame length_enc_body usize_max_def)
  have "length (d_wal (i_disk (demo_state (\<lambda>_. 0))) @ take 5 (enc_frame (\<lambda>_. 0) (3, []))) \<le> usize_max"
    using demo_state_facts(1) [of "\<lambda>_. 0"]
    by (auto simp: engine_ok_def engine_rep_def demo_group_facts(3) group_cost_def request_cost_def usize_max_def)
  from reopen_exact [OF demo_state_facts(1) torn this, of None demo_options] show ?thesis
    by (auto simp: demo_state_facts)
qed



section \<open>The recovered state and the next flush\<close>

text \<open>A commit that no maintenance follows.\<close>

lemma quiet_commit:
  assumes "\<not> i_recovery_required s" "encode_group crc [] (sat_inc (i_sequence s)) (map cr_operations requests) = Ok (buf, nxt)"
    "calm_group io requests" "i_pending_bytes s < i_max_memtable_bytes s" "i_max_journaling_size s = 0"
    "i_pending_bytes (apply_group requests nxt (logged buf s)) < i_max_memtable_bytes s" "i_max_memtable_bytes s < 2 ^ 60"
  shows "process_group crc io requests s = (Ok (), apply_group requests nxt (logged buf s))"
proof -
  have "fail_group requests p = Ok ()" for p
    using calm_group_faults [OF assms(3)] by (simp add: fail_group_def)
  moreover have "\<not> i_pending_bytes s \<ge> sat_mul (i_max_memtable_bytes s) 2"
    using assms(4,7) by (simp add: sat_mul_def usize_max_def)
  moreover obtain b where "fold apply_operation_with_pending (concat (map cr_operations requests)) t =
      t\<lparr>i_state := fold apply_operation (concat (map cr_operations requests)) (i_state t),
        i_pending := fold pend_op (concat (map cr_operations requests)) (i_pending t), i_pending_bytes := b t\<rparr>" for t
    using apply_operations_fields by metis
  moreover from this have "i_max_memtable_bytes (apply_group requests nxt (logged buf s)) = i_max_memtable_bytes s"
    "i_max_journaling_size (apply_group requests nxt (logged buf s)) = 0"
    using assms(5) by (simp_all add: apply_group_def)
  ultimately show ?thesis
    using assms by (simp add: process_group_def execute_group_def calm_group_def group_conflict_def logged_def [symmetric]
        after_apply_def Let_def)
qed

definition demo_put :: "commit_request list" where
  "demo_put = [\<lparr>cr_operations = [Put [5] [6]], cr_fault_point = None\<rparr>]"

text \<open>
  C9: A flush after recovery drops what was recovered. In a new database, key \<open>[1]\<close> is committed and
  the database closed without a flush; after reopening, the key is there, also after another key is
  committed; but the next flush (here \<open>persist\<close>) writes only the memtable, clears the mutable state
  and truncates the log, and the key is gone.
\<close>

theorem recovered_entry_lost_by_flush:
  "\<exists>s1 s2 s3. engine_view crc (demo_state crc) [1] = Some [2] \<and>
     open_locked crc None demo_options (i_disk (demo_state crc)) = (Ok s1, i_disk s1) \<and> engine_view crc s1 [1] = Some [2] \<and>
     process_group crc demo_io demo_put s1 = (Ok (), s2) \<and> engine_view crc s2 [1] = Some [2] \<and>
     flush_table_locked crc None None s2 = (Ok (), s3) \<and> engine_view crc s3 [5] = Some [6] \<and>
     engine_view crc s3 [1] = None"
proof -
  let ?n = "group_cost (map cr_operations demo_group)"
  have n: "?n + group_cost (map cr_operations demo_put) < 2 ^ 60" "?n < 2 ^ 60" "calm_group demo_io demo_put"
    by (simp_all add: demo_group_facts(3) demo_put_def group_cost_def request_cost_def calm_group_def demo_io_def)
  note rep = demo_state_facts(7) [of crc]
  have stored: "stored crc (i_disk (demo_state crc)) (i_table_files (demo_state crc)) [] (i_table_sequence (demo_state crc))"
    using rep by (simp add: engine_rep_def)
  let ?base = "bm_get (i_state (demo_state crc))"
  obtain s1 where s1: "open_locked crc None demo_options (i_disk (demo_state crc)) = (Ok s1, i_disk s1)"
    "engine_rep crc ?base [] ?n s1" "\<not> i_recovery_required s1" "i_pending s1 = []"
    "i_max_memtable_bytes s1 = o_max_memtable_bytes demo_options"
    "i_max_journaling_size s1 = o_max_journaling_size demo_options"
    "\<And>key. engine_view crc s1 key = (if bm_get (i_pending (demo_state crc)) key = Some None
      then flat (layered (rev []) key) else engine_view crc (demo_state crc) key)"
    using recover_before [OF rep stored rep_no_tail [OF rep n(2)], of None demo_options] by blast
  have view1: "engine_view crc s1 [1] = Some [2]"
    using s1(7) by (simp add: demo_state_facts)
  obtain buf nxt where enc: "encode_group crc [] (sat_inc (i_sequence s1)) (map cr_operations demo_put) = Ok (buf, nxt)"
    using encode_group_enc [OF calm_group_frames [OF n(3)]] n(1) by fastforce
  define s2 where "s2 = apply_group demo_put nxt (logged buf s1)"
  note commit = commit_rep [OF s1(2) n(1) enc, folded s2_def]
  have bytes: "i_pending_bytes s1 = 0" "i_pending_bytes s2 < 10"
    using s1(2,4) commit(5) by (simp_all add: engine_rep_def demo_put_def)
  have put: "process_group crc demo_io demo_put s1 = (Ok (), s2)"
    unfolding s2_def by (rule quiet_commit [OF s1(3) enc n(3)]) (use bytes s1(5,6) in \<open>simp_all add: s2_def demo_options_def\<close>)
  obtain b where "fold apply_operation_with_pending (concat (map cr_operations demo_put)) t =
      t\<lparr>i_state := fold apply_operation (concat (map cr_operations demo_put)) (i_state t),
        i_pending := fold pend_op (concat (map cr_operations demo_put)) (i_pending t), i_pending_bytes := b t\<rparr>" for t
    using apply_operations_fields by metis
  then have pending: "i_pending s2 = [([5], Some [6])]"
    using s1(4) by (simp add: s2_def apply_group_def) (simp add: demo_put_def pend_op_def)
  have ready: "\<not> i_recovery_required s2" "i_pending s2 \<noteq> []"
    using commit(4) s1(3) pending by simp_all
  obtain s3 where "flush_table_locked crc None None s2 = (Ok (), s3)"
    "\<And>key. engine_view crc s3 key = flat (layered (rev ([] @ [i_pending s2])) key)"
    using flush_rep [OF commit(1) n(1) ready] by blast
  moreover have "engine_view crc s2 [1] = Some [2]"
    using commit(2) view1 by (simp add: demo_put_def op_effect_def)
  ultimately show ?thesis
    using s1(1) view1 put pending by (intro exI [of _ s1] exI [of _ s2] exI [of _ s3]) (simp add: demo_state_facts)
qed

end
