(* ===== verification/Thingd_Model.thy ===== *)
theory Thingd_Model
  imports Ordered_Map Decimal "HOL-Library.Product_Lexorder"
begin

text \<open>
  The data of thingd (\<open>crates/thingd/src/model.rs\<close>, \<open>error.rs\<close>) and the state of the in-memory
  engine (\<open>in_memory.rs\<close>). A \<open>String\<close> is the list of its UTF-8 bytes, so that \<open><\<close> is the order of
  \<open>str\<close>; times are \<open>int\<close> within the range of \<open>i64\<close>, counters words of their width. The elements of a
  vector (\<open>f32\<close>) and the weight of a link (\<open>f64\<close>) are type variables: the modelled operations only
  store them and, for links, compare them with the comparison they are given. The clock is an
  argument of every operation that reads it.
\<close>

section \<open>Errors\<close>

datatype thingd_error =
  InvalidInput string | NotFound string | Conflict string | Protected string | Storage string
| EncryptionRequired string | InvalidEncryptionKey string | EncryptionAuthentication string
| UnsupportedEncryptionVersion string | UnsupportedStorageFormat string | StorageValidation string
| EncryptionMigration string

type_synonym 'a thingd_result = "(thingd_error, 'a) result"

fun display_error :: "thingd_error \<Rightarrow> string" where
  "display_error (InvalidInput m) = ''invalid input: '' @ m"
| "display_error (NotFound m) = ''not found: '' @ m"
| "display_error (Conflict m) = ''conflict: '' @ m"
| "display_error (Protected m) = ''protected: '' @ m"
| "display_error (Storage m) = ''storage error: '' @ m"
| "display_error (EncryptionRequired m) = ''encryption required: '' @ m"
| "display_error (InvalidEncryptionKey m) = ''invalid encryption key: '' @ m"
| "display_error (EncryptionAuthentication m) = ''encryption authentication failed: '' @ m"
| "display_error (UnsupportedEncryptionVersion m) = ''unsupported encryption version: '' @ m"
| "display_error (UnsupportedStorageFormat m) = ''unsupported storage format: '' @ m"
| "display_error (StorageValidation m) = ''storage validation failed: '' @ m"
| "display_error (EncryptionMigration m) = ''encryption migration failed: '' @ m"

section \<open>Objects\<close>

datatype object_key = ObjectKey (ok_collection: string) (ok_id: string)

text \<open>The derived order: by collection, then by id.\<close>

instantiation object_key :: linorder
begin

definition less_object_key :: "object_key \<Rightarrow> object_key \<Rightarrow> bool" where
  "a < b \<longleftrightarrow> (ok_collection a, ok_id a) < (ok_collection b, ok_id b)"

definition less_eq_object_key :: "object_key \<Rightarrow> object_key \<Rightarrow> bool" where
  "a \<le> b \<longleftrightarrow> (ok_collection a, ok_id a) \<le> (ok_collection b, ok_id b)"

instance
  by standard (auto simp: less_object_key_def less_eq_object_key_def intro: object_key.expand)

end

record 'f memory_object =
  mo_key :: object_key
  mo_body :: string
  mo_version :: u64
  mo_created_at :: string
  mo_updated_at :: string
  mo_vector :: "'f list option"

definition new_object :: "string \<Rightarrow> string \<Rightarrow> string \<Rightarrow> 'f memory_object" where
  "new_object collection id' body = \<lparr>mo_key = ObjectKey collection id', mo_body = body, mo_version = 0,
     mo_created_at = [], mo_updated_at = [], mo_vector = None\<rparr>"

record put_object_options =
  po_index :: bool
  po_expected_version :: "u64 option"

record index_definition =
  ix_collection :: string
  ix_field :: string
  ix_unique :: bool

section \<open>Events\<close>

record memory_event =
  ev_stream :: string
  ev_type :: string
  ev_body :: string
  ev_sequence :: u64
  ev_created_at :: string
  ev_idempotency_key :: string

record list_events_options =
  le_from_sequence :: "u64 option"
  le_limit :: "nat option"
  le_since :: "string option"

section \<open>Queue jobs\<close>

datatype queue_job_status = Ready | Leased | Completed | Dead

record queue_job =
  qj_queue :: string
  qj_id :: string
  qj_body :: string
  qj_attempts :: u32
  qj_max_attempts :: u32
  qj_status :: queue_job_status
  qj_available_at_ms :: int
  qj_leased_at_ms :: "int option"
  qj_lease_expires_at_ms :: "int option"
  qj_completed_at_ms :: "int option"
  qj_dead_at_ms :: "int option"
  qj_created_at :: string
  qj_last_error :: string
  qj_priority :: int

definition i64_max :: int where
  "i64_max = 9223372036854775807"

definition i64_min :: int where
  "i64_min = - 9223372036854775808"

definition u64_to_i64 :: "u64 \<Rightarrow> int" where
  "u64_to_i64 w = min i64_max (uint w)"

text \<open>\<open>i64::saturating_add\<close>\<close>

definition i64_sat_add :: "int \<Rightarrow> int \<Rightarrow> int" where
  "i64_sat_add a b = max i64_min (min i64_max (a + b))"

definition new_job :: "string \<Rightarrow> string \<Rightarrow> string \<Rightarrow> u32 \<Rightarrow> queue_job" where
  "new_job queue id' body max_attempts = \<lparr>qj_queue = queue, qj_id = id', qj_body = body, qj_attempts = 0,
     qj_max_attempts = max_attempts, qj_status = Ready, qj_available_at_ms = 0, qj_leased_at_ms = None,
     qj_lease_expires_at_ms = None, qj_completed_at_ms = None, qj_dead_at_ms = None, qj_created_at = [],
     qj_last_error = [], qj_priority = 0\<rparr>"

definition with_priority :: "int \<Rightarrow> queue_job \<Rightarrow> queue_job" where
  "with_priority p j = j\<lparr>qj_priority := p\<rparr>"

definition delay_by_ms :: "int \<Rightarrow> u64 \<Rightarrow> queue_job \<Rightarrow> queue_job" where
  "delay_by_ms now delay_ms j = j\<lparr>qj_available_at_ms := i64_sat_add now (u64_to_i64 delay_ms)\<rparr>"

definition DEFAULT_QUEUE_LEASE_MS :: u64 where
  "DEFAULT_QUEUE_LEASE_MS = 30000"

definition MAX_QUEUE_BATCH_ITEMS :: nat where
  "MAX_QUEUE_BATCH_ITEMS = 1000"

record queue_nack_options =
  qn_delay_ms :: u64
  qn_error :: string

section \<open>Links\<close>

record 'w link =
  ln_id :: string
  ln_from_ref :: string
  ln_link_type :: string
  ln_to_ref :: string
  ln_weight :: "'w option"
  ln_metadata_json :: string
  ln_created_at :: string

datatype link_direction = Outgoing | Incoming | Both

record link_query_options =
  lq_link_type :: "string option"
  lq_limit :: "nat option"

section \<open>Schemas\<close>

record stored_schema =
  ss_schema_json :: string
  ss_hash :: string
  ss_updated_at :: string

record migration_record =
  mr_id :: string
  mr_hash :: string
  mr_applied_at :: string

section \<open>The engine\<close>

record ('f, 'w) memory_engine =
  me_objects :: "(object_key, 'f memory_object) btree"
  me_events :: "memory_event list"
  me_queues :: "(string, queue_job list) btree"
  me_links :: "'w link list"
  me_next_event_sequence :: u64
  me_next_link_id :: u64
  me_event_idempotency_keys :: "(string \<times> string, u64) hmap"
  me_vectors :: "(string \<times> string, 'f list) hmap"
  me_schema :: "stored_schema option"
  me_migrations :: "(string, migration_record) btree"
  me_indexes :: "(string \<times> string, index_definition) btree"

definition new_engine :: "('f, 'w) memory_engine" where
  "new_engine = \<lparr>me_objects = [], me_events = [], me_queues = [], me_links = [], me_next_event_sequence = 0,
     me_next_link_id = 0, me_event_idempotency_keys = [], me_vectors = [], me_schema = None, me_migrations = [],
     me_indexes = []\<rparr>"

type_synonym ('f, 'w, 'a) mem = "(('f, 'w) memory_engine, thingd_error, 'a) proc"

text \<open>Schema metadata (\<open>SchemaStore\<close>).\<close>

definition get_schema_document :: "('f, 'w, stored_schema option) mem" where
  "get_schema_document e = (Ok (me_schema e), e)"

definition put_schema_document :: "stored_schema \<Rightarrow> ('f, 'w, unit) mem" where
  "put_schema_document s e = (Ok (), e\<lparr>me_schema := Some s\<rparr>)"

definition list_migrations :: "('f, 'w, migration_record list) mem" where
  "list_migrations e = (Ok (map snd (me_migrations e)), e)"

definition record_migration :: "migration_record \<Rightarrow> ('f, 'w, unit) mem" where
  "record_migration m e = (Ok (), e\<lparr>me_migrations := bm_insert (mr_id m) m (me_migrations e)\<rparr>)"

end
