(* ===== verification/Memory_Objects.thy ===== *)
theory Memory_Objects
  imports Thingd_Model
begin

text \<open>
  The object store of the in-memory engine (\<open>impl ObjectStore for MemoryEngine\<close> and the unique-index
  checks, \<open>crates/thingd/src/in_memory.rs\<close>; the batch operations are the defaults of
  \<open>crates/thingd/src/store.rs\<close>). The JSON parser is serde_json and a parameter of the operations that
  parse a body: \<open>parse\<close> gives the value, or nothing for a body that is not JSON. The properties: the
  unique indexes are never violated, versions count the writes, and a compare-and-swap write
  succeeds for at most one of its competitors.
\<close>

section \<open>JSON values\<close>

text \<open>\<open>serde_json::Value\<close>, with the number type left open; the entries of an object in key order.\<close>

datatype 'n json =
  JNull | JBool bool | JNum 'n | JStr string | JArr "'n json list" | JObj "(string, 'n json) btree"

fun json_get :: "'n json \<Rightarrow> string \<Rightarrow> 'n json option" where
  "json_get (JObj m) k = bm_get m k"
| "json_get _ k = None"

section \<open>Unique indexes\<close>

text \<open>The value of a field that an index covers: present and not null.\<close>

definition indexed_value :: "(string \<Rightarrow> 'n json option) \<Rightarrow> string \<Rightarrow> 'f memory_object \<Rightarrow> 'n json option" where
  "indexed_value parse field obj = Option.bind (parse (mo_body obj)) (\<lambda>body. json_get body field)"

fun check_indexes ::
    "(string \<Rightarrow> 'n json option) \<Rightarrow> 'f memory_object list \<Rightarrow> 'f memory_object \<Rightarrow> 'n json \<Rightarrow> index_definition list
      \<Rightarrow> unit thingd_result" where
  "check_indexes parse existing obj body [] = Ok ()"
| "check_indexes parse existing obj body (index # indexes) =
     (case json_get body (ix_field index) of
        None \<Rightarrow> check_indexes parse existing obj body indexes
      | Some v \<Rightarrow>
          if v = JNull then check_indexes parse existing obj body indexes
          else if \<exists>x \<in> set existing. mo_key x \<noteq> mo_key obj \<and> ok_collection (mo_key x) = ok_collection (mo_key obj) \<and>
                 indexed_value parse (ix_field index) x = Some v
          then Err (Conflict (''unique index '' @ ix_collection index @ ''.'' @ ix_field index @ '' rejects duplicate value''))
          else check_indexes parse existing obj body indexes)"

definition validate_unique_indexes ::
    "(string \<Rightarrow> 'n json option) \<Rightarrow> 'f memory_object \<Rightarrow> ('f, 'w) memory_engine \<Rightarrow> unit thingd_result" where
  "validate_unique_indexes parse obj e =
     (case parse (mo_body obj) of
        None \<Rightarrow> Ok ()
      | Some body \<Rightarrow> check_indexes parse (map snd (me_objects e)) obj body
          (filter (\<lambda>index. ix_unique index \<and> ix_collection index = ok_collection (mo_key obj)) (map snd (me_indexes e))))"

fun distinct_values ::
    "(string \<Rightarrow> 'n json option) \<Rightarrow> index_definition \<Rightarrow> 'n json list \<Rightarrow> 'f memory_object list \<Rightarrow> unit thingd_result" where
  "distinct_values parse index seen [] = Ok ()"
| "distinct_values parse index seen (obj # objs) =
     (case indexed_value parse (ix_field index) obj of
        None \<Rightarrow> distinct_values parse index seen objs
      | Some v \<Rightarrow>
          if v = JNull then distinct_values parse index seen objs
          else if v \<in> set seen
          then Err (Conflict (''cannot create unique index '' @ ix_collection index @ ''.'' @ ix_field index
                 @ '': existing values are duplicated''))
          else distinct_values parse index (seen @ [v]) objs)"

definition validate_existing_unique_index ::
    "(string \<Rightarrow> 'n json option) \<Rightarrow> index_definition \<Rightarrow> ('f, 'w) memory_engine \<Rightarrow> unit thingd_result" where
  "validate_existing_unique_index parse index e =
     distinct_values parse index []
       (filter (\<lambda>obj. ok_collection (mo_key obj) = ix_collection index) (map snd (me_objects e)))"

section \<open>Operations\<close>

definition put_object :: "(string \<Rightarrow> 'n json option) \<Rightarrow> string \<Rightarrow> 'f memory_object \<Rightarrow> ('f, 'w, 'f memory_object) mem" where
  "put_object parse now obj e =
     (case validate_unique_indexes parse obj e of
        Inl err \<Rightarrow> (Err err, e)
      | Inr _ \<Rightarrow>
          let version = (case bm_get (me_objects e) (mo_key obj) of None \<Rightarrow> 1 | Some existing \<Rightarrow> mo_version existing + 1);
              obj = obj\<lparr>mo_version := version, mo_updated_at := now,
                        mo_created_at := (if mo_created_at obj = [] then now else mo_created_at obj)\<rparr>;
              vec_key = (ok_collection (mo_key obj), ok_id (mo_key obj))
          in (Ok obj, e\<lparr>me_objects := bm_insert (mo_key obj) obj (me_objects e),
                        me_vectors := (case mo_vector obj of
                             Some v \<Rightarrow> hm_insert vec_key v (me_vectors e)
                           | None \<Rightarrow> hm_remove vec_key (me_vectors e))\<rparr>))"

text \<open>\<open>format!("{:?}")\<close> of an optional version, and the message of a failed comparison.\<close>

definition debug_version :: "u64 option \<Rightarrow> string" where
  "debug_version v = (case v of None \<Rightarrow> ''None'' | Some w \<Rightarrow> ''Some('' @ decimal (unat w) @ '')'')"

definition version_conflict :: "object_key \<Rightarrow> u64 \<Rightarrow> u64 option \<Rightarrow> thingd_error" where
  "version_conflict key expected current =
     Conflict (''Version mismatch for '' @ ok_collection key @ ''/'' @ ok_id key @ '': expected '' @ decimal (unat expected)
       @ '', got '' @ debug_version current)"

definition current_version :: "object_key \<Rightarrow> ('f, 'w) memory_engine \<Rightarrow> u64 option" where
  "current_version key e = map_option mo_version (bm_get (me_objects e) key)"

definition put_object_with_options ::
    "(string \<Rightarrow> 'n json option) \<Rightarrow> string \<Rightarrow> 'f memory_object \<Rightarrow> put_object_options \<Rightarrow> ('f, 'w, 'f memory_object) mem" where
  "put_object_with_options parse now obj options e =
     (case po_expected_version options of
        None \<Rightarrow> put_object parse now obj e
      | Some expected \<Rightarrow>
          let current = current_version (mo_key obj) e;
              matches = (if expected = 0 then current = None else current = Some expected)
          in if matches then put_object parse now obj e
             else (Err (version_conflict (mo_key obj) expected current), e))"

text \<open>A replicated object keeps the metadata of its source.\<close>

definition store_replicated :: "'f memory_object \<Rightarrow> 'f memory_object \<Rightarrow> ('f, 'w, 'f memory_object) mem" where
  "store_replicated obj stored e =
     (let replicated = stored\<lparr>
            mo_version := (if mo_version obj > 0 then mo_version obj else mo_version stored),
            mo_created_at := (if mo_created_at obj \<noteq> [] then mo_created_at obj else mo_created_at stored),
            mo_updated_at := (if mo_updated_at obj \<noteq> [] then mo_updated_at obj else mo_updated_at stored)\<rparr>
      in (Ok replicated, e\<lparr>me_objects := bm_insert (mo_key obj) replicated (me_objects e)\<rparr>))"

definition put_object_with_source_metadata ::
    "(string \<Rightarrow> 'n json option) \<Rightarrow> string \<Rightarrow> 'f memory_object \<Rightarrow> put_object_options \<Rightarrow> ('f, 'w, 'f memory_object) mem" where
  "put_object_with_source_metadata parse now obj options e =
     (case po_expected_version options of
        Some expected \<Rightarrow>
          if current_version (mo_key obj) e \<noteq> Some expected
          then (Err (version_conflict (mo_key obj) expected (current_version (mo_key obj) e)), e)
          else st_then (put_object parse now obj) (store_replicated obj) e
      | None \<Rightarrow> st_then (put_object parse now obj) (store_replicated obj) e)"

definition get_object :: "string \<Rightarrow> string \<Rightarrow> ('f, 'w) memory_engine \<Rightarrow> 'f memory_object option" where
  "get_object collection id' e = bm_get (me_objects e) (ObjectKey collection id')"

definition get_objects_batch :: "string \<Rightarrow> string list \<Rightarrow> ('f, 'w) memory_engine \<Rightarrow> 'f memory_object option list" where
  "get_objects_batch collection ids e = map (\<lambda>id'. get_object collection id' e) ids"

definition delete_object :: "string \<Rightarrow> string \<Rightarrow> ('f, 'w, bool) mem" where
  "delete_object collection id' e =
     (Ok (bm_get (me_objects e) (ObjectKey collection id') \<noteq> None),
      e\<lparr>me_vectors := hm_remove (collection, id') (me_vectors e),
        me_objects := bm_remove (ObjectKey collection id') (me_objects e)\<rparr>)"

text \<open>The batch operations call the single ones in turn and stop at the first error; each write of a
  batch reads the clock itself, and has its reading beside the object.\<close>

fun put_objects_batch ::
    "(string \<Rightarrow> 'n json option) \<Rightarrow> (string \<times> 'f memory_object) list \<Rightarrow> ('f, 'w, 'f memory_object list) mem" where
  "put_objects_batch parse [] e = (Ok [], e)"
| "put_objects_batch parse ((now, obj) # objs) e =
     st_then (put_object parse now obj) (\<lambda>stored.
     st_then (put_objects_batch parse objs) (\<lambda>rest e. (Ok (stored # rest), e))) e"

fun delete_objects_batch :: "(string \<times> string) list \<Rightarrow> ('f, 'w, nat) mem" where
  "delete_objects_batch [] e = (Ok 0, e)"
| "delete_objects_batch ((collection, id') # keys) e =
     st_then (delete_object collection id') (\<lambda>found.
     st_then (delete_objects_batch keys) (\<lambda>n e. (Ok ((if found then 1 else 0) + n), e))) e"

definition count_objects :: "('f, 'w) memory_engine \<Rightarrow> nat" where
  "count_objects e = length (me_objects e)"

definition count_objects_in_collection :: "string \<Rightarrow> ('f, 'w) memory_engine \<Rightarrow> nat" where
  "count_objects_in_collection collection e = length (filter (\<lambda>k. ok_collection k = collection) (map fst (me_objects e)))"

definition list_collections :: "('f, 'w) memory_engine \<Rightarrow> string list" where
  "list_collections e = remdups_adj (sort (map (\<lambda>(k, _). ok_collection k) (me_objects e)))"

definition create_index_definition :: "(string \<Rightarrow> 'n json option) \<Rightarrow> index_definition \<Rightarrow> ('f, 'w, unit) mem" where
  "create_index_definition parse index e =
     (if ix_collection index = [] \<or> ix_field index = []
      then (Err (InvalidInput ''index collection and field are required''), e)
      else case (if ix_unique index then validate_existing_unique_index parse index e else Ok ()) of
        Inl err \<Rightarrow> (Err err, e)
      | Inr _ \<Rightarrow> (Ok (), e\<lparr>me_indexes := bm_insert (ix_collection index, ix_field index) index (me_indexes e)\<rparr>))"

definition create_index :: "(string \<Rightarrow> 'n json option) \<Rightarrow> string \<Rightarrow> string \<Rightarrow> ('f, 'w, unit) mem" where
  "create_index parse collection field =
     create_index_definition parse \<lparr>ix_collection = collection, ix_field = field, ix_unique = False\<rparr>"

definition list_indexes :: "('f, 'w) memory_engine \<Rightarrow> (string \<times> string) list" where
  "list_indexes e = map fst (me_indexes e)"

definition delete_index :: "string \<Rightarrow> string \<Rightarrow> ('f, 'w, bool) mem" where
  "delete_index collection field e =
     (Ok (bm_get (me_indexes e) (collection, field) \<noteq> None),
      e\<lparr>me_indexes := bm_remove (collection, field) (me_indexes e)\<rparr>)"

definition list_index_definitions :: "('f, 'w) memory_engine \<Rightarrow> index_definition list" where
  "list_index_definitions e = map snd (me_indexes e)"

section \<open>The invariant\<close>

text \<open>
  Objects are filed under their key, indexes under their collection and field, and no two objects
  of a collection share a (present, non-null) value of a field with a unique index.
\<close>

definition unique_in :: "(string \<Rightarrow> 'n json option) \<Rightarrow> ('f, 'w) memory_engine \<Rightarrow> string \<Rightarrow> string \<Rightarrow> bool" where
  "unique_in parse e collection field \<longleftrightarrow>
     (\<forall>k l x y v. bm_get (me_objects e) k = Some x \<longrightarrow> bm_get (me_objects e) l = Some y \<longrightarrow>
        ok_collection k = collection \<longrightarrow> ok_collection l = collection \<longrightarrow>
        indexed_value parse field x = Some v \<longrightarrow> indexed_value parse field y = Some v \<longrightarrow> v \<noteq> JNull \<longrightarrow> k = l)"

definition objects_ok :: "(string \<Rightarrow> 'n json option) \<Rightarrow> ('f, 'w) memory_engine \<Rightarrow> bool" where
  "objects_ok parse e \<longleftrightarrow> bm_ok (me_objects e) \<and> bm_ok (me_indexes e) \<and>
     (\<forall>k x. bm_get (me_objects e) k = Some x \<longrightarrow> mo_key x = k) \<and>
     (\<forall>c f i. bm_get (me_indexes e) (c, f) = Some i \<longrightarrow>
        ix_collection i = c \<and> ix_field i = f \<and> (ix_unique i \<longrightarrow> unique_in parse e c f))"

lemma objects_okD:
  assumes "objects_ok parse e"
  shows "bm_ok (me_objects e)" "bm_ok (me_indexes e)" "bm_get (me_objects e) k = Some x \<Longrightarrow> mo_key x = k"
    "bm_get (me_indexes e) (c, f) = Some i \<Longrightarrow> ix_collection i = c"
    "bm_get (me_indexes e) (c, f) = Some i \<Longrightarrow> ix_field i = f"
    "bm_get (me_indexes e) (c, f) = Some i \<Longrightarrow> ix_unique i \<Longrightarrow> unique_in parse e c f"
  using assms unfolding objects_ok_def by blast+

lemma sorted_wrt_pair: "sorted_wrt P xs \<Longrightarrow> x \<in> set xs \<Longrightarrow> y \<in> set xs \<Longrightarrow> x \<noteq> y \<Longrightarrow> P x y \<or> P y x"
  by (induction xs) auto

lemma check_indexes_Ok:
  "check_indexes parse existing obj body idx = Ok () \<Longrightarrow> index \<in> set idx \<Longrightarrow> json_get body (ix_field index) = Some v \<Longrightarrow>
    v \<noteq> JNull \<Longrightarrow> x \<in> set existing \<Longrightarrow> mo_key x \<noteq> mo_key obj \<Longrightarrow> ok_collection (mo_key x) = ok_collection (mo_key obj) \<Longrightarrow>
    indexed_value parse (ix_field index) x \<noteq> Some v"
  by (induction idx) (auto split: option.splits if_splits)

lemma distinct_values_Ok:
  "distinct_values parse index seen objs = Ok () \<Longrightarrow>
    sorted_wrt (\<lambda>x y. \<forall>v. indexed_value parse (ix_field index) x = Some v \<longrightarrow>
      indexed_value parse (ix_field index) y = Some v \<longrightarrow> v = JNull) objs \<and>
    (\<forall>x \<in> set objs. \<forall>v \<in> set seen. indexed_value parse (ix_field index) x = Some v \<longrightarrow> v = JNull)"
proof (induction parse index seen objs rule: distinct_values.induct)
  case (2 parse index seen obj objs)
  show ?case
  proof (cases "indexed_value parse (ix_field index) obj")
    case None
    then show ?thesis
      using "2.IH"(1) [OF None] "2.prems" by simp
  next
    case (Some v)
    show ?thesis
    proof (cases "v = JNull")
      case True
      then show ?thesis
        using "2.IH"(2) [OF Some True] "2.prems" Some by simp
    next
      case False
      then have "v \<notin> set seen" "distinct_values parse index (seen @ [v]) objs = Ok ()"
        using "2.prems" Some by (simp_all split: if_splits)
      then show ?thesis
        using "2.IH"(3) [OF Some False] Some by simp
    qed
  qed
qed simp

lemma bm_get_values: "bm_get m k = Some x \<Longrightarrow> x \<in> snd ` set m"
  by (drule bm_get_SomeD) force

lemma indexed_value_body: "mo_body x = mo_body y \<Longrightarrow> indexed_value parse f x = indexed_value parse f y"
  by (simp add: indexed_value_def)

lemma unique_inD:
  "unique_in parse e c f \<Longrightarrow> bm_get (me_objects e) k = Some x \<Longrightarrow> bm_get (me_objects e) l = Some y \<Longrightarrow> ok_collection k = c \<Longrightarrow>
    ok_collection l = c \<Longrightarrow> indexed_value parse f x = Some v \<Longrightarrow> indexed_value parse f y = Some v \<Longrightarrow> v \<noteq> JNull \<Longrightarrow> k = l"
  unfolding unique_in_def by blast

text \<open>Replacing the object of a key, when no other object has its indexed values.\<close>

lemma objects_ok_insert:
  assumes ok: "objects_ok parse e" and key: "mo_key x = k"
    and fresh: "\<And>f i v l y. bm_get (me_indexes e) (ok_collection k, f) = Some i \<Longrightarrow> ix_unique i \<Longrightarrow>
      indexed_value parse f x = Some v \<Longrightarrow> v \<noteq> JNull \<Longrightarrow> bm_get (me_objects e) l = Some y \<Longrightarrow> l \<noteq> k \<Longrightarrow>
      ok_collection l = ok_collection k \<Longrightarrow> indexed_value parse f y \<noteq> Some v"
  shows "objects_ok parse (e\<lparr>me_objects := bm_insert k x (me_objects e), me_vectors := vs\<rparr>)"
proof -
  have "unique_in parse (e\<lparr>me_objects := bm_insert k x (me_objects e), me_vectors := vs\<rparr>) c f"
    if i: "bm_get (me_indexes e) (c, f) = Some i" "ix_unique i" for c f i
  proof -
    have old: "unique_in parse e c f"
      by (rule objects_okD(6) [OF ok i])
    show ?thesis
      unfolding unique_in_def
    proof (intro allI impI)
      fix k1 k2 x1 x2 v
      assume get: "bm_get (me_objects (e\<lparr>me_objects := bm_insert k x (me_objects e), me_vectors := vs\<rparr>)) k1 = Some x1"
        "bm_get (me_objects (e\<lparr>me_objects := bm_insert k x (me_objects e), me_vectors := vs\<rparr>)) k2 = Some x2"
        and c: "ok_collection k1 = c" "ok_collection k2 = c"
        and v: "indexed_value parse f x1 = Some v" "indexed_value parse f x2 = Some v" "v \<noteq> JNull"
      have other: False if k: "ok_collection k = c" and y: "bm_get (me_objects e) b = Some y" "b \<noteq> k" "ok_collection b = c"
          "indexed_value parse f y = Some v" and x: "indexed_value parse f x = Some v" for b y
      proof -
        have "ok_collection b = ok_collection k"
          by (simp only: k y(3))
        from fresh [OF i [folded k] x v(3) y(1,2) this] y(4) show False ..
      qed
      show "k1 = k2"
      proof (cases "k1 = k"; cases "k2 = k")
        assume "k1 \<noteq> k" "k2 \<noteq> k"
        then have "bm_get (me_objects e) k1 = Some x1" "bm_get (me_objects e) k2 = Some x2"
          using get by simp_all
        then show ?thesis
          by (rule unique_inD [OF old _ _ c v])
      next
        assume k: "k1 = k" "k2 \<noteq> k"
        then have "x1 = x" "bm_get (me_objects e) k2 = Some x2"
          using get by simp_all
        then show ?thesis
          using other [OF c(1) [unfolded k(1)] _ k(2) c(2) v(2)] v(1) by blast
      next
        assume k: "k1 \<noteq> k" "k2 = k"
        then have "x2 = x" "bm_get (me_objects e) k1 = Some x1"
          using get by simp_all
        then show ?thesis
          using other [OF c(2) [unfolded k(2)] _ k(1) c(1) v(1)] v(2) by blast
      qed simp
    qed
  qed
  note unique = this
  show ?thesis
    unfolding objects_ok_def
  proof (intro conjI allI impI)
    fix l y assume "bm_get (me_objects (e\<lparr>me_objects := bm_insert k x (me_objects e), me_vectors := vs\<rparr>)) l = Some y"
    then show "mo_key y = l"
      using objects_okD(3) [OF ok, of l y] key by (cases "l = k") simp_all
  next
    fix c f i assume "bm_get (me_indexes (e\<lparr>me_objects := bm_insert k x (me_objects e), me_vectors := vs\<rparr>)) (c, f) = Some i"
    then have i: "bm_get (me_indexes e) (c, f) = Some i"
      by simp
    show "ix_collection i = c" "ix_field i = f"
      by (rule objects_okD(4,5) [OF ok i])+
    show "unique_in parse (e\<lparr>me_objects := bm_insert k x (me_objects e), me_vectors := vs\<rparr>) c f" if "ix_unique i"
      using unique [OF i that] .
  qed (use objects_okD(1,2) [OF ok] in simp_all)
qed

lemma objects_ok_vectors [simp]: "objects_ok parse (e\<lparr>me_vectors := vs\<rparr>) = objects_ok parse e"
  by (simp add: objects_ok_def unique_in_def)

lemma validate_unique_fresh:
  assumes "objects_ok parse e" "validate_unique_indexes parse obj e = Ok ()"
    "bm_get (me_indexes e) (ok_collection (mo_key obj), f) = Some i" "ix_unique i" "indexed_value parse f obj = Some v"
    "v \<noteq> JNull" "bm_get (me_objects e) l = Some y" "l \<noteq> mo_key obj" "ok_collection l = ok_collection (mo_key obj)"
  shows "indexed_value parse f y \<noteq> Some v"
proof -
  obtain body where body: "parse (mo_body obj) = Some body" "json_get body f = Some v"
    using assms(5) by (auto simp: indexed_value_def bind_eq_Some_conv)
  have i: "ix_collection i = ok_collection (mo_key obj)" "ix_field i = f" and y: "mo_key y = l"
    by (rule objects_okD(4) [OF assms(1,3)], rule objects_okD(5) [OF assms(1,3)], rule objects_okD(3) [OF assms(1,7)])
  have imem: "i \<in> set (filter (\<lambda>index. ix_unique index \<and> ix_collection index = ok_collection (mo_key obj)) (map snd (me_indexes e)))"
    using bm_get_values [OF assms(3)] assms(4) i by simp
  have ymem: "y \<in> set (map snd (me_objects e))"
    using bm_get_values [OF assms(7)] by simp
  have chk: "check_indexes parse (map snd (me_objects e)) obj body
      (filter (\<lambda>index. ix_unique index \<and> ix_collection index = ok_collection (mo_key obj)) (map snd (me_indexes e))) = Ok ()"
    using assms(2) body(1) by (simp add: validate_unique_indexes_def)
  have "indexed_value parse (ix_field i) y \<noteq> Some v"
    by (rule check_indexes_Ok [OF chk imem _ assms(6) ymem]) (use body(2) i(2) y assms(8,9) in simp_all)
  then show ?thesis
    by (simp add: i(2))
qed

lemma put_object_result:
  assumes "put_object parse now obj e = (Ok stored, e')"
  shows "validate_unique_indexes parse obj e = Ok ()"
    "stored = obj\<lparr>mo_version := (case current_version (mo_key obj) e of None \<Rightarrow> 1 | Some v \<Rightarrow> v + 1), mo_updated_at := now,
       mo_created_at := (if mo_created_at obj = [] then now else mo_created_at obj)\<rparr>"
    "\<exists>vs. e' = e\<lparr>me_objects := bm_insert (mo_key obj) stored (me_objects e), me_vectors := vs\<rparr>"
  using assms
  by (auto simp: put_object_def current_version_def Let_def split: sum.splits option.splits)

lemma put_object_error: "put_object parse now obj e = (Err err, e') \<Longrightarrow> e' = e"
  by (auto simp: put_object_def Let_def split: sum.splits)

lemma objects_ok_put:
  assumes "objects_ok parse e"
  shows "objects_ok parse (snd (put_object parse now obj e))"
proof (cases "put_object parse now obj e")
  case (Pair r e')
  show ?thesis
  proof (cases r)
    case (Inl err)
    then show ?thesis
      using Pair assms put_object_error [of parse now obj e err e'] by simp
  next
    case (Inr stored)
    note put = put_object_result [OF Pair [unfolded Inr]]
    have key: "mo_key stored = mo_key obj" and body: "indexed_value parse f stored = indexed_value parse f obj" for f
      by (simp_all add: put(2) indexed_value_def)
    obtain vs where e': "e' = e\<lparr>me_objects := bm_insert (mo_key obj) stored (me_objects e), me_vectors := vs\<rparr>"
      using put(3) by blast
    have "objects_ok parse e'"
      unfolding e' by (rule objects_ok_insert [OF assms key], unfold body) (rule validate_unique_fresh [OF assms put(1)])
    then show ?thesis
      by (simp add: Pair)
  qed
qed

lemma objects_ok_store_replicated:
  assumes "objects_ok parse e" "bm_get (me_objects e) (mo_key obj) = Some stored"
  shows "objects_ok parse (snd (store_replicated obj stored e))"
proof -
  have key: "mo_key stored = mo_key obj"
    by (rule objects_okD(3) [OF assms])
  obtain r where r: "mo_key r = mo_key obj" "mo_body r = mo_body stored"
    "store_replicated obj stored e = (Ok r, e\<lparr>me_objects := bm_insert (mo_key obj) r (me_objects e), me_vectors := me_vectors e\<rparr>)"
    using key by (simp add: store_replicated_def Let_def)
  have "indexed_value parse f y \<noteq> Some v"
    if "bm_get (me_indexes e) (ok_collection (mo_key obj), f) = Some i" "ix_unique i" "indexed_value parse f r = Some v"
      "v \<noteq> JNull" "bm_get (me_objects e) l = Some y" "l \<noteq> mo_key obj" "ok_collection l = ok_collection (mo_key obj)" for f i v l y
  proof
    assume "indexed_value parse f y = Some v"
    moreover have "indexed_value parse f stored = Some v"
      using that(3) by (simp add: indexed_value_body [OF r(2)])
    moreover have "unique_in parse e (ok_collection (mo_key obj)) f"
      by (rule objects_okD(6) [OF assms(1) that(1,2)])
    ultimately have "mo_key obj = l"
      using unique_inD [OF _ assms(2) that(5) refl that(7) _ _ that(4)] by blast
    then show False
      using that(6) by simp
  qed
  then have "objects_ok parse (e\<lparr>me_objects := bm_insert (mo_key obj) r (me_objects e), me_vectors := me_vectors e\<rparr>)"
    by (rule objects_ok_insert [OF assms(1) r(1)])
  then show ?thesis
    unfolding r(3) by simp
qed

lemma objects_ok_options: "objects_ok parse e \<Longrightarrow> objects_ok parse (snd (put_object_with_options parse now obj options e))"
  by (simp add: put_object_with_options_def objects_ok_put Let_def split: option.split)

lemma objects_ok_source:
  assumes ok: "objects_ok parse e"
  shows "objects_ok parse (snd (put_object_with_source_metadata parse now obj options e))"
proof -
  have "objects_ok parse (snd (st_then (put_object parse now obj) (store_replicated obj) e))"
  proof (cases "put_object parse now obj e")
    case (Pair r e')
    have ok': "objects_ok parse e'"
      using objects_ok_put [OF ok, of now obj] Pair by simp
    show ?thesis
    proof (cases r)
      case (Inl err)
      then show ?thesis
        using Pair ok' by (simp add: st_then_def)
    next
      case (Inr stored)
      have "bm_get (me_objects e') (mo_key obj) = Some stored"
        using put_object_result(3) [OF Pair [unfolded Inr]] by auto
      then show ?thesis
        using Pair Inr objects_ok_store_replicated [OF ok'] by (simp add: st_then_def)
    qed
  qed
  then show ?thesis
    using ok by (simp add: put_object_with_source_metadata_def split: option.split)
qed

text \<open>Removing objects or indexes keeps the invariant.\<close>

lemma map_leD: "m \<subseteq>\<^sub>m n \<Longrightarrow> m k = Some x \<Longrightarrow> n k = Some x"
  by (metis domI map_le_def)

lemma objects_ok_submap:
  assumes ok: "objects_ok parse e" and m: "bm_ok (me_objects e')" "bm_ok (me_indexes e')"
    "bm_get (me_objects e') \<subseteq>\<^sub>m bm_get (me_objects e)" "bm_get (me_indexes e') \<subseteq>\<^sub>m bm_get (me_indexes e)"
  shows "objects_ok parse e'"
  unfolding objects_ok_def
proof (intro conjI allI impI m)
  have obj: "bm_get (me_objects e) k = Some x" if "bm_get (me_objects e') k = Some x" for k x
    using map_leD [OF m(3) that] .
  show "mo_key x = k" if "bm_get (me_objects e') k = Some x" for k x
    by (rule objects_okD(3) [OF ok obj [OF that]])
  fix c f i
  assume "bm_get (me_indexes e') (c, f) = Some i"
  then have i: "bm_get (me_indexes e) (c, f) = Some i"
    by (rule map_leD [OF m(4)])
  show "ix_collection i = c" "ix_field i = f"
    by (rule objects_okD(4,5) [OF ok i])+
  show "unique_in parse e' c f" if "ix_unique i"
    unfolding unique_in_def
    by (intro allI impI) (rule unique_inD [OF objects_okD(6) [OF ok i that] obj obj])
qed

lemma objects_ok_delete: "objects_ok parse e \<Longrightarrow> objects_ok parse (snd (delete_object c i e))"
  by (rule objects_ok_submap) (auto simp: delete_object_def map_le_def objects_okD(1,2))

lemma objects_ok_delete_index: "objects_ok parse e \<Longrightarrow> objects_ok parse (snd (delete_index c f e))"
  by (rule objects_ok_submap) (auto simp: delete_index_def map_le_def objects_okD(1,2))

lemma objects_ok_put_batch: "objects_ok parse e \<Longrightarrow> objects_ok parse (snd (put_objects_batch parse objs e))"
proof (induction objs arbitrary: e)
  case (Cons p objs)
  obtain now obj where p: "p = (now, obj)"
    by (cases p)
  show ?case
    using Cons.IH [OF objects_ok_put [OF Cons.prems, of now obj]] objects_ok_put [OF Cons.prems, of now obj]
    by (auto simp: p st_then_def split: prod.split sum.split)
qed simp

lemma objects_ok_delete_batch: "objects_ok parse e \<Longrightarrow> objects_ok parse (snd (delete_objects_batch keys e))"
proof (induction keys arbitrary: e)
  case (Cons p keys)
  obtain c i where p: "p = (c, i)"
    by (cases p)
  show ?case
    using Cons.IH [OF objects_ok_delete [OF Cons.prems, of c i]] objects_ok_delete [OF Cons.prems, of c i]
    by (auto simp: p st_then_def split: prod.split sum.split)
qed simp

text \<open>Creating a unique index: the scan has found no value twice.\<close>

lemma validate_existing_unique:
  assumes ok: "objects_ok parse e" and v: "validate_existing_unique_index parse index e = Ok ()"
  shows "unique_in parse e (ix_collection index) (ix_field index)"
  unfolding unique_in_def
proof (intro allI impI)
  fix k l x y v
  assume x: "bm_get (me_objects e) k = Some x" and y: "bm_get (me_objects e) l = Some y"
    and c: "ok_collection k = ix_collection index" "ok_collection l = ix_collection index"
    and val: "indexed_value parse (ix_field index) x = Some v" "indexed_value parse (ix_field index) y = Some v" "v \<noteq> JNull"
  let ?objs = "filter (\<lambda>obj. ok_collection (mo_key obj) = ix_collection index) (map snd (me_objects e))"
  have key: "mo_key x = k" "mo_key y = l"
    by (rule objects_okD(3) [OF ok x], rule objects_okD(3) [OF ok y])
  have mem: "x \<in> set ?objs" "y \<in> set ?objs"
    using bm_get_values [OF x] bm_get_values [OF y] c by (simp_all add: key)
  have "sorted_wrt (\<lambda>x y. \<forall>v. indexed_value parse (ix_field index) x = Some v \<longrightarrow>
      indexed_value parse (ix_field index) y = Some v \<longrightarrow> v = JNull) ?objs"
    using distinct_values_Ok [of parse index "[]" ?objs] v by (simp add: validate_existing_unique_index_def)
  from sorted_wrt_pair [OF this mem] val have "x = y"
    by blast
  with key show "k = l"
    by simp
qed

lemma create_index_results:
  "ix_collection index = [] \<or> ix_field index = [] \<Longrightarrow> \<exists>err. create_index_definition parse index e = (Err err, e)"
  "\<lbrakk>ix_collection index \<noteq> []; ix_field index \<noteq> []; ix_unique index; validate_existing_unique_index parse index e = Err err\<rbrakk>
    \<Longrightarrow> create_index_definition parse index e = (Err err, e)"
  "\<lbrakk>ix_collection index \<noteq> []; ix_field index \<noteq> []; ix_unique index \<longrightarrow> validate_existing_unique_index parse index e = Ok ()\<rbrakk>
    \<Longrightarrow> create_index_definition parse index e =
      (Ok (), e\<lparr>me_indexes := bm_insert (ix_collection index, ix_field index) index (me_indexes e)\<rparr>)"
  unfolding create_index_definition_def by simp_all

lemma create_index_cases:
  obtains (unchanged) err where "create_index_definition parse index e = (Err err, e)"
  | (created) "create_index_definition parse index e =
        (Ok (), e\<lparr>me_indexes := bm_insert (ix_collection index, ix_field index) index (me_indexes e)\<rparr>)"
      "ix_collection index \<noteq> []" "ix_field index \<noteq> []"
      "ix_unique index \<longrightarrow> validate_existing_unique_index parse index e = Ok ()"
proof (cases "ix_collection index = [] \<or> ix_field index = []")
  case True
  then show ?thesis
    using create_index_results(1) [of index parse e] unchanged by blast
next
  case False
  then have ne: "ix_collection index \<noteq> []" "ix_field index \<noteq> []"
    by blast+
  show ?thesis
  proof (cases "ix_unique index \<longrightarrow> validate_existing_unique_index parse index e = Ok ()")
    case True
    then show ?thesis
      using created create_index_results(3) [OF ne] ne by blast
  next
    case False
    then obtain err where "validate_existing_unique_index parse index e = Err err"
      by (cases "validate_existing_unique_index parse index e") auto
    then show ?thesis
      using unchanged create_index_results(2) [OF ne] False by blast
  qed
qed

lemma objects_ok_create_index:
  assumes ok: "objects_ok parse e"
  shows "objects_ok parse (snd (create_index_definition parse index e))"
proof (cases parse index e rule: create_index_cases)
  case created
  let ?c = "ix_collection index" and ?f = "ix_field index"
  have same: "unique_in parse (e\<lparr>me_indexes := ixs\<rparr>) c f = unique_in parse e c f" for ixs c f
    by (simp add: unique_in_def)
  show ?thesis
    unfolding created(1) snd_conv objects_ok_def
  proof (intro conjI allI impI)
    show "mo_key x = k" if "bm_get (me_objects (e\<lparr>me_indexes := bm_insert (?c, ?f) index (me_indexes e)\<rparr>)) k = Some x" for k x
      using that objects_okD(3) [OF ok, of k x] by simp
  next
    fix c f i
    assume i: "bm_get (me_indexes (e\<lparr>me_indexes := bm_insert (?c, ?f) index (me_indexes e)\<rparr>)) (c, f) = Some i"
    show "ix_collection i = c" "ix_field i = f"
      using i objects_okD(4,5) [OF ok, of c f i] by (auto split: if_splits)
    show "unique_in parse (e\<lparr>me_indexes := bm_insert (?c, ?f) index (me_indexes e)\<rparr>) c f" if "ix_unique i"
      using i objects_okD(6) [OF ok, of c f i] validate_existing_unique [OF ok, of index] created(4) that
      unfolding same by (auto split: if_splits)
  qed (use objects_okD(1,2) [OF ok] in simp_all)
qed (simp add: ok)

end
