(* ===== verification/Memory_Versions.thy ===== *)
theory Memory_Versions
  imports Memory_Objects
begin

text \<open>
  Optimistic concurrency of the in-memory object store: the version of an object counts its
  writes, and of the writes that expect the same version at most one succeeds, whatever other
  writes come between them.
\<close>

section \<open>Single writes\<close>

lemma current_version_put:
  assumes "put_object parse now obj e = (Ok stored, e')"
  shows "current_version k e' = (if k = mo_key obj
     then Some (case current_version k e of None \<Rightarrow> 1 | Some v \<Rightarrow> v + 1) else current_version k e)"
proof -
  note put = put_object_result [OF assms]
  obtain vs where "e' = e\<lparr>me_objects := bm_insert (mo_key obj) stored (me_objects e), me_vectors := vs\<rparr>"
    using put(3) by blast
  then show ?thesis
    using put(2) by (simp add: current_version_def)
qed

lemma put_with_options_cases:
  obtains (stored) stored e' where "put_object parse now obj e = (Ok stored, e')"
      "put_object_with_options parse now obj options e = (Ok stored, e')"
      "po_expected_version options = None \<or>
       (\<exists>v. po_expected_version options = Some v \<and> (if v = 0 then current_version (mo_key obj) e = None else current_version (mo_key obj) e = Some v))"
  | (rejected) err where "put_object_with_options parse now obj options e = (Err err, e)"
proof -
  have put: thesis if c: "put_object_with_options parse now obj options e = put_object parse now obj e"
      "po_expected_version options = None \<or>
       (\<exists>v. po_expected_version options = Some v \<and> (if v = 0 then current_version (mo_key obj) e = None else current_version (mo_key obj) e = Some v))"
  proof (cases "put_object parse now obj e")
    case (Pair r e')
    show thesis
    proof (cases r)
      case (Inl err)
      then show ?thesis
        using rejected c(1) Pair put_object_error [of parse now obj e err e'] by simp
    next
      case (Inr s)
      then show ?thesis
        using stored c Pair by simp
    qed
  qed
  show thesis
  proof (cases "po_expected_version options")
    case None
    then show ?thesis
      using put by (simp add: put_object_with_options_def)
  next
    case (Some v)
    show ?thesis
    proof (cases "if v = 0 then current_version (mo_key obj) e = None else current_version (mo_key obj) e = Some v")
      case True
      then show ?thesis
        using put Some by (simp add: put_object_with_options_def split: if_splits)
    next
      case False
      then have "put_object_with_options parse now obj options e =
          (Err (version_conflict (mo_key obj) v (current_version (mo_key obj) e)), e)"
        using Some by (simp add: put_object_with_options_def Let_def split: if_splits)
      then show ?thesis
        by (rule rejected)
    qed
  qed
qed

section \<open>Sequences of writes\<close>

text \<open>The calls of \<open>put_object_with_options\<close>, each with its clock reading, and the number of them
  that wrote the object of a key.\<close>

type_synonym 'f object_write = "string \<times> 'f memory_object \<times> put_object_options"

fun run_writes :: "(string \<Rightarrow> 'n json option) \<Rightarrow> 'f object_write list \<Rightarrow> ('f, 'w) memory_engine \<Rightarrow> ('f, 'w) memory_engine" where
  "run_writes parse [] e = e"
| "run_writes parse ((now, obj, options) # ws) e =
     run_writes parse ws (snd (put_object_with_options parse now obj options e))"

fun writes_of :: "(string \<Rightarrow> 'n json option) \<Rightarrow> object_key \<Rightarrow> 'f object_write list \<Rightarrow> ('f, 'w) memory_engine \<Rightarrow> nat" where
  "writes_of parse k [] e = 0"
| "writes_of parse k ((now, obj, options) # ws) e =
     (case put_object_with_options parse now obj options e of
        (r, e') \<Rightarrow> (if mo_key obj = k \<and> \<not> isl r then 1 else 0) + writes_of parse k ws e')"

definition version_after :: "u64 option \<Rightarrow> nat \<Rightarrow> u64 option" where
  "version_after v n = (if n = 0 then v else Some ((case v of None \<Rightarrow> 0 | Some w \<Rightarrow> w) + of_nat n))"

lemma version_after_next:
  "version_after (Some (case v of None \<Rightarrow> 1 | Some w \<Rightarrow> w + 1)) n = version_after v (Suc n)"
  by (simp add: version_after_def ac_simps split: option.split)

lemma writes_of_le: "writes_of parse k ws e \<le> length ws"
proof (induction ws arbitrary: e)
  case (Cons w ws)
  obtain now obj options where w: "w = (now, obj, options)"
    by (cases w)
  obtain r e' where "put_object_with_options parse now obj options e = (r, e')"
    by (cases "put_object_with_options parse now obj options e")
  then show ?case
    using Cons.IH [of e'] by (simp add: w)
qed simp

lemma run_writes_version:
  "current_version k (run_writes parse ws e) = version_after (current_version k e) (writes_of parse k ws e)"
proof (induction ws arbitrary: e)
  case (Cons w ws)
  obtain now obj options where w: "w = (now, obj, options)"
    by (cases w)
  show ?case
  proof (cases rule: put_with_options_cases [where parse = parse and now = now and obj = obj and options = options and e = e])
    case (stored s e')
    then show ?thesis
      using Cons.IH [of e'] by (simp add: w current_version_put [OF stored(1)] version_after_next)
  next
    case (rejected err)
    then show ?thesis
      using Cons.IH [of e] by (simp add: w)
  qed
qed (simp add: version_after_def)

section \<open>The properties\<close>

text \<open>
  C35: The version of an object counts its writes. After any sequence of writes, conditional or not,
  to any objects, the version of an object is its version at the start (0 if it was absent) plus
  the number of writes to it that were accepted; rejected writes and writes of other objects do not
  change it.
\<close>

theorem version_counts_writes:
  "current_version k (run_writes parse ws e) =
     (case current_version k e of
        None \<Rightarrow> (if writes_of parse k ws e = 0 then None else Some (of_nat (writes_of parse k ws e)))
      | Some v \<Rightarrow> Some (v + of_nat (writes_of parse k ws e)))"
  by (simp add: run_writes_version version_after_def split: option.split)

lemma version_moved_on:
  assumes "n < 2 ^ 64 - 1" "v \<noteq> 0"
  shows "v + 1 + of_nat n \<noteq> (v :: u64)"
proof
  assume "v + 1 + of_nat n = v"
  then have "of_nat (Suc n) = (0 :: u64)"
    by (simp add: add.assoc)
  then have "2 ^ 64 dvd Suc n"
    by (simp add: word_of_nat_eq_0_iff del: of_nat_Suc)
  then show False
    using assms by (auto dest: dvd_imp_le)
qed

text \<open>
  C36: A conditional write excludes its competitors. Once a write that expects version v (0 for an
  object that must not exist) has succeeded, every later write of the same object that expects v is
  rejected with a version conflict and changes nothing, whatever other writes (fewer than 2^64 - 1)
  came between the two.
\<close>

theorem conditional_write_excludes:
  assumes first: "put_object_with_options parse now a \<lparr>po_index = i, po_expected_version = Some v\<rparr> e = (Ok stored, e1)"
    and between: "length ws < 2 ^ 64 - 1" "e2 = run_writes parse ws e1"
    and same: "mo_key b = mo_key a"
  shows "put_object_with_options parse now' b \<lparr>po_index = j, po_expected_version = Some v\<rparr> e2 =
    (Err (version_conflict (mo_key b) v (current_version (mo_key b) e2)), e2)"
proof (cases rule: put_with_options_cases [where parse = parse and now = now and obj = a and e = e
      and options = "\<lparr>po_index = i, po_expected_version = Some v\<rparr>"])
  case (stored s e')
  have old: "if v = 0 then current_version (mo_key a) e = None else current_version (mo_key a) e = Some v"
    using stored(3) by simp
  have "current_version (mo_key a) e1 = Some (v + 1)"
    using old current_version_put [OF stored(1), of "mo_key a"] first stored(2) by (simp split: if_splits)
  then have now: "current_version (mo_key b) e2 = Some (v + 1 + of_nat (writes_of parse (mo_key a) ws e1))"
    unfolding between(2) same run_writes_version by (simp add: version_after_def)
  have "v + 1 + of_nat (writes_of parse (mo_key a) ws e1) \<noteq> v" if "v \<noteq> 0"
    using version_moved_on [OF _ that] writes_of_le [of parse "mo_key a" ws e1] between(1) by simp
  then show ?thesis
    unfolding put_object_with_options_def now by (auto simp: Let_def)
qed (use first in simp)

definition demo_object :: "string \<Rightarrow> unit memory_object" where
  "demo_object body = new_object ''c'' ''x'' body"

definition no_json :: "string \<Rightarrow> unit json option" where
  "no_json s = None"

theorem conditional_write_excludes_witness:
  "put_object_with_options no_json [] (demo_object ''b'') \<lparr>po_index = True, po_expected_version = Some 0\<rparr>
     (snd (put_object_with_options no_json [] (demo_object ''a'') \<lparr>po_index = True, po_expected_version = Some 0\<rparr>
       (new_engine :: (unit, unit) memory_engine))) =
   (Err (version_conflict (ObjectKey ''c'' ''x'') 0 (Some 1)),
    snd (put_object_with_options no_json [] (demo_object ''a'') \<lparr>po_index = True, po_expected_version = Some 0\<rparr> new_engine))"
proof -
  let ?put = "\<lambda>body. put_object_with_options no_json [] (demo_object body) \<lparr>po_index = True, po_expected_version = Some 0\<rparr>"
  let ?e = "new_engine :: (unit, unit) memory_engine"
  obtain s e1 where first: "?put ''a'' ?e = (Ok s, e1)" and v: "current_version (ObjectKey ''c'' ''x'') e1 = Some 1"
    by (simp add: put_object_with_options_def put_object_def validate_unique_indexes_def no_json_def new_engine_def
        demo_object_def new_object_def current_version_def Let_def)
  show ?thesis
    using conditional_write_excludes [OF first, where ws = "[]" and b = "demo_object ''b''" and now' = "[]" and j = True] v
    unfolding first snd_conv by (simp add: demo_object_def new_object_def)
qed

end
