(* ===== verification/Calls.thy ===== *)
theory Calls
  imports Prelude
begin

text \<open>
  Sequences of calls. A component is driven by calls that each take its state to the next one; its
  invariant may hold a budget, such as the numbers a counter has left, of which every call spends
  its cost. The locale \<open>call_system\<close> lifts what is proved of one call to any sequence of them: the
  invariant, and a reflexive and transitive relation between an earlier and a later state.
\<close>

primrec run_calls :: "('c \<Rightarrow> 's \<Rightarrow> 's) \<Rightarrow> 'c list \<Rightarrow> 's \<Rightarrow> 's" where
  "run_calls step [] s = s"
| "run_calls step (c # cs) s = run_calls step cs (step c s)"

lemma run_calls_append [simp]: "run_calls step (cs @ ds) s = run_calls step ds (run_calls step cs s)"
  by (induction cs arbitrary: s) simp_all

definition total_cost :: "('c \<Rightarrow> nat) \<Rightarrow> 'c list \<Rightarrow> nat" where
  "total_cost cost cs = sum_list (map cost cs)"

lemma total_cost_simps [simp]:
  "total_cost cost [] = 0" "total_cost cost (c # cs) = cost c + total_cost cost cs"
  "total_cost cost (cs @ ds) = total_cost cost cs + total_cost cost ds"
  by (simp_all add: total_cost_def)

locale call_system =
  fixes step :: "'c \<Rightarrow> 's \<Rightarrow> 's"
    and cost :: "'c \<Rightarrow> nat"
    and inv :: "nat \<Rightarrow> 's \<Rightarrow> bool"
    and later :: "'s \<Rightarrow> 's \<Rightarrow> bool"
  assumes step_inv: "inv (cost c + n) s \<Longrightarrow> inv n (step c s)"
    and step_later: "inv (cost c + n) s \<Longrightarrow> later s (step c s)"
    and later_refl: "later s s"
    and later_trans: "later s t \<Longrightarrow> later t u \<Longrightarrow> later s u"
begin

lemma run_inv: "inv (total_cost cost cs + n) s \<Longrightarrow> inv n (run_calls step cs s)"
  by (induction cs arbitrary: s) (simp_all add: step_inv add.assoc)

lemma run_later: "inv (total_cost cost cs + n) s \<Longrightarrow> later s (run_calls step cs s)"
proof (induction cs arbitrary: s)
  case (Cons c cs)
  then have "inv (cost c + (total_cost cost cs + n)) s"
    by (simp add: add.assoc)
  then have "later s (step c s)" "inv (total_cost cost cs + n) (step c s)"
    by (rule step_later, rule step_inv)
  then show ?case
    using Cons.IH later_trans by simp
qed (simp add: later_refl)

end

end
