(* ===== verification/Memory_Events.thy ===== *)
theory Memory_Events
  imports Thingd_Model Calls "HOL-Library.Sublist"
begin

text \<open>
  The event log of the in-memory engine (\<open>impl EventLog for MemoryEngine\<close>,
  \<open>crates/thingd/src/in_memory.rs\<close>; \<open>append_events_batch\<close> is the default of \<open>store.rs\<close>). Sequence
  numbers are \<open>u64\<close>: the properties of the log hold as long as the counter does not run over, which
  is a budget of calls in the invariant. The properties: sequence numbers increase and are never
  given twice, an append with a known idempotency key returns the first event, the audit stream
  cannot be changed, and reading page by page misses and repeats nothing.
\<close>

section \<open>Operations\<close>

definition is_protected_stream :: "string \<Rightarrow> bool" where
  "is_protected_stream stream \<longleftrightarrow> stream = ''__thingd:mcp:audit''"

definition protected_error :: "string \<Rightarrow> thingd_error" where
  "protected_error stream = Protected (''stream '' @ [CHR 0x27] @ stream @ [CHR 0x27] @ '' is protected and cannot be modified'')"

text \<open>The event an append returns instead of writing: the known idempotency key names one that is
  still in the log.\<close>

definition existing_event :: "memory_event \<Rightarrow> ('f, 'w) memory_engine \<Rightarrow> memory_event option" where
  "existing_event event e =
     (if ev_idempotency_key event = [] then None
      else case hm_get (me_event_idempotency_keys e) (ev_stream event, ev_idempotency_key event) of
        None \<Rightarrow> None
      | Some existing_seq \<Rightarrow> find (\<lambda>ev. ev_sequence ev = existing_seq) (me_events e))"

definition append_event :: "string \<Rightarrow> memory_event \<Rightarrow> ('f, 'w, memory_event) mem" where
  "append_event now event e =
     (case existing_event event e of
        Some existing \<Rightarrow> (Ok existing, e)
      | None \<Rightarrow>
          let sequence = me_next_event_sequence e + 1;
              event = event\<lparr>ev_sequence := sequence,
                ev_created_at := (if ev_created_at event = [] then now else ev_created_at event)\<rparr>;
              keys = (if ev_idempotency_key event = [] then me_event_idempotency_keys e
                      else hm_insert (ev_stream event, ev_idempotency_key event) sequence (me_event_idempotency_keys e))
          in (Ok event, e\<lparr>me_next_event_sequence := sequence, me_event_idempotency_keys := keys,
                          me_events := me_events e @ [event]\<rparr>))"

fun append_events_batch :: "(string \<times> memory_event) list \<Rightarrow> ('f, 'w, memory_event list) mem" where
  "append_events_batch [] e = (Ok [], e)"
| "append_events_batch ((now, event) # events) e =
     st_then (append_event now event) (\<lambda>stored.
     st_then (append_events_batch events) (\<lambda>rest e. (Ok (stored # rest), e))) e"

definition list_events :: "string option \<Rightarrow> list_events_options \<Rightarrow> ('f, 'w) memory_engine \<Rightarrow> memory_event list" where
  "list_events stream options e =
     (let events = filter (\<lambda>ev.
            (case stream of None \<Rightarrow> True | Some target \<Rightarrow> ev_stream ev = target) \<and>
            (case le_from_sequence options of None \<Rightarrow> True | Some seq \<Rightarrow> ev_sequence ev > seq) \<and>
            (case le_since options of None \<Rightarrow> True | Some since \<Rightarrow> ev_created_at ev \<ge> since)) (me_events e)
      in case le_limit options of Some limit \<Rightarrow> take limit events | None \<Rightarrow> events)"

definition count_events :: "('f, 'w) memory_engine \<Rightarrow> nat" where
  "count_events e = length (me_events e)"

definition list_streams :: "('f, 'w) memory_engine \<Rightarrow> string list" where
  "list_streams e = remdups_adj (sort (map ev_stream (me_events e)))"

text \<open>\<open>Vec::remove\<close> at the \<open>rposition\<close> of the stream.\<close>

fun remove_last_of :: "string \<Rightarrow> memory_event list \<Rightarrow> memory_event option \<times> memory_event list" where
  "remove_last_of stream [] = (None, [])"
| "remove_last_of stream (ev # evs) =
     (case remove_last_of stream evs of
        (Some found, rest) \<Rightarrow> (Some found, ev # rest)
      | (None, rest) \<Rightarrow> if ev_stream ev = stream then (Some ev, rest) else (None, ev # rest))"

definition delete_last_event :: "string \<Rightarrow> ('f, 'w, memory_event option) mem" where
  "delete_last_event stream e =
     (if is_protected_stream stream then (Err (protected_error stream), e)
      else case remove_last_of stream (me_events e) of (removed, rest) \<Rightarrow> (Ok removed, e\<lparr>me_events := rest\<rparr>))"

definition delete_stream :: "string \<Rightarrow> ('f, 'w, nat) mem" where
  "delete_stream stream e =
     (if is_protected_stream stream then (Err (protected_error stream), e)
      else let rest = filter (\<lambda>ev. ev_stream ev \<noteq> stream) (me_events e)
           in (Ok (length (me_events e) - length rest), e\<lparr>me_events := rest\<rparr>))"

text \<open>The calls that change the log.\<close>

datatype event_call =
  AppendEvent string memory_event | AppendEvents "(string \<times> memory_event) list" | DeleteLastEvent string | DeleteStream string

fun event_step :: "event_call \<Rightarrow> ('f, 'w) memory_engine \<Rightarrow> ('f, 'w) memory_engine" where
  "event_step (AppendEvent now ev) e = snd (append_event now ev e)"
| "event_step (AppendEvents evs) e = snd (append_events_batch evs e)"
| "event_step (DeleteLastEvent s) e = snd (delete_last_event s e)"
| "event_step (DeleteStream s) e = snd (delete_stream s e)"

fun event_cost :: "event_call \<Rightarrow> nat" where
  "event_cost (AppendEvent now ev) = 1"
| "event_cost (AppendEvents evs) = length evs"
| "event_cost _ = 0"

section \<open>The invariant\<close>

text \<open>
  The log is ordered by sequence number, no number is beyond the counter, the keys in use name the
  events of the log that carry them, and the counter has room for \<open>n\<close> more events.
\<close>

definition events_ok :: "nat \<Rightarrow> ('f, 'w) memory_engine \<Rightarrow> bool" where
  "events_ok n e \<longleftrightarrow> unat (me_next_event_sequence e) + n < 2 ^ 64 \<and>
     sorted_wrt (\<lambda>a b. ev_sequence a < ev_sequence b) (me_events e) \<and>
     (\<forall>ev \<in> set (me_events e). ev_sequence ev \<le> me_next_event_sequence e \<and>
        (ev_idempotency_key ev \<noteq> [] \<longrightarrow>
           hm_get (me_event_idempotency_keys e) (ev_stream ev, ev_idempotency_key ev) = Some (ev_sequence ev))) \<and>
     (\<forall>s k q. hm_get (me_event_idempotency_keys e) (s, k) = Some q \<longrightarrow> q \<le> me_next_event_sequence e \<and>
        (\<forall>ev \<in> set (me_events e). ev_sequence ev = q \<longrightarrow> ev_stream ev = s \<and> ev_idempotency_key ev = k))"

lemma events_okD:
  assumes "events_ok n e"
  shows "unat (me_next_event_sequence e) + n < 2 ^ 64" "sorted_wrt (\<lambda>a b. ev_sequence a < ev_sequence b) (me_events e)"
    "ev \<in> set (me_events e) \<Longrightarrow> ev_sequence ev \<le> me_next_event_sequence e"
    "ev \<in> set (me_events e) \<Longrightarrow> ev_idempotency_key ev \<noteq> [] \<Longrightarrow>
       hm_get (me_event_idempotency_keys e) (ev_stream ev, ev_idempotency_key ev) = Some (ev_sequence ev)"
    "hm_get (me_event_idempotency_keys e) (s, k) = Some q \<Longrightarrow> q \<le> me_next_event_sequence e"
    "hm_get (me_event_idempotency_keys e) (s, k) = Some q \<Longrightarrow> ev \<in> set (me_events e) \<Longrightarrow> ev_sequence ev = q \<Longrightarrow>
       ev_stream ev = s \<and> ev_idempotency_key ev = k"
  using assms unfolding events_ok_def by blast+

lemma events_ok_new: "events_ok n new_engine \<longleftrightarrow> n < 2 ^ 64"
  by (simp add: events_ok_def new_engine_def)

lemma events_ok_less: "events_ok n e \<Longrightarrow> m \<le> n \<Longrightarrow> events_ok m e"
  by (auto simp: events_ok_def)

text \<open>Removing events keeps the invariant.\<close>

lemma events_ok_subset:
  assumes ok: "events_ok n e" and sub: "set evs \<subseteq> set (me_events e)" "sorted_wrt (\<lambda>a b. ev_sequence a < ev_sequence b) evs"
  shows "events_ok n (e\<lparr>me_events := evs\<rparr>)"
  unfolding events_ok_def
proof (intro conjI ballI allI impI)
  fix ev
  assume "ev \<in> set (me_events (e\<lparr>me_events := evs\<rparr>))"
  then have ev: "ev \<in> set (me_events e)"
    using sub(1) by auto
  show "ev_sequence ev \<le> me_next_event_sequence (e\<lparr>me_events := evs\<rparr>)"
    using events_okD(3) [OF ok ev] by simp
  show "hm_get (me_event_idempotency_keys (e\<lparr>me_events := evs\<rparr>)) (ev_stream ev, ev_idempotency_key ev) = Some (ev_sequence ev)"
    if "ev_idempotency_key ev \<noteq> []"
    using events_okD(4) [OF ok ev that] by simp
next
  fix s k q
  assume "hm_get (me_event_idempotency_keys (e\<lparr>me_events := evs\<rparr>)) (s, k) = Some q"
  then have q: "hm_get (me_event_idempotency_keys e) (s, k) = Some q"
    by simp
  show "q \<le> me_next_event_sequence (e\<lparr>me_events := evs\<rparr>)"
    using events_okD(5) [OF ok q] by simp
  fix ev
  assume "ev \<in> set (me_events (e\<lparr>me_events := evs\<rparr>))" "ev_sequence ev = q"
  then show "ev_stream ev = s" "ev_idempotency_key ev = k"
    using events_okD(6) [OF ok q, of ev] sub(1) by auto
qed (use events_okD(1) [OF ok] sub(2) in simp_all)

text \<open>The event with a given sequence number is found.\<close>

lemma find_sequence:
  assumes "sorted_wrt (\<lambda>a b. ev_sequence a < ev_sequence b) evs" "ev \<in> set evs"
  shows "find (\<lambda>x. ev_sequence x = ev_sequence ev) evs = Some ev"
  using assms by (induction evs) auto

lemma existing_event_Some:
  assumes ok: "events_ok n e" and ex: "existing_event event e = Some ev"
  shows "ev \<in> set (me_events e)" "ev_stream ev = ev_stream event" "ev_idempotency_key ev = ev_idempotency_key event"
    "ev_idempotency_key event \<noteq> []"
proof -
  obtain q where key: "ev_idempotency_key event \<noteq> []"
    and q: "hm_get (me_event_idempotency_keys e) (ev_stream event, ev_idempotency_key event) = Some q"
    and f: "find (\<lambda>ev. ev_sequence ev = q) (me_events e) = Some ev"
    using ex by (auto simp: existing_event_def split: if_splits option.splits)
  from f have ev: "ev \<in> set (me_events e)" "ev_sequence ev = q"
    by (auto simp: find_Some_iff)
  show "ev \<in> set (me_events e)" "ev_idempotency_key event \<noteq> []"
    by (fact ev(1), fact key)
  show "ev_stream ev = ev_stream event" "ev_idempotency_key ev = ev_idempotency_key event"
    using events_okD(6) [OF ok q ev] by blast+
qed

lemma existing_event_present:
  assumes ok: "events_ok n e" and ev: "ev \<in> set (me_events e)" "ev_idempotency_key ev \<noteq> []"
    and same: "ev_stream event = ev_stream ev" "ev_idempotency_key event = ev_idempotency_key ev"
  shows "existing_event event e = Some ev"
  unfolding existing_event_def same
  using ev(2) events_okD(4) [OF ok ev] find_sequence [OF events_okD(2) [OF ok] ev(1)] by simp

text \<open>The two outcomes of an append.\<close>

lemma append_event_cases:
  obtains (known) ev where "existing_event event e = Some ev" "append_event now event e = (Ok ev, e)"
  | (fresh) ev keys where "existing_event event e = None"
      "ev = event\<lparr>ev_sequence := me_next_event_sequence e + 1,
         ev_created_at := (if ev_created_at event = [] then now else ev_created_at event)\<rparr>"
      "append_event now event e = (Ok ev, e\<lparr>me_next_event_sequence := me_next_event_sequence e + 1,
         me_event_idempotency_keys := keys, me_events := me_events e @ [ev]\<rparr>)"
      "hm_get keys = (if ev_idempotency_key event = [] then hm_get (me_event_idempotency_keys e)
         else (hm_get (me_event_idempotency_keys e))((ev_stream event, ev_idempotency_key event) \<mapsto> me_next_event_sequence e + 1))"
proof (cases "existing_event event e")
  case None
  let ?keys = "if ev_idempotency_key event = [] then me_event_idempotency_keys e
        else hm_insert (ev_stream event, ev_idempotency_key event) (me_next_event_sequence e + 1) (me_event_idempotency_keys e)"
  show ?thesis
  proof (rule fresh [OF None refl, of ?keys])
    show "hm_get ?keys = (if ev_idempotency_key event = [] then hm_get (me_event_idempotency_keys e)
         else (hm_get (me_event_idempotency_keys e))((ev_stream event, ev_idempotency_key event) \<mapsto> me_next_event_sequence e + 1))"
      by simp
  qed (simp add: append_event_def None Let_def)
qed (simp add: known append_event_def)


lemma next_sequence:
  assumes "events_ok (Suc n) e"
  shows "unat (me_next_event_sequence e + 1) = Suc (unat (me_next_event_sequence e))"
    "q \<le> me_next_event_sequence e \<Longrightarrow> q < me_next_event_sequence e + 1"
    "q \<le> me_next_event_sequence e \<Longrightarrow> q \<noteq> me_next_event_sequence e + 1"
proof -
  have "unat (me_next_event_sequence e) + 1 < 2 ^ 64"
    using events_okD(1) [OF assms] by simp
  then show u: "unat (me_next_event_sequence e + 1) = Suc (unat (me_next_event_sequence e))"
    by (simp add: unat_word_ariths)
  show "q \<le> me_next_event_sequence e \<Longrightarrow> q < me_next_event_sequence e + 1" "q \<le> me_next_event_sequence e \<Longrightarrow> q \<noteq> me_next_event_sequence e + 1"
    using u by (auto simp: word_le_nat_alt word_less_nat_alt)
qed

text \<open>The key table after an append still names the events of the log, and nothing else.\<close>

lemma keys_after_append:
  assumes ok: "events_ok (Suc n) e" and none: "existing_event event e = None"
    and keys: "hm_get keys = (if ev_idempotency_key event = [] then hm_get (me_event_idempotency_keys e)
         else (hm_get (me_event_idempotency_keys e))((ev_stream event, ev_idempotency_key event) \<mapsto> me_next_event_sequence e + 1))"
  shows "x \<in> set (me_events e) \<Longrightarrow> ev_idempotency_key x \<noteq> [] \<Longrightarrow>
      hm_get keys (ev_stream x, ev_idempotency_key x) = Some (ev_sequence x)"
    and "hm_get keys (s, k) = Some q \<Longrightarrow> q \<le> me_next_event_sequence e + 1"
    and "hm_get keys (s, k) = Some q \<Longrightarrow> x \<in> set (me_events e) \<Longrightarrow> ev_sequence x = q \<Longrightarrow> ev_stream x = s \<and> ev_idempotency_key x = k"
    and "hm_get keys (s, k) = Some (me_next_event_sequence e + 1) \<Longrightarrow> ev_stream event = s \<and> ev_idempotency_key event = k"
proof -
  note next' = next_sequence [OF ok]
  show "hm_get keys (ev_stream x, ev_idempotency_key x) = Some (ev_sequence x)"
    if x: "x \<in> set (me_events e)" "ev_idempotency_key x \<noteq> []"
  proof -
    have "existing_event event e = Some x" if "ev_stream event = ev_stream x" "ev_idempotency_key event = ev_idempotency_key x"
      using existing_event_present [OF ok x that] .
    then show ?thesis
      using events_okD(4) [OF ok x] none by (auto simp: keys)
  qed
  have split: "(s = ev_stream event \<and> k = ev_idempotency_key event \<and> q = me_next_event_sequence e + 1) \<or>
      hm_get (me_event_idempotency_keys e) (s, k) = Some q" if "hm_get keys (s, k) = Some q" for q
    using that by (auto simp: keys split: if_splits)
  show "q \<le> me_next_event_sequence e + 1" if "hm_get keys (s, k) = Some q"
    using split [OF that] events_okD(5) [OF ok] next'(2) less_imp_le by blast
  show "ev_stream x = s \<and> ev_idempotency_key x = k"
    if q: "hm_get keys (s, k) = Some q" and x: "x \<in> set (me_events e)" "ev_sequence x = q"
    using split [OF q] events_okD(6) [OF ok _ x] events_okD(3) [OF ok x(1)] next'(3) x(2) by blast
  show "ev_stream event = s \<and> ev_idempotency_key event = k" if "hm_get keys (s, k) = Some (me_next_event_sequence e + 1)"
    using split [OF that] events_okD(5) [OF ok] next'(3) by blast
qed

lemma events_ok_append:
  assumes ok: "events_ok (Suc n) e"
  shows "events_ok n (snd (append_event now event e))"
proof (cases rule: append_event_cases [where event = event and e = e and now = now])
  case (known ev)
  then show ?thesis
    using events_ok_less [OF ok] by simp
next
  case (fresh ev keys)
  note next' = next_sequence [OF ok] and keys = keys_after_append [OF ok fresh(1,4)]
  have old: "x \<in> set (me_events e) \<Longrightarrow> ev_sequence x < me_next_event_sequence e + 1" for x
    using next'(2) events_okD(3) [OF ok] by blast
  have evf: "ev_sequence ev = me_next_event_sequence e + 1" "ev_stream ev = ev_stream event"
    "ev_idempotency_key ev = ev_idempotency_key event"
    by (simp_all add: fresh(2))
  have 1: "unat (me_next_event_sequence e + 1) + n < 2 ^ 64"
    using events_okD(1) [OF ok] next'(1) by simp
  have 2: "sorted_wrt (\<lambda>a b. ev_sequence a < ev_sequence b) (me_events e @ [ev])"
    using events_okD(2) [OF ok] old evf(1) by (simp add: sorted_wrt_append)
  have 3: "ev_sequence x \<le> me_next_event_sequence e + 1" if "x \<in> set (me_events e @ [ev])" for x
    using that old evf(1) less_imp_le by auto
  have 4: "hm_get keys (ev_stream x, ev_idempotency_key x) = Some (ev_sequence x)"
    if "x \<in> set (me_events e @ [ev])" "ev_idempotency_key x \<noteq> []" for x
  proof (cases "x = ev")
    case True
    then show ?thesis
      using that(2) by (simp add: fresh(4) evf)
  qed (use that keys(1) [of x] in simp)
  have 5: "ev_stream x = s \<and> ev_idempotency_key x = k"
    if "hm_get keys (s, k) = Some q" "x \<in> set (me_events e @ [ev])" "ev_sequence x = q" for s k q x
    using that keys(3) [OF that(1), of x] keys(4) [of s k] evf by auto
  show ?thesis
    unfolding fresh(3) events_ok_def using 1 2 3 4 5 keys(2) by simp
qed

text \<open>Deletions.\<close>

lemma remove_last_of_subset:
  "set (snd (remove_last_of s evs)) \<subseteq> set evs"
  "sorted_wrt P evs \<Longrightarrow> sorted_wrt P (snd (remove_last_of s evs))"
proof -
  show sub: "set (snd (remove_last_of s evs)) \<subseteq> set evs" for evs
    by (induction evs) (auto split: prod.splits option.splits)
  show "sorted_wrt P evs \<Longrightarrow> sorted_wrt P (snd (remove_last_of s evs))"
    using sub by (induction evs) (force split: prod.splits option.splits)+
qed

lemma remove_last_of_others: "t \<noteq> s \<Longrightarrow> filter (\<lambda>ev. ev_stream ev = t) (snd (remove_last_of s evs)) = filter (\<lambda>ev. ev_stream ev = t) evs"
  by (induction evs) (auto split: prod.splits option.splits)

lemma events_ok_delete_last: "events_ok n e \<Longrightarrow> events_ok n (snd (delete_last_event s e))"
  using remove_last_of_subset [where s = s and evs = "me_events e"] events_ok_subset [of n e "snd (remove_last_of s (me_events e))"] events_okD(2) [of n e]
  by (cases "remove_last_of s (me_events e)") (simp add: delete_last_event_def)

lemma events_ok_delete_stream: "events_ok n e \<Longrightarrow> events_ok n (snd (delete_stream s e))"
  using events_ok_subset [of n e "filter (\<lambda>ev. ev_stream ev \<noteq> s) (me_events e)"] events_okD(2) [of n e]
  by (simp add: delete_stream_def Let_def sorted_wrt_filter)

lemma events_ok_append_batch: "events_ok (length evs + n) e \<Longrightarrow> events_ok n (snd (append_events_batch evs e))"
proof (induction evs arbitrary: e)
  case (Cons p evs)
  obtain now ev where p: "p = (now, ev)"
    by (cases p)
  obtain r e' where a: "append_event now ev e = (Ok r, e')"
    by (cases rule: append_event_cases [where event = ev and e = e and now = now]) auto
  have "events_ok (length evs + n) e'"
    using events_ok_append [of "length evs + n" e now ev] Cons.prems a by simp
  then have "events_ok n (snd (append_events_batch evs e'))"
    by (rule Cons.IH)
  then show ?case
    using a by (auto simp: p st_then_def split: prod.split sum.split)
qed simp

section \<open>An earlier and a later log\<close>

text \<open>
  The counter does not go back, an event numbered up to the earlier counter was in the earlier log,
  and the protected stream has only grown.
\<close>

definition audit :: "('f, 'w) memory_engine \<Rightarrow> memory_event list" where
  "audit e = filter (\<lambda>ev. is_protected_stream (ev_stream ev)) (me_events e)"

definition events_later :: "('f, 'w) memory_engine \<Rightarrow> ('f, 'w) memory_engine \<Rightarrow> bool" where
  "events_later e e' \<longleftrightarrow> me_next_event_sequence e \<le> me_next_event_sequence e' \<and>
     (\<forall>ev \<in> set (me_events e'). ev_sequence ev \<le> me_next_event_sequence e \<longrightarrow> ev \<in> set (me_events e)) \<and>
     prefix (audit e) (audit e')"

lemma events_later_refl: "events_later e e"
  by (simp add: events_later_def)

lemma events_later_trans: "events_later a b \<Longrightarrow> events_later b c \<Longrightarrow> events_later a c"
  unfolding events_later_def by (meson order_trans prefix_order.order_trans)

lemma events_later_append:
  assumes ok: "events_ok (Suc n) e"
  shows "events_later e (snd (append_event now event e))"
proof (cases rule: append_event_cases [where event = event and e = e and now = now])
  case (known ev)
  then show ?thesis
    by (simp add: events_later_refl)
next
  case (fresh ev keys)
  note next' = next_sequence [OF ok]
  have "\<not> me_next_event_sequence e + 1 \<le> me_next_event_sequence e" "me_next_event_sequence e \<le> me_next_event_sequence e + 1"
    using next'(2) [OF order_refl] by auto
  then show ?thesis
    unfolding fresh(3) by (auto simp: events_later_def audit_def fresh(2))
qed

lemma events_later_append_batch: "events_ok (length evs + n) e \<Longrightarrow> events_later e (snd (append_events_batch evs e))"
proof (induction evs arbitrary: e)
  case (Cons p evs)
  obtain now ev where p: "p = (now, ev)"
    by (cases p)
  obtain r e' where a: "append_event now ev e = (Ok r, e')"
    by (cases rule: append_event_cases [where event = ev and e = e and now = now]) auto
  have "events_ok (length evs + n) e'" "events_later e e'"
    using events_ok_append [of "length evs + n" e now ev] events_later_append [of "length evs + n" e now ev] Cons.prems a by simp_all
  then have "events_later e (snd (append_events_batch evs e'))"
    using Cons.IH events_later_trans by blast
  then show ?case
    using a by (auto simp: p st_then_def split: prod.split sum.split)
qed (simp add: events_later_refl)

lemma events_later_delete:
  "events_later e (snd (delete_last_event s e))" "events_later e (snd (delete_stream s e))"
proof -
  have "events_later e (e\<lparr>me_events := snd (remove_last_of s (me_events e))\<rparr>)" if "\<not> is_protected_stream s"
    using remove_last_of_subset(1) [of s "me_events e"] that remove_last_of_others [of "''__thingd:mcp:audit''" s "me_events e"]
    by (auto simp: events_later_def audit_def is_protected_stream_def)
  then show "events_later e (snd (delete_last_event s e))"
    by (cases "remove_last_of s (me_events e)") (simp add: delete_last_event_def events_later_refl)
  have "filter (\<lambda>ev. is_protected_stream (ev_stream ev) \<and> ev_stream ev \<noteq> s) (me_events e) = audit e"
    if "\<not> is_protected_stream s"
    unfolding audit_def using that by (intro filter_cong) auto
  then show "events_later e (snd (delete_stream s e))"
    by (auto simp: delete_stream_def Let_def events_later_def) (simp add: audit_def conj_commute)
qed

interpretation el: call_system event_step event_cost events_ok events_later
proof
  show "events_ok n (event_step c e)" if "events_ok (event_cost c + n) e" for c n and e :: "('a, 'b) memory_engine"
    using that by (cases c) (simp_all add: events_ok_append events_ok_append_batch events_ok_delete_last events_ok_delete_stream)
  show "events_later e (event_step c e)" if "events_ok (event_cost c + n) e" for c n and e :: "('a, 'b) memory_engine"
    using that by (cases c) (auto simp: events_later_delete intro: events_later_append events_later_append_batch)
qed (rule events_later_refl, rule events_later_trans)

section \<open>The protected stream\<close>

lemma audit_append: "prefix (audit e) (audit (snd (append_event now event e)))"
proof (cases rule: append_event_cases [where event = event and e = e and now = now])
  case (fresh ev keys)
  then show ?thesis
    by (simp add: audit_def)
qed simp

lemma audit_append_batch: "prefix (audit e) (audit (snd (append_events_batch evs e)))"
proof (induction evs arbitrary: e)
  case (Cons p evs)
  obtain now ev where p: "p = (now, ev)"
    by (cases p)
  obtain r e' where a: "append_event now ev e = (Ok r, e')"
    by (cases rule: append_event_cases [where event = ev and e = e and now = now]) auto
  have "prefix (audit e) (audit e')"
    using audit_append [of e now ev] a by simp
  then have "prefix (audit e) (audit (snd (append_events_batch evs e')))"
    using Cons.IH [of e'] by (rule prefix_order.order_trans)
  then show ?case
    using a by (auto simp: p st_then_def split: prod.split sum.split)
qed simp

section \<open>Pages\<close>

lemma filter_after_take:
  assumes "sorted_wrt (\<lambda>a b. k a < k b) xs" "take n xs \<noteq> []"
  shows "filter (\<lambda>x. k (last (take n xs)) < (k x :: 'k :: linorder)) xs = drop n xs"
proof -
  let ?l = "last (take n xs)"
  have split: "sorted_wrt (\<lambda>a b. k a < k b) (take n xs @ drop n xs)"
    using assms(1) by simp
  have "k x \<le> k ?l" if "x \<in> set (take n xs)" for x
  proof -
    have "sorted_wrt (\<lambda>a b. k a < k b) (butlast (take n xs) @ [?l])"
      using split assms(2) by (simp add: sorted_wrt_append)
    moreover have "x \<in> set (butlast (take n xs)) \<or> x = ?l"
      using that assms(2) by (metis append_butlast_last_id in_set_conv_decomp rotate1.simps(2) set_ConsD set_rotate1)
    ultimately show ?thesis
      by (auto simp: sorted_wrt_append)
  qed
  moreover have "k ?l < k x" if "x \<in> set (drop n xs)" for x
    using split last_in_set [OF assms(2)] that unfolding sorted_wrt_append by blast
  ultimately have "filter (\<lambda>x. k ?l < k x) (take n xs @ drop n xs) = drop n xs"
    unfolding filter_append by (simp add: filter_empty_conv leD)
  then show ?thesis
    by simp
qed

lemma pages_split:
  assumes sorted: "sorted_wrt (\<lambda>a b. ev_sequence a < ev_sequence b) evs"
    and page: "page = take n (filter (\<lambda>ev. A ev \<and> B ev \<and> C ev) evs)" "page \<noteq> []"
    and mono: "\<And>x y. B x \<Longrightarrow> ev_sequence x < ev_sequence y \<Longrightarrow> B y"
  shows "filter (\<lambda>ev. A ev \<and> B ev \<and> C ev) evs = page @ filter (\<lambda>ev. A ev \<and> ev_sequence (last page) < ev_sequence ev \<and> C ev) evs"
proof -
  let ?f = "filter (\<lambda>ev. A ev \<and> B ev \<and> C ev) evs"
  have "last page \<in> set ?f"
    using last_in_set [OF page(2)] page(1) by (auto dest: in_set_takeD)
  then have "B (last page)"
    by simp
  then have "filter (\<lambda>ev. A ev \<and> ev_sequence (last page) < ev_sequence ev \<and> C ev) evs = filter (\<lambda>ev. ev_sequence (last page) < ev_sequence ev) ?f"
    using mono by (auto intro: filter_cong)
  also have "\<dots> = drop n ?f"
    using filter_after_take [of ev_sequence ?f n] sorted page by (simp add: sorted_wrt_filter)
  finally show ?thesis
    using page(1) by simp
qed

section \<open>The properties\<close>

text \<open>
  C37: Sequence numbers order the log and are never given twice. From an empty engine, over any calls that
  append fewer than 2^64 events, the log is strictly increasing in the sequence number; and an
  event of the log after further calls whose number was given before them was in the log then,
  unchanged, so that a deleted number does not come back.
\<close>

theorem event_sequence_increasing:
  assumes budget: "total_cost event_cost (cs @ ds) < 2 ^ 64"
    and e: "e = run_calls event_step cs new_engine" "e' = run_calls event_step ds e"
  shows "sorted_wrt (\<lambda>a b. ev_sequence a < ev_sequence b) (me_events e')
    \<and> (\<forall>ev \<in> set (me_events e'). ev_sequence ev \<le> me_next_event_sequence e \<longrightarrow> ev \<in> set (me_events e))
    \<and> me_next_event_sequence e \<le> me_next_event_sequence e'"
proof -
  have "events_ok (total_cost event_cost cs + (total_cost event_cost ds + 0)) new_engine"
    using budget by (simp add: events_ok_new)
  from el.run_inv [OF this] have ok: "events_ok (total_cost event_cost ds + 0) e"
    by (simp add: e(1))
  have "events_ok 0 e'" "events_later e e'"
    unfolding e(2) using el.run_inv [OF ok] el.run_later [OF ok] by blast+
  then show ?thesis
    using events_okD(2) [of 0 e'] by (auto simp: events_later_def)
qed

definition demo_event :: "string \<Rightarrow> string \<Rightarrow> memory_event" where
  "demo_event stream key = \<lparr>ev_stream = stream, ev_type = ''t'', ev_body = [], ev_sequence = 0, ev_created_at = [],
     ev_idempotency_key = key\<rparr>"

theorem event_sequence_increasing_witness:
  "map ev_sequence (me_events (run_calls event_step
     [AppendEvent [] (demo_event ''a'' []), DeleteStream ''a'', AppendEvent [] (demo_event ''b'' []), AppendEvent [] (demo_event ''a'' [])]
     (new_engine :: (unit, unit) memory_engine))) = [2, 3]
   \<and> sorted_wrt (\<lambda>a b. ev_sequence a < ev_sequence b) (me_events (run_calls event_step
     [AppendEvent [] (demo_event ''a'' []), DeleteStream ''a'', AppendEvent [] (demo_event ''b'' []), AppendEvent [] (demo_event ''a'' [])]
     (new_engine :: (unit, unit) memory_engine)))"
  using event_sequence_increasing [where e = "new_engine :: (unit, unit) memory_engine" and cs = "[]" and ds =
    "[AppendEvent [] (demo_event ''a'' []), DeleteStream ''a'', AppendEvent [] (demo_event ''b'' []), AppendEvent [] (demo_event ''a'' [])]", OF _ _ refl]
  by (simp add: append_event_def existing_event_def delete_stream_def is_protected_stream_def demo_event_def new_engine_def Let_def)

text \<open>
  C38: An append is idempotent. Once an append with an idempotency key has returned an event, every later
  append with the same stream and key returns that event and changes nothing, whatever calls came
  between, as long as the event itself has not been deleted.
\<close>

theorem append_idempotent:
  assumes budget: "total_cost event_cost cs + total_cost event_cost ds + 1 < 2 ^ 64"
    and e: "e = run_calls event_step cs new_engine"
    and first: "append_event now event e = (Ok stored, e1)" "ev_idempotency_key event \<noteq> []"
    and later: "e2 = run_calls event_step ds e1" "stored \<in> set (me_events e2)"
    and again: "ev_stream event' = ev_stream event" "ev_idempotency_key event' = ev_idempotency_key event"
  shows "append_event now' event' e2 = (Ok stored, e2)"
proof -
  have "events_ok (total_cost event_cost cs + Suc (total_cost event_cost ds)) new_engine"
    using budget by (simp add: events_ok_new)
  from el.run_inv [OF this] have ok: "events_ok (Suc (total_cost event_cost ds)) e"
    by (simp add: e)
  from events_ok_append [OF this, of now event] have "events_ok (total_cost event_cost ds + 0) e1"
    by (simp add: first)
  from el.run_inv [OF this] have ok2: "events_ok 0 e2"
    by (simp add: later)
  have "ev_stream stored = ev_stream event \<and> ev_idempotency_key stored = ev_idempotency_key event"
  proof (cases rule: append_event_cases [where event = event and e = e and now = now])
    case (known ev)
    then show ?thesis
      using first(1) existing_event_Some(2,3) [OF ok] by simp
  next
    case (fresh ev keys)
    then show ?thesis
      using first(1) by simp
  qed
  then have "existing_event event' e2 = Some stored"
    using existing_event_present [OF ok2 later(2)] again first(2) by simp
  then show ?thesis
    by (simp add: append_event_def)
qed

theorem append_idempotent_witness:
  "append_event ''9'' (demo_event ''a'' ''k'') (run_calls event_step [AppendEvent [] (demo_event ''b'' []), DeleteStream ''b'']
     (snd (append_event ''1'' (demo_event ''a'' ''k'') (new_engine :: (unit, unit) memory_engine)))) =
   (Ok ((demo_event ''a'' ''k'')\<lparr>ev_sequence := 1, ev_created_at := ''1''\<rparr>),
    run_calls event_step [AppendEvent [] (demo_event ''b'' []), DeleteStream ''b'']
     (snd (append_event ''1'' (demo_event ''a'' ''k'') new_engine)))"
proof -
  let ?s = "(demo_event ''a'' ''k'')\<lparr>ev_sequence := 1, ev_created_at := ''1''\<rparr>"
  let ?e = "new_engine :: (unit, unit) memory_engine"
  obtain e1 where e1: "append_event ''1'' (demo_event ''a'' ''k'') ?e = (Ok ?s, e1)" "me_events e1 = [?s]"
    by (simp add: append_event_def existing_event_def demo_event_def new_engine_def Let_def)
  have "?s \<in> set (me_events (run_calls event_step [AppendEvent [] (demo_event ''b'' []), DeleteStream ''b''] e1))"
    using e1(2) by (simp add: append_event_def existing_event_def demo_event_def delete_stream_def is_protected_stream_def Let_def)
  then show ?thesis
    using append_idempotent [where e = ?e and cs = "[]" and ds = "[AppendEvent [] (demo_event ''b'' []), DeleteStream ''b'']",
        OF _ _ e1(1) _ refl, where event' = "demo_event ''a'' ''k''" and now' = "''9''"]
    unfolding e1(1) snd_conv by (simp add: demo_event_def)
qed

text \<open>
  C39: The audit stream cannot be changed. Whatever calls are made, the events of the protected stream stay
  in the log, unchanged and in order: the earlier ones are a prefix of the later ones.
\<close>

theorem audit_stream_append_only:
  "prefix (audit (run_calls event_step cs e)) (audit (run_calls event_step (cs @ ds) e))"
proof -
  have keep: "prefix (audit e) (audit (event_step c e))" for c and e :: "('a, 'b) memory_engine"
  proof (cases c)
    case (AppendEvents evs)
    have "prefix (audit e) (audit (snd (append_events_batch evs e)))"
      by (rule audit_append_batch)
    then show ?thesis
      by (simp add: AppendEvents)
  qed (use events_later_delete [of e] audit_append in \<open>auto simp: events_later_def\<close>)
  have "prefix (audit e) (audit (run_calls event_step ds e))" for ds and e :: "('a, 'b) memory_engine"
    by (induction ds arbitrary: e) (use keep prefix_order.order_trans in force)+
  then show ?thesis
    by simp
qed

text \<open>
  C40: Reading page by page is complete. In any state reached from an empty engine, a page of a stream and the
  read that starts after its last event are together the whole rest of the stream, with nothing
  missing, repeated or out of order.
\<close>

theorem pages_complete:
  assumes budget: "total_cost event_cost cs < 2 ^ 64" and e: "e = run_calls event_step cs new_engine"
    and page: "page = list_events stream \<lparr>le_from_sequence = from', le_limit = Some n, le_since = since\<rparr> e" "page \<noteq> []"
  shows "list_events stream \<lparr>le_from_sequence = from', le_limit = None, le_since = since\<rparr> e =
    page @ list_events stream \<lparr>le_from_sequence = Some (ev_sequence (last page)), le_limit = None, le_since = since\<rparr> e"
proof -
  have "events_ok 0 e"
    using el.run_inv [of cs 0 new_engine] budget by (simp add: events_ok_new e)
  note sorted = events_okD(2) [OF this]
  let ?A = "\<lambda>ev. case stream of None \<Rightarrow> True | Some target \<Rightarrow> ev_stream ev = target"
    and ?B = "\<lambda>ev. case from' of None \<Rightarrow> True | Some seq \<Rightarrow> seq < ev_sequence ev"
    and ?C = "\<lambda>ev. case since of None \<Rightarrow> True | Some since \<Rightarrow> since \<le> ev_created_at ev"
  have "page = take n (filter (\<lambda>ev. ?A ev \<and> ?B ev \<and> ?C ev) (me_events e))"
    by (simp add: page(1) list_events_def)
  from pages_split [OF sorted this page(2)] show ?thesis
    by (auto simp: list_events_def split: option.splits)
qed

theorem pages_complete_witness:
  "list_events None \<lparr>le_from_sequence = None, le_limit = None, le_since = None\<rparr>
     (run_calls event_step [AppendEvent [] (demo_event ''a'' []), AppendEvent [] (demo_event ''b'' [])] (new_engine :: (unit, unit) memory_engine)) =
   [(demo_event ''a'' [])\<lparr>ev_sequence := 1\<rparr>] @
   list_events None \<lparr>le_from_sequence = Some 1, le_limit = None, le_since = None\<rparr>
     (run_calls event_step [AppendEvent [] (demo_event ''a'' []), AppendEvent [] (demo_event ''b'' [])] (new_engine :: (unit, unit) memory_engine))"
proof -
  let ?cs = "[AppendEvent [] (demo_event ''a'' []), AppendEvent [] (demo_event ''b'' [])]"
  define e where "e = run_calls event_step ?cs (new_engine :: (unit, unit) memory_engine)"
  have "[(demo_event ''a'' [])\<lparr>ev_sequence := 1\<rparr>] = list_events None \<lparr>le_from_sequence = None, le_limit = Some 1, le_since = None\<rparr> e"
    by (simp add: e_def list_events_def append_event_def existing_event_def demo_event_def new_engine_def Let_def)
  from pages_complete [OF _ e_def this] show ?thesis
    unfolding e_def by simp
qed

end
