(* ===== verification/Memory_Queue.thy ===== *)
theory Memory_Queue
  imports Thingd_Model Calls
begin

text \<open>
  The job queues of the in-memory engine (\<open>impl QueueStore for MemoryEngine\<close>,
  \<open>crates/thingd/src/in_memory.rs\<close>; the batch and convenience operations are the defaults of
  \<open>store.rs\<close>). The code reads the clock once when it releases expired leases and again when it
  claims: the operations take both readings. The number of attempts is a \<open>u32\<close> that wraps in a
  single claim and saturates in a batch claim, as in the code.
\<close>

section \<open>Operations\<close>

definition queue_jobs :: "string \<Rightarrow> ('f, 'w) memory_engine \<Rightarrow> queue_job list" where
  "queue_jobs queue e = (case bm_get (me_queues e) queue of None \<Rightarrow> [] | Some jobs \<Rightarrow> jobs)"

definition push_job :: "queue_job \<Rightarrow> ('f, 'w, queue_job) mem" where
  "push_job job e =
     (case find (\<lambda>candidate. qj_id candidate = qj_id job) (queue_jobs (qj_queue job) e) of
        Some existing \<Rightarrow> (Ok existing, e)
      | None \<Rightarrow> (Ok job, e\<lparr>me_queues := bm_insert (qj_queue job) (queue_jobs (qj_queue job) e @ [job]) (me_queues e)\<rparr>))"

fun push_jobs_batch :: "queue_job list \<Rightarrow> ('f, 'w, queue_job list) mem" where
  "push_jobs_batch [] e = (Ok [], e)"
| "push_jobs_batch (job # jobs) e =
     st_then (push_job job) (\<lambda>pushed. st_then (push_jobs_batch jobs) (\<lambda>rest e. (Ok (pushed # rest), e))) e"

text \<open>Expired leases.\<close>

definition lease_expired :: "int \<Rightarrow> queue_job \<Rightarrow> bool" where
  "lease_expired now job \<longleftrightarrow> qj_status job = Leased \<and> (case qj_lease_expires_at_ms job of None \<Rightarrow> False | Some t \<Rightarrow> t \<le> now)"

definition release_job :: "int \<Rightarrow> queue_job \<Rightarrow> queue_job" where
  "release_job now job =
     (if lease_expired now job then job\<lparr>qj_status := Ready, qj_leased_at_ms := None, qj_lease_expires_at_ms := None\<rparr> else job)"

definition release_expired_leases :: "int \<Rightarrow> string \<Rightarrow> ('f, 'w) memory_engine \<Rightarrow> ('f, 'w) memory_engine" where
  "release_expired_leases now queue e =
     (case bm_get (me_queues e) queue of
        None \<Rightarrow> e
      | Some jobs \<Rightarrow> e\<lparr>me_queues := bm_insert queue (map (release_job now) jobs) (me_queues e)\<rparr>)"

text \<open>Claims. The jobs are sorted by descending priority; the sort is stable.\<close>

definition by_priority :: "queue_job list \<Rightarrow> queue_job list" where
  "by_priority = sort_key (\<lambda>job. - qj_priority job)"

definition claimable :: "int \<Rightarrow> queue_job \<Rightarrow> bool" where
  "claimable now job \<longleftrightarrow> qj_status job = Ready \<and> qj_available_at_ms job \<le> now"

definition lease_job :: "u64 \<Rightarrow> int \<Rightarrow> u32 \<Rightarrow> queue_job \<Rightarrow> queue_job" where
  "lease_job lease_ms now attempts job = job\<lparr>qj_status := Leased, qj_attempts := attempts, qj_leased_at_ms := Some now,
     qj_lease_expires_at_ms := Some (i64_sat_add now (u64_to_i64 lease_ms))\<rparr>"

text \<open>The first job that satisfies a condition, updated in place.\<close>

fun update_first :: "(queue_job \<Rightarrow> bool) \<Rightarrow> (queue_job \<Rightarrow> queue_job) \<Rightarrow> queue_job list \<Rightarrow> queue_job option \<times> queue_job list" where
  "update_first P f [] = (None, [])"
| "update_first P f (job # jobs) =
     (if P job then (Some (f job), f job # jobs)
      else case update_first P f jobs of (found, rest) \<Rightarrow> (found, job # rest))"

fun update_upto :: "nat \<Rightarrow> (queue_job \<Rightarrow> bool) \<Rightarrow> (queue_job \<Rightarrow> queue_job) \<Rightarrow> queue_job list \<Rightarrow> queue_job list \<times> queue_job list" where
  "update_upto n P f [] = ([], [])"
| "update_upto n P f (job # jobs) =
     (if n > 0 \<and> P job then case update_upto (n - 1) P f jobs of (found, rest) \<Rightarrow> (f job # found, f job # rest)
      else case update_upto n P f jobs of (found, rest) \<Rightarrow> (found, job # rest))"

definition claim_job_with_options :: "int \<Rightarrow> int \<Rightarrow> string \<Rightarrow> u64 \<Rightarrow> ('f, 'w, queue_job option) mem" where
  "claim_job_with_options now0 now queue lease_ms e =
     (let e = release_expired_leases now0 queue e in
      case bm_get (me_queues e) queue of
        None \<Rightarrow> (Ok None, e)
      | Some jobs \<Rightarrow>
          (case update_first (claimable now) (\<lambda>job. lease_job lease_ms now (qj_attempts job + 1) job) (by_priority jobs) of
             (found, jobs) \<Rightarrow> (Ok found, e\<lparr>me_queues := bm_insert queue jobs (me_queues e)\<rparr>)))"

definition claim_job :: "int \<Rightarrow> int \<Rightarrow> string \<Rightarrow> ('f, 'w, queue_job option) mem" where
  "claim_job now0 now queue = claim_job_with_options now0 now queue DEFAULT_QUEUE_LEASE_MS"

definition u32_sat_succ :: "u32 \<Rightarrow> u32" where
  "u32_sat_succ n = (if n = - 1 then n else n + 1)"

definition claim_jobs_with_options :: "int \<Rightarrow> int \<Rightarrow> string \<Rightarrow> u64 \<Rightarrow> nat \<Rightarrow> ('f, 'w, queue_job list) mem" where
  "claim_jobs_with_options now0 now queue lease_ms limit e =
     (if limit > MAX_QUEUE_BATCH_ITEMS
      then (Err (InvalidInput (''queue claim batch exceeds the maximum of '' @ decimal MAX_QUEUE_BATCH_ITEMS @ '' jobs'')), e)
      else if limit = 0 then (Ok [], e)
      else let e = release_expired_leases now0 queue e in
        case bm_get (me_queues e) queue of
          None \<Rightarrow> (Ok [], e)
        | Some jobs \<Rightarrow>
            (case update_upto limit (claimable now) (\<lambda>job. lease_job lease_ms now (u32_sat_succ (qj_attempts job)) job) (by_priority jobs) of
               (found, jobs) \<Rightarrow> (Ok found, e\<lparr>me_queues := bm_insert queue jobs (me_queues e)\<rparr>)))"

text \<open>Acknowledgements.\<close>

definition complete_job :: "int \<Rightarrow> queue_job \<Rightarrow> queue_job" where
  "complete_job now job = job\<lparr>qj_status := Completed, qj_completed_at_ms := Some now\<rparr>"

definition find_job :: "string \<Rightarrow> queue_job list \<Rightarrow> queue_job option" where
  "find_job id' jobs = find (\<lambda>job. qj_id job = id') jobs"

definition replace_job :: "string \<Rightarrow> string \<Rightarrow> (queue_job \<Rightarrow> queue_job) \<Rightarrow> ('f, 'w) memory_engine \<Rightarrow> ('f, 'w) memory_engine" where
  "replace_job queue id' f e =
     e\<lparr>me_queues := bm_insert queue (snd (update_first (\<lambda>job. qj_id job = id') f (queue_jobs queue e))) (me_queues e)\<rparr>"

definition ack_job :: "int \<Rightarrow> string \<Rightarrow> string \<Rightarrow> ('f, 'w, queue_job option) mem" where
  "ack_job now queue id' e =
     (case find_job id' (queue_jobs queue e) of
        None \<Rightarrow> (Ok None, e)
      | Some job \<Rightarrow>
          if qj_status job \<noteq> Leased then (Err (Conflict (''job '' @ id' @ '' must be leased before ack'')), e)
          else (Ok (Some (complete_job now job)), replace_job queue id' (complete_job now) e))"

fun check_leased :: "string \<Rightarrow> queue_job list \<Rightarrow> string list \<Rightarrow> unit thingd_result" where
  "check_leased queue jobs [] = Ok ()"
| "check_leased queue jobs (id' # ids) =
     (case find_job id' jobs of
        None \<Rightarrow> Err (Conflict (''job '' @ id' @ '' was not found in queue '' @ [CHR 0x27] @ queue @ [CHR 0x27]))
      | Some job \<Rightarrow>
          if qj_status job \<noteq> Leased then Err (Conflict (''job '' @ id' @ '' must be leased before batch ack''))
          else check_leased queue jobs ids)"

fun complete_jobs :: "int \<Rightarrow> string list \<Rightarrow> queue_job list \<Rightarrow> queue_job list \<times> queue_job list" where
  "complete_jobs now [] jobs = ([], jobs)"
| "complete_jobs now (id' # ids) jobs =
     (case update_first (\<lambda>job. qj_id job = id') (complete_job now) jobs of (found, jobs) \<Rightarrow>
      case complete_jobs now ids jobs of (rest, jobs) \<Rightarrow> ((case found of None \<Rightarrow> rest | Some job \<Rightarrow> job # rest), jobs))"

definition ack_jobs :: "int \<Rightarrow> string \<Rightarrow> string list \<Rightarrow> ('f, 'w, queue_job list) mem" where
  "ack_jobs now queue ids e =
     (if length ids > MAX_QUEUE_BATCH_ITEMS
      then (Err (InvalidInput (''queue ack batch exceeds the maximum of '' @ decimal MAX_QUEUE_BATCH_ITEMS @ '' jobs'')), e)
      else if \<not> distinct ids then (Err (InvalidInput ''queue ack batch contains duplicate job IDs''), e)
      else if ids = [] then (Ok [], e)
      else case bm_get (me_queues e) queue of
        None \<Rightarrow> (Err (Conflict (''queue '' @ [CHR 0x27] @ queue @ [CHR 0x27] @ '' does not contain the leased jobs'')), e)
      | Some jobs \<Rightarrow>
          (case check_leased queue jobs ids of
             Inl err \<Rightarrow> (Err err, e)
           | Inr _ \<Rightarrow> (case complete_jobs now ids jobs of (found, jobs) \<Rightarrow>
               (Ok found, e\<lparr>me_queues := bm_insert queue jobs (me_queues e)\<rparr>))))"

definition claim_and_ack :: "int \<Rightarrow> int \<Rightarrow> int \<Rightarrow> string \<Rightarrow> u64 \<Rightarrow> ('f, 'w, queue_job option) mem" where
  "claim_and_ack now0 now now' queue lease_ms =
     st_then (claim_job_with_options now0 now queue lease_ms) (\<lambda>claimed.
       case claimed of Some job \<Rightarrow> ack_job now' queue (qj_id job) | None \<Rightarrow> (\<lambda>e. (Ok None, e)))"

text \<open>Each round of the batch has its three clock readings; there are \<open>limit\<close> rounds at most.\<close>

fun claim_and_ack_batch :: "(int \<times> int \<times> int) list \<Rightarrow> string \<Rightarrow> u64 \<Rightarrow> ('f, 'w, queue_job list) mem" where
  "claim_and_ack_batch [] queue lease_ms e = (Ok [], e)"
| "claim_and_ack_batch ((now0, now, now') # rounds) queue lease_ms e =
     st_then (claim_and_ack now0 now now' queue lease_ms) (\<lambda>completed.
       case completed of
         None \<Rightarrow> (\<lambda>e. (Ok [], e))
       | Some job \<Rightarrow> st_then (claim_and_ack_batch rounds queue lease_ms) (\<lambda>rest e. (Ok (job # rest), e))) e"

text \<open>Rejections.\<close>

definition reject_job :: "int \<Rightarrow> queue_nack_options \<Rightarrow> queue_job \<Rightarrow> queue_job" where
  "reject_job now options job =
     (let job = job\<lparr>qj_leased_at_ms := None, qj_lease_expires_at_ms := None,
                    qj_last_error := (if qn_error options \<noteq> [] then qn_error options else qj_last_error job)\<rparr>
      in if qj_attempts job \<ge> qj_max_attempts job
         then job\<lparr>qj_dead_at_ms := Some now, qj_status := Dead\<rparr>
         else job\<lparr>qj_available_at_ms := i64_sat_add now (u64_to_i64 (qn_delay_ms options)), qj_status := Ready\<rparr>)"

definition nack_job_with_options :: "int \<Rightarrow> string \<Rightarrow> string \<Rightarrow> queue_nack_options \<Rightarrow> ('f, 'w, queue_job option) mem" where
  "nack_job_with_options now queue id' options e =
     (case find_job id' (queue_jobs queue e) of
        None \<Rightarrow> (Ok None, e)
      | Some job \<Rightarrow>
          if qj_status job \<noteq> Leased then (Err (Conflict (''job '' @ id' @ '' must be leased before nack'')), e)
          else (Ok (Some (reject_job now options job)), replace_job queue id' (reject_job now options) e))"

definition nack_job :: "int \<Rightarrow> string \<Rightarrow> string \<Rightarrow> ('f, 'w, queue_job option) mem" where
  "nack_job now queue id' = nack_job_with_options now queue id' \<lparr>qn_delay_ms = 0, qn_error = []\<rparr>"

text \<open>Reading.\<close>

definition list_jobs :: "string \<Rightarrow> ('f, 'w) memory_engine \<Rightarrow> queue_job list" where
  "list_jobs queue e = queue_jobs queue e"

definition list_dead_jobs :: "string \<Rightarrow> ('f, 'w) memory_engine \<Rightarrow> queue_job list" where
  "list_dead_jobs queue e = filter (\<lambda>job. qj_status job = Dead) (queue_jobs queue e)"

definition list_queues :: "('f, 'w) memory_engine \<Rightarrow> string list" where
  "list_queues e = sort (map fst (me_queues e))"

definition count_active_jobs :: "('f, 'w) memory_engine \<Rightarrow> nat" where
  "count_active_jobs e = length (filter (\<lambda>job. qj_status job = Ready \<or> qj_status job = Leased) (concat (map snd (me_queues e))))"

definition count_dead_jobs :: "('f, 'w) memory_engine \<Rightarrow> nat" where
  "count_dead_jobs e = length (filter (\<lambda>job. qj_status job = Dead) (concat (map snd (me_queues e))))"

end
