(* ===== verification/Queue_Lifecycle.thy ===== *)
theory Queue_Lifecycle
  imports Memory_Queue "HOL-Library.Sublist"
begin

text \<open>
  The life of a job. A step relation says what may happen to one job; the invariant of the queues
  and the relation between earlier and later states lift it to sequences of queue calls. The
  properties: jobs only move along the steps, no job is acknowledged twice, a lease keeps other
  workers away until it ends, an expired lease is claimed again, claims follow priority and age,
  and a batch acknowledgement is all or nothing.
\<close>

section \<open>Steps of a job\<close>

inductive job_step :: "queue_job \<Rightarrow> queue_job \<Rightarrow> bool" where
  claimed: "claimable now job \<Longrightarrow> job_step job (lease_job lease_ms now attempts job)"
| released: "lease_expired now job \<Longrightarrow> job_step job (release_job now job)"
| completed: "qj_status job = Leased \<Longrightarrow> job_step job (complete_job now job)"
| rejected: "qj_status job = Leased \<Longrightarrow> job_step job (reject_job now options job)"

inductive_cases job_stepE: "job_step job job'"

lemmas job_updates = lease_job_def release_job_def complete_job_def reject_job_def Let_def

lemma job_step_same: "job_step job job' \<Longrightarrow> qj_id job' = qj_id job \<and> qj_queue job' = qj_queue job \<and> qj_priority job' = qj_priority job"
  by (auto elim!: job_stepE simp: job_updates)

lemma job_steps_same:
  "job_step\<^sup>*\<^sup>* job job' \<Longrightarrow> qj_id job' = qj_id job \<and> qj_queue job' = qj_queue job \<and> qj_priority job' = qj_priority job"
  by (induction rule: rtranclp_induct) (auto dest: job_step_same)

text \<open>Completed and dead jobs do not change any more.\<close>

definition terminal :: "queue_job \<Rightarrow> bool" where
  "terminal job \<longleftrightarrow> qj_status job = Completed \<or> qj_status job = Dead"

lemma terminal_no_step: "job_step job job' \<Longrightarrow> \<not> terminal job"
  by (auto elim!: job_stepE simp: terminal_def claimable_def lease_expired_def)

lemma terminal_stays: "job_step\<^sup>*\<^sup>* job job' \<Longrightarrow> terminal job \<Longrightarrow> job' = job"
  by (erule converse_rtranclpE) (auto dest: terminal_no_step)

section \<open>Lists of jobs\<close>

definition jobs_ok :: "string \<Rightarrow> queue_job list \<Rightarrow> bool" where
  "jobs_ok queue jobs \<longleftrightarrow> distinct (map qj_id jobs) \<and> (\<forall>job \<in> set jobs. qj_queue job = queue)"

lemma find_job_iff: "jobs_ok queue jobs \<Longrightarrow> find_job i jobs = Some job \<longleftrightarrow> job \<in> set jobs \<and> qj_id job = i"
  unfolding jobs_ok_def find_job_def by (induction jobs) (auto simp: rev_image_eqI)

lemma find_job_None_iff: "find_job i jobs = None \<longleftrightarrow> i \<notin> qj_id ` set jobs"
  unfolding find_job_def by (induction jobs) auto

text \<open>
  A later list of jobs: every job is still there and has moved along the steps, and the line of
  the jobs of one priority has only grown at its end.
\<close>

definition job_line :: "int \<Rightarrow> queue_job list \<Rightarrow> string list" where
  "job_line p jobs = map qj_id (filter (\<lambda>job. qj_priority job = p) jobs)"

definition jobs_later :: "queue_job list \<Rightarrow> queue_job list \<Rightarrow> bool" where
  "jobs_later jobs jobs' \<longleftrightarrow>
     (\<forall>i job. find_job i jobs = Some job \<longrightarrow> (\<exists>job'. find_job i jobs' = Some job' \<and> job_step\<^sup>*\<^sup>* job job')) \<and>
     (\<forall>p. prefix (job_line p jobs) (job_line p jobs'))"

lemma jobs_later_refl: "jobs_later jobs jobs"
  by (auto simp: jobs_later_def)

lemma jobs_later_trans: "jobs_later a b \<Longrightarrow> jobs_later b c \<Longrightarrow> jobs_later a c"
  unfolding jobs_later_def by (meson rtranclp_trans prefix_order.order_trans)

text \<open>Updating jobs in place.\<close>

lemma advance_ids: "list_all2 job_step\<^sup>*\<^sup>* jobs jobs' \<Longrightarrow> map qj_id jobs' = map qj_id jobs"
  by (induction rule: list_all2_induct) (auto dest: job_steps_same)

lemma advance_later: "list_all2 job_step\<^sup>*\<^sup>* jobs jobs' \<Longrightarrow> jobs_later jobs jobs'"
  unfolding jobs_later_def find_job_def job_line_def
  by (induction rule: list_all2_induct) (auto dest: job_steps_same split: if_splits)

lemma advance_ok:
  assumes "jobs_ok queue jobs" "list_all2 job_step\<^sup>*\<^sup>* jobs jobs'"
  shows "jobs_ok queue jobs'"
proof -
  have "\<forall>job \<in> set jobs'. qj_queue job = queue"
    using assms(2) assms(1) unfolding jobs_ok_def
    by (induction rule: list_all2_induct) (auto dest: job_steps_same)
  then show ?thesis
    using assms advance_ids [OF assms(2)] by (simp add: jobs_ok_def)
qed

lemma set_by_priority [simp]: "set (by_priority jobs) = set jobs"
  by (simp add: by_priority_def)

lemma by_priority_ok: "jobs_ok queue (by_priority jobs) = jobs_ok queue jobs"
  by (simp add: jobs_ok_def by_priority_def distinct_map inj_on_def)

lemma by_priority_find: "jobs_ok queue jobs \<Longrightarrow> find_job i (by_priority jobs) = find_job i jobs"
proof -
  assume ok: "jobs_ok queue jobs"
  have same: "find_job i (by_priority jobs) = Some job \<longleftrightarrow> find_job i jobs = Some job" for job
    using ok by (simp add: find_job_iff [OF ok] find_job_iff [of queue "by_priority jobs"] by_priority_ok)
  then show ?thesis
    by (metis not_Some_eq)
qed

lemma job_line_by_priority [simp]: "job_line p (by_priority jobs) = job_line p jobs"
  using sort_key_stable [of "\<lambda>job. - qj_priority job" "- p" jobs] by (simp add: job_line_def by_priority_def)

lemma by_priority_later: "jobs_ok queue jobs \<Longrightarrow> jobs_later jobs (by_priority jobs)"
  by (auto simp: jobs_later_def by_priority_find)

text \<open>The first job with a property.\<close>

lemma update_first_cases:
  obtains (none) "\<And>x. x \<in> set xs \<Longrightarrow> \<not> P x" "update_first P f xs = (None, xs)"
  | (found) ys x zs where "xs = ys @ x # zs" "\<And>y. y \<in> set ys \<Longrightarrow> \<not> P y" "P x" "update_first P f xs = (Some (f x), ys @ f x # zs)"
proof (induction xs arbitrary: thesis)
  case (Cons a xs)
  show ?case
  proof (cases "P a")
    case True
    then show ?thesis
      using Cons.prems(2) [of "[]" a xs] by simp
  next
    case False
    show ?thesis
    proof (rule Cons.IH)
      assume "\<And>x. x \<in> set xs \<Longrightarrow> \<not> P x" "update_first P f xs = (None, xs)"
      then show ?thesis
        using Cons.prems(1) False by auto
    next
      fix ys x zs
      assume "xs = ys @ x # zs" "\<And>y. y \<in> set ys \<Longrightarrow> \<not> P y" "P x" "update_first P f xs = (Some (f x), ys @ f x # zs)"
      then show ?thesis
        using Cons.prems(2) [of "a # ys" x zs] False by auto
    qed
  qed
qed simp

lemma advance_refl: "list_all2 job_step\<^sup>*\<^sup>* jobs jobs"
  by (rule list_all2_refl) simp

lemma update_first_advance:
  "(\<And>x. x \<in> set xs \<Longrightarrow> P x \<Longrightarrow> job_step x (f x)) \<Longrightarrow> list_all2 job_step\<^sup>*\<^sup>* xs (snd (update_first P f xs))"
  by (induction xs) (auto simp: advance_refl split: prod.split)

lemma update_upto_advance:
  "(\<And>x. x \<in> set xs \<Longrightarrow> P x \<Longrightarrow> job_step x (f x)) \<Longrightarrow> list_all2 job_step\<^sup>*\<^sup>* xs (snd (update_upto n P f xs))"
  by (induction n P f xs rule: update_upto.induct) (auto simp: advance_refl split: prod.splits)

lemma release_advance: "list_all2 job_step\<^sup>*\<^sup>* jobs (map (release_job now) jobs)"
proof (induction jobs)
  case (Cons job jobs)
  have "job_step\<^sup>*\<^sup>* job (release_job now job)"
  proof (cases "lease_expired now job")
    case True
    then show ?thesis
      using released by blast
  qed (simp add: release_job_def)
  with Cons show ?case
    by simp
qed simp

text \<open>The job that is looked up is the one that is updated.\<close>

lemma update_first_find:
  "find_job i jobs = Some job \<Longrightarrow> fst (update_first (\<lambda>job. qj_id job = i) f jobs) = Some (f job)"
  unfolding find_job_def by (induction jobs) (auto split: prod.splits if_splits)

lemma find_update_first:
  assumes "\<And>job. qj_id (f job) = qj_id job"
  shows "find_job k (snd (update_first (\<lambda>job. qj_id job = i) f jobs)) =
    (if k = i then map_option f (find_job i jobs) else find_job k jobs)"
  unfolding find_job_def by (induction jobs) (auto simp: assms split: prod.splits if_splits)

section \<open>The invariant\<close>

definition queues_ok :: "('f, 'w) memory_engine \<Rightarrow> bool" where
  "queues_ok e \<longleftrightarrow> bm_ok (me_queues e) \<and> (\<forall>queue. jobs_ok queue (queue_jobs queue e))"

definition queues_later :: "('f, 'w) memory_engine \<Rightarrow> ('f, 'w) memory_engine \<Rightarrow> bool" where
  "queues_later e e' \<longleftrightarrow> (\<forall>queue. jobs_later (queue_jobs queue e) (queue_jobs queue e'))"

abbreviation progress :: "('f, 'w) memory_engine \<Rightarrow> ('f, 'w) memory_engine \<Rightarrow> bool" where
  "progress e e' \<equiv> queues_ok e' \<and> queues_later e e'"

lemma queues_later_refl: "queues_later e e"
  by (simp add: queues_later_def jobs_later_refl)

lemma queues_later_trans: "queues_later a b \<Longrightarrow> queues_later b c \<Longrightarrow> queues_later a c"
  unfolding queues_later_def using jobs_later_trans by blast

lemma queues_ok_new: "queues_ok new_engine"
  by (simp add: queues_ok_def new_engine_def queue_jobs_def jobs_ok_def)

lemma queue_jobs_insert [simp]:
  "queue_jobs q (e\<lparr>me_queues := bm_insert queue jobs (me_queues e)\<rparr>) = (if q = queue then jobs else queue_jobs q e)"
  by (simp add: queue_jobs_def)

lemma queue_jobs_get: "bm_get (me_queues e) queue = Some jobs \<Longrightarrow> queue_jobs queue e = jobs"
  by (simp add: queue_jobs_def)

lemma progress_insert:
  assumes "queues_ok e" "jobs_ok queue jobs" "jobs_later (queue_jobs queue e) jobs"
  shows "progress e (e\<lparr>me_queues := bm_insert queue jobs (me_queues e)\<rparr>)"
  using assms by (auto simp: queues_ok_def queues_later_def jobs_later_refl)

lemma progress_advance:
  assumes "queues_ok e" "list_all2 job_step\<^sup>*\<^sup>* (queue_jobs queue e) jobs"
  shows "progress e (e\<lparr>me_queues := bm_insert queue jobs (me_queues e)\<rparr>)"
  using assms advance_ok advance_later progress_insert unfolding queues_ok_def by blast

section \<open>Each operation\<close>

lemma progress_push:
  assumes ok: "queues_ok e"
  shows "progress e (snd (push_job job e))"
proof (cases "find_job (qj_id job) (queue_jobs (qj_queue job) e)")
  case None
  then have new: "qj_id job \<notin> qj_id ` set (queue_jobs (qj_queue job) e)"
    by (simp add: find_job_None_iff)
  have "jobs_ok (qj_queue job) (queue_jobs (qj_queue job) e @ [job])"
    using ok new by (simp add: queues_ok_def jobs_ok_def)
  moreover have "jobs_later jobs (jobs @ [job])" for jobs
    by (auto simp: jobs_later_def job_line_def find_job_def find_Some_iff nth_append)
  ultimately show ?thesis
    using progress_insert [OF ok] None by (simp add: push_job_def find_job_def)
next
  case (Some existing)
  then show ?thesis
    using ok by (simp add: push_job_def find_job_def queues_later_refl)
qed

lemma progress_release: "queues_ok e \<Longrightarrow> progress e (release_expired_leases now queue e)"
  using progress_advance [of e queue "map (release_job now) (queue_jobs queue e)"] release_advance
  by (auto simp: release_expired_leases_def queue_jobs_get queues_later_refl split: option.split)

lemma progress_sorted:
  assumes ok: "queues_ok e" and adv: "list_all2 job_step\<^sup>*\<^sup>* (by_priority (queue_jobs queue e)) jobs"
  shows "progress e (e\<lparr>me_queues := bm_insert queue jobs (me_queues e)\<rparr>)"
proof (rule progress_insert [OF ok])
  have jobs: "jobs_ok queue (queue_jobs queue e)"
    using ok by (simp add: queues_ok_def)
  then show "jobs_ok queue jobs"
    using advance_ok [OF _ adv] by_priority_ok by blast
  show "jobs_later (queue_jobs queue e) jobs"
    by (rule jobs_later_trans [OF by_priority_later [OF jobs] advance_later [OF adv]])
qed

lemma progress_trans: "progress a b \<Longrightarrow> (queues_ok b \<Longrightarrow> progress b c) \<Longrightarrow> progress a c"
  using queues_later_trans by blast

lemma progress_claim:
  assumes "queues_ok e"
  shows "progress e (snd (claim_job_with_options now0 now queue lease_ms e))"
proof -
  let ?e = "release_expired_leases now0 queue e"
  let ?f = "\<lambda>job. lease_job lease_ms now (qj_attempts job + 1) job"
  have "progress ?e (snd (claim_job_with_options now0 now queue lease_ms e))" if ok: "queues_ok ?e"
  proof (cases "bm_get (me_queues ?e) queue")
    case (Some jobs)
    obtain found jobs' where u: "update_first (claimable now) ?f (by_priority jobs) = (found, jobs')"
      by (cases "update_first (claimable now) ?f (by_priority jobs)")
    have "list_all2 job_step\<^sup>*\<^sup>* (by_priority (queue_jobs queue ?e)) jobs'"
      using update_first_advance [of "by_priority jobs" "claimable now" ?f] claimed u queue_jobs_get [OF Some] by simp
    then show ?thesis
      using progress_sorted [OF ok] Some u by (simp add: claim_job_with_options_def Let_def)
  qed (simp add: claim_job_with_options_def ok queues_later_refl)
  with progress_release [OF assms] show ?thesis
    by (rule progress_trans)
qed

lemma progress_claims:
  assumes "queues_ok e"
  shows "progress e (snd (claim_jobs_with_options now0 now queue lease_ms limit e))"
proof (cases "limit > MAX_QUEUE_BATCH_ITEMS \<or> limit = 0")
  case False
  let ?e = "release_expired_leases now0 queue e"
  let ?f = "\<lambda>job. lease_job lease_ms now (u32_sat_succ (qj_attempts job)) job"
  have "progress ?e (snd (claim_jobs_with_options now0 now queue lease_ms limit e))" if ok: "queues_ok ?e"
  proof (cases "bm_get (me_queues ?e) queue")
    case (Some jobs)
    obtain found jobs' where u: "update_upto limit (claimable now) ?f (by_priority jobs) = (found, jobs')"
      by (cases "update_upto limit (claimable now) ?f (by_priority jobs)")
    have "list_all2 job_step\<^sup>*\<^sup>* (by_priority (queue_jobs queue ?e)) jobs'"
      using update_upto_advance [of "by_priority jobs" "claimable now" ?f limit] claimed u queue_jobs_get [OF Some] by simp
    then show ?thesis
      using progress_sorted [OF ok] Some u False by (simp add: claim_jobs_with_options_def Let_def)
  qed (use False in \<open>simp add: claim_jobs_with_options_def ok queues_later_refl\<close>)
  with progress_release [OF assms] show ?thesis
    by (rule progress_trans)
qed (auto simp: claim_jobs_with_options_def assms queues_later_refl)

lemma replace_job_progress:
  assumes ok: "queues_ok e" and job: "find_job i (queue_jobs queue e) = Some job" "job_step job (f job)"
  shows "progress e (replace_job queue i f e)"
proof -
  have "jobs_ok queue (queue_jobs queue e)"
    using ok by (simp add: queues_ok_def)
  then have only: "x = job" if "x \<in> set (queue_jobs queue e)" "qj_id x = i" for x
    using that job(1) find_job_iff by (metis option.inject)
  have "list_all2 job_step\<^sup>*\<^sup>* (queue_jobs queue e) (snd (update_first (\<lambda>job. qj_id job = i) f (queue_jobs queue e)))"
    using only job(2) by (intro update_first_advance) blast
  then show ?thesis
    using progress_advance [OF ok] by (simp add: replace_job_def)
qed

lemma progress_ack:
  assumes ok: "queues_ok e"
  shows "progress e (snd (ack_job now queue i e))"
  using replace_job_progress [OF ok, of i queue _ "complete_job now"] completed ok
  by (auto simp: ack_job_def queues_later_refl split: option.split)

lemma progress_nack:
  assumes ok: "queues_ok e"
  shows "progress e (snd (nack_job_with_options now queue i options e))"
  using replace_job_progress [OF ok, of i queue _ "reject_job now options"] rejected ok
  by (auto simp: nack_job_with_options_def queues_later_refl split: option.split)

lemma check_leased_Ok:
  "check_leased queue jobs ids = Ok () \<longleftrightarrow> (\<forall>i \<in> set ids. \<exists>job. find_job i jobs = Some job \<and> qj_status job = Leased)"
  by (induction ids) (auto split: option.splits)

text \<open>Completing several jobs: each is found leased, whatever was completed before it.\<close>

lemma complete_job_id [simp]: "qj_id (complete_job now job) = qj_id job"
  by (simp add: complete_job_def)

lemma complete_jobs_effect:
  assumes "distinct ids" "\<forall>i \<in> set ids. \<exists>job. find_job i jobs = Some job \<and> qj_status job = Leased" "jobs_ok queue jobs"
  shows "list_all2 job_step\<^sup>*\<^sup>* jobs (snd (complete_jobs now ids jobs))
    \<and> fst (complete_jobs now ids jobs) = map (\<lambda>i. complete_job now (the (find_job i jobs))) ids
    \<and> (\<forall>k. find_job k (snd (complete_jobs now ids jobs)) =
         (if k \<in> set ids then map_option (complete_job now) (find_job k jobs) else find_job k jobs))"
  using assms
proof (induction ids arbitrary: jobs)
  case (Cons i ids)
  obtain job where job: "find_job i jobs = Some job" "qj_status job = Leased"
    using Cons.prems(2) by auto
  have only: "x = job" if "x \<in> set jobs" "qj_id x = i" for x
    using that job(1) find_job_iff [OF Cons.prems(3)] by (metis option.inject)
  obtain jobs1 where u: "update_first (\<lambda>job. qj_id job = i) (complete_job now) jobs = (Some (complete_job now job), jobs1)"
    using update_first_find [OF job(1), of "complete_job now"] by (metis prod.collapse)
  have adv: "list_all2 job_step\<^sup>*\<^sup>* jobs jobs1"
    using update_first_advance [of jobs "\<lambda>job. qj_id job = i" "complete_job now"] u completed [OF job(2)] only by fastforce
  have find1: "find_job k jobs1 = (if k = i then Some (complete_job now job) else find_job k jobs)" for k
    using find_update_first [of "complete_job now" k i jobs] u job(1) by simp
  have "list_all2 job_step\<^sup>*\<^sup>* jobs1 (snd (complete_jobs now ids jobs1))
    \<and> fst (complete_jobs now ids jobs1) = map (\<lambda>i. complete_job now (the (find_job i jobs1))) ids
    \<and> (\<forall>k. find_job k (snd (complete_jobs now ids jobs1)) =
         (if k \<in> set ids then map_option (complete_job now) (find_job k jobs1) else find_job k jobs1))"
    using Cons.prems find1 by (intro Cons.IH advance_ok [OF Cons.prems(3) adv]) auto
  moreover obtain found jobs2 where "complete_jobs now ids jobs1 = (found, jobs2)"
    by (cases "complete_jobs now ids jobs1")
  moreover have "list_all2 job_step\<^sup>*\<^sup>* jobs jobs2" if "list_all2 job_step\<^sup>*\<^sup>* jobs1 jobs2"
    by (rule list_all2_trans [OF _ adv that]) (rule rtranclp_trans)
  ultimately show ?case
    using Cons.prems(1) u job(1) find1 by auto
qed (simp add: advance_refl)

lemma ack_jobs_cases:
  assumes ok: "queues_ok e"
  obtains (rejected) err where "ack_jobs now queue ids e = (Err err, e)"
  | (acked) jobs where
      "length ids \<le> MAX_QUEUE_BATCH_ITEMS" "distinct ids"
      "\<And>i. i \<in> set ids \<Longrightarrow> \<exists>job. find_job i (queue_jobs queue e) = Some job \<and> qj_status job = Leased"
      "list_all2 job_step\<^sup>*\<^sup>* (queue_jobs queue e) jobs"
      "\<And>k. find_job k jobs = (if k \<in> set ids then map_option (complete_job now) (find_job k (queue_jobs queue e))
         else find_job k (queue_jobs queue e))"
      "ack_jobs now queue ids e = (Ok (map (\<lambda>i. complete_job now (the (find_job i (queue_jobs queue e)))) ids),
         if ids = [] then e else e\<lparr>me_queues := bm_insert queue jobs (me_queues e)\<rparr>)"
proof (cases "length ids > MAX_QUEUE_BATCH_ITEMS \<or> \<not> distinct ids")
  case True
  then have "\<exists>err. ack_jobs now queue ids e = (Err err, e)"
    by (auto simp: ack_jobs_def)
  then show ?thesis
    using rejected by blast
next
  case False
  show ?thesis
  proof (cases "ids = []")
    case True
    then show ?thesis
      using acked [of "queue_jobs queue e"] by (simp add: ack_jobs_def advance_refl)
  next
    case ne: False
    show ?thesis
    proof (cases "bm_get (me_queues e) queue")
      case None
      then have "\<exists>err. ack_jobs now queue ids e = (Err err, e)"
        using False ne by (simp add: ack_jobs_def)
      then show ?thesis
        using rejected by blast
    next
      case (Some jobs)
      note jobs = queue_jobs_get [OF Some]
      show ?thesis
      proof (cases "check_leased queue jobs ids")
        case (Inl err)
        then have "ack_jobs now queue ids e = (Err err, e)"
          using False ne Some by (simp add: ack_jobs_def)
        then show ?thesis
          using rejected by blast
      next
        case (Inr u)
        then have leased: "\<forall>i \<in> set ids. \<exists>job. find_job i jobs = Some job \<and> qj_status job = Leased"
          using check_leased_Ok by simp
        have "jobs_ok queue jobs"
          using ok jobs by (auto simp: queues_ok_def)
        with leased False have eff: "list_all2 job_step\<^sup>*\<^sup>* jobs (snd (complete_jobs now ids jobs))
            \<and> fst (complete_jobs now ids jobs) = map (\<lambda>i. complete_job now (the (find_job i jobs))) ids
            \<and> (\<forall>k. find_job k (snd (complete_jobs now ids jobs)) =
               (if k \<in> set ids then map_option (complete_job now) (find_job k jobs) else find_job k jobs))"
          by (intro complete_jobs_effect) auto
        have "ack_jobs now queue ids e =
            (Ok (fst (complete_jobs now ids jobs)), e\<lparr>me_queues := bm_insert queue (snd (complete_jobs now ids jobs)) (me_queues e)\<rparr>)"
          using False ne Some Inr by (simp add: ack_jobs_def split: prod.split)
        with eff leased False ne show ?thesis
          by (intro acked [of "snd (complete_jobs now ids jobs)", unfolded jobs]) auto
      qed
    qed
  qed
qed

lemma progress_acks:
  assumes ok: "queues_ok e"
  shows "progress e (snd (ack_jobs now queue ids e))"
  using ok
proof (cases rule: ack_jobs_cases [where now = now and queue = queue and ids = ids])
  case (acked jobs)
  then show ?thesis
    using progress_advance [OF ok acked(4)] ok by (simp add: queues_later_refl)
qed (simp add: ok queues_later_refl)

lemma progress_claim_and_ack:
  assumes ok: "queues_ok e"
  shows "progress e (snd (claim_and_ack now0 now now' queue lease_ms e))"
proof (cases "claim_job_with_options now0 now queue lease_ms e")
  case (Pair r e1)
  then have "progress e e1"
    using progress_claim [OF ok, of now0 now queue lease_ms] by simp
  then have "progress e (snd (claim_and_ack now0 now now' queue lease_ms e))" if "r = Ok (Some job)" for job
    using that Pair progress_trans [OF _ progress_ack] by (simp add: claim_and_ack_def)
  then show ?thesis
    using \<open>progress e e1\<close> Pair by (cases r) (auto simp: claim_and_ack_def st_then_def split: option.splits)
qed

lemma progress_claim_and_ack_batch:
  "queues_ok e \<Longrightarrow> progress e (snd (claim_and_ack_batch rounds queue lease_ms e))"
proof (induction rounds arbitrary: e)
  case (Cons r rounds)
  obtain now0 now now' where r: "r = (now0, now, now')"
    by (cases r)
  obtain res e1 where c: "claim_and_ack now0 now now' queue lease_ms e = (res, e1)"
    by (cases "claim_and_ack now0 now now' queue lease_ms e")
  have p: "progress e e1"
    using progress_claim_and_ack [OF Cons.prems, of now0 now now' queue lease_ms] c by simp
  then have q: "progress e (snd (claim_and_ack_batch rounds queue lease_ms e1))"
    using progress_trans Cons.IH by blast
  then show ?case
    using p c by (auto simp: r st_then_def split: sum.split option.split prod.split)
qed (simp add: queues_later_refl)

section \<open>Sequences of calls\<close>

datatype queue_call =
  PushJob queue_job | PushJobs "queue_job list" | ClaimJob int int string u64 | ClaimJobs int int string u64 nat
| AckJob int string string | AckJobs int string "string list" | NackJob int string string queue_nack_options
| ClaimAndAck int int int string u64 | ClaimAndAckBatch "(int \<times> int \<times> int) list" string u64

fun queue_step :: "queue_call \<Rightarrow> ('f, 'w) memory_engine \<Rightarrow> ('f, 'w) memory_engine" where
  "queue_step (PushJob job) e = snd (push_job job e)"
| "queue_step (PushJobs jobs) e = snd (push_jobs_batch jobs e)"
| "queue_step (ClaimJob now0 now queue lease_ms) e = snd (claim_job_with_options now0 now queue lease_ms e)"
| "queue_step (ClaimJobs now0 now queue lease_ms limit) e = snd (claim_jobs_with_options now0 now queue lease_ms limit e)"
| "queue_step (AckJob now queue i) e = snd (ack_job now queue i e)"
| "queue_step (AckJobs now queue ids) e = snd (ack_jobs now queue ids e)"
| "queue_step (NackJob now queue i options) e = snd (nack_job_with_options now queue i options e)"
| "queue_step (ClaimAndAck now0 now now' queue lease_ms) e = snd (claim_and_ack now0 now now' queue lease_ms e)"
| "queue_step (ClaimAndAckBatch rounds queue lease_ms) e = snd (claim_and_ack_batch rounds queue lease_ms e)"

lemma progress_pushes: "queues_ok e \<Longrightarrow> progress e (snd (push_jobs_batch jobs e))"
proof (induction jobs arbitrary: e)
  case (Cons job jobs)
  obtain res e1 where c: "push_job job e = (res, e1)"
    by (cases "push_job job e")
  have p: "progress e e1"
    using progress_push [OF Cons.prems, of job] c by simp
  then have q: "progress e (snd (push_jobs_batch jobs e1))"
    using progress_trans Cons.IH by blast
  then show ?case
    using p c by (auto simp: st_then_def split: sum.split prod.split)
qed (simp add: queues_later_refl)

lemmas progress_rules = progress_push progress_pushes progress_claim progress_claims progress_ack progress_acks progress_nack
  progress_claim_and_ack progress_claim_and_ack_batch

lemma progress_step: "queues_ok e \<Longrightarrow> progress e (queue_step c e)"
  by (cases c) (simp_all add: progress_rules)

interpretation ql: call_system queue_step "\<lambda>c. 0" "\<lambda>n. queues_ok" queues_later
  by unfold_locales (auto simp: progress_step queues_later_refl intro: queues_later_trans)

text \<open>The states the queue calls reach.\<close>

lemma queues_reachable: "queues_ok (run_calls queue_step cs new_engine)"
  using ql.run_inv queues_ok_new by blast

lemma queues_run_later: "queues_ok e \<Longrightarrow> queues_later e (run_calls queue_step cs e)"
  using ql.run_later by blast

end
