(* ===== verification/Queue_Properties.thy ===== *)
theory Queue_Properties
  imports Queue_Lifecycle
begin

text \<open>
  What the queues promise their users: how jobs move, who gets a job, for how long, and that it is
  completed once.
\<close>

section \<open>The effect of a claim\<close>

lemma release_job_id [simp]: "qj_id (release_job now job) = qj_id job" "qj_priority (release_job now job) = qj_priority job"
  by (simp_all add: release_job_def)

lemma find_job_id: "find_job i jobs = Some job \<Longrightarrow> qj_id job = i"
  by (auto simp: find_job_def find_Some_iff)

lemma find_job_map: "(\<And>job. qj_id (f job) = qj_id job) \<Longrightarrow> find_job i (map f jobs) = map_option f (find_job i jobs)"
  unfolding find_job_def by (induction jobs) auto

lemma queue_jobs_release:
  "queue_jobs q (release_expired_leases now queue e) = (if q = queue then map (release_job now) (queue_jobs q e) else queue_jobs q e)"
  by (simp add: release_expired_leases_def queue_jobs_def split: option.split)

lemma lease_job_id [simp]: "qj_id (lease_job lease_ms now n job) = qj_id job"
  by (simp add: lease_job_def)

text \<open>The head of a stably sorted list: no element has a smaller key, and none before it an equal one.\<close>

lemma hd_insort_key: "hd (insort_key f a xs) = (if xs = [] \<or> f a \<le> f (hd xs) then a else hd xs)"
  by (cases xs) simp_all

lemma hd_sort_key:
  assumes "xs \<noteq> []"
  obtains ys zs where "xs = ys @ hd (sort_key f xs) # zs" "\<And>y. y \<in> set ys \<Longrightarrow> f (hd (sort_key f xs)) < f y"
    "\<And>z. z \<in> set zs \<Longrightarrow> f (hd (sort_key f xs)) \<le> f z"
  using assms
proof (induction xs arbitrary: thesis)
  case (Cons a xs)
  show ?case
  proof (cases "xs = []")
    case True
    then show ?thesis
      using Cons.prems(1) [of "[]" "[]"] by simp
  next
    case False
    let ?h = "hd (sort_key f xs)"
    obtain ys zs where xs: "xs = ys @ ?h # zs" "\<And>y. y \<in> set ys \<Longrightarrow> f ?h < f y" "\<And>z. z \<in> set zs \<Longrightarrow> f ?h \<le> f z"
      using Cons.IH [OF _ False] by blast
    have ne: "sort_key f xs \<noteq> []"
      using False by (metis length_0_conv length_sort)
    show ?thesis
    proof (cases "f a \<le> f ?h")
      case True
      then have "f a \<le> f z" if "z \<in> set xs" for z
        using that xs(2,3) [of z] xs(1) by (metis Un_iff less_imp_le order_trans set_ConsD set_append)
      then show ?thesis
        using Cons.prems(1) [of "[]" xs] True by (simp add: hd_insort_key)
    next
      case False
      then show ?thesis
        using Cons.prems(1) [of "a # ys" zs] xs ne by (simp add: hd_insort_key) (metis not_le)
    qed
  qed
qed simp

lemma update_first_filter:
  "fst (update_first P f xs) = (case filter P xs of [] \<Rightarrow> None | x # _ \<Rightarrow> Some (f x))"
  by (induction xs) (auto split: prod.split list.split)

text \<open>The jobs a claim chooses from.\<close>

definition available :: "int \<Rightarrow> int \<Rightarrow> string \<Rightarrow> ('f, 'w) memory_engine \<Rightarrow> queue_job list" where
  "available now0 now queue e = filter (claimable now) (map (release_job now0) (queue_jobs queue e))"

lemma claim_jobs_release:
  "claim_job_with_options now0 now queue lease_ms e =
     (case update_first (claimable now) (\<lambda>job. lease_job lease_ms now (qj_attempts job + 1) job)
        (by_priority (map (release_job now0) (queue_jobs queue e))) of
      (found, jobs) \<Rightarrow> (Ok found, if bm_get (me_queues e) queue = None then e else
         (release_expired_leases now0 queue e)\<lparr>me_queues := bm_insert queue jobs (me_queues (release_expired_leases now0 queue e))\<rparr>))"
proof (cases "bm_get (me_queues e) queue")
  case None
  then show ?thesis
    by (simp add: claim_job_with_options_def release_expired_leases_def queue_jobs_def by_priority_def)
next
  case (Some jobs)
  then have "bm_get (me_queues (release_expired_leases now0 queue e)) queue = Some (map (release_job now0) jobs)"
    by (simp add: release_expired_leases_def)
  then show ?thesis
    using Some by (simp add: claim_job_with_options_def queue_jobs_def Let_def)
qed

lemma claim_result:
  "fst (claim_job_with_options now0 now queue lease_ms e) =
     Ok (case by_priority (available now0 now queue e) of [] \<Rightarrow> None
       | job # _ \<Rightarrow> Some (lease_job lease_ms now (qj_attempts job + 1) job))"
proof -
  let ?u = "update_first (claimable now) (\<lambda>job. lease_job lease_ms now (qj_attempts job + 1) job)
        (by_priority (map (release_job now0) (queue_jobs queue e)))"
  have "filter (claimable now) (by_priority (map (release_job now0) (queue_jobs queue e))) = by_priority (available now0 now queue e)"
    by (simp add: by_priority_def available_def filter_sort)
  then show ?thesis
    using update_first_filter [of "claimable now" "\<lambda>job. lease_job lease_ms now (qj_attempts job + 1) job"
        "by_priority (map (release_job now0) (queue_jobs queue e))"]
    by (cases ?u) (simp add: claim_jobs_release)
qed

text \<open>The job a claim returns is in the queue, leased.\<close>

lemma update_first_mem:
  "x \<in> set xs \<Longrightarrow> \<not> P x \<Longrightarrow> x \<in> set (snd (update_first P f xs))"
  "fst (update_first P f xs) = Some y \<Longrightarrow> \<exists>z \<in> set xs. P z \<and> y = f z"
  by (induction xs) (auto split: prod.splits if_splits)

lemma update_first_found: "fst (update_first P f xs) = Some y \<Longrightarrow> y \<in> set (snd (update_first P f xs))"
  by (induction xs) (auto split: prod.splits if_splits)

lemma claimed_is_leased:
  assumes ok: "queues_ok e" and claim: "claim_job_with_options now0 now queue lease_ms e = (Ok (Some job), e')"
  shows "find_job (qj_id job) (queue_jobs queue e') = Some job"
    "\<exists>x \<in> set (available now0 now queue e). job = lease_job lease_ms now (qj_attempts x + 1) x"
proof -
  let ?f = "\<lambda>job. lease_job lease_ms now (qj_attempts job + 1) job"
  let ?xs = "by_priority (map (release_job now0) (queue_jobs queue e))"
  obtain jobs where u: "update_first (claimable now) ?f ?xs = (Some job, jobs)"
    and e': "e' = (if bm_get (me_queues e) queue = None then e else
         (release_expired_leases now0 queue e)\<lparr>me_queues := bm_insert queue jobs (me_queues (release_expired_leases now0 queue e))\<rparr>)"
    using claim by (auto simp: claim_jobs_release split: prod.splits)
  have x: "\<exists>x \<in> set ?xs. claimable now x \<and> job = ?f x"
    using update_first_mem(2) [of "claimable now" ?f ?xs job] u by simp
  then show "\<exists>x \<in> set (available now0 now queue e). job = ?f x"
    by (auto simp: available_def)
  have "bm_get (me_queues e) queue \<noteq> None"
    using x by (cases "bm_get (me_queues e) queue") (auto simp: queue_jobs_def)
  then have "queue_jobs queue e' = jobs"
    by (auto simp: e')
  moreover have "jobs_ok queue (queue_jobs queue e')"
    using progress_claim [OF ok, of now0 now queue lease_ms] claim by (simp add: queues_ok_def)
  ultimately show "find_job (qj_id job) (queue_jobs queue e') = Some job"
    using find_job_iff update_first_found [of "claimable now" ?f ?xs job] u by simp
qed

text \<open>A job that is not claimable stays as it is and is not returned.\<close>

lemma update_upto_mem:
  "x \<in> set xs \<Longrightarrow> \<not> P x \<Longrightarrow> x \<in> set (snd (update_upto n P f xs))"
  "y \<in> set (fst (update_upto n P f xs)) \<Longrightarrow> \<exists>z \<in> set xs. P z \<and> y = f z"
  by (induction n P f xs rule: update_upto.induct) (auto split: prod.splits if_splits)

definition unclaimable :: "int \<Rightarrow> int \<Rightarrow> queue_job \<Rightarrow> bool" where
  "unclaimable now0 now job \<longleftrightarrow> release_job now0 job = job \<and> \<not> claimable now job"

text \<open>The jobs of a claimed queue: some sorted and leased version of the released jobs.\<close>

lemma unclaimable_leases:
  assumes ok: "queues_ok e" and job: "find_job i (queue_jobs queue e) = Some job" "unclaimable now0 now job"
    and e': "queues_ok e'" "job \<in> set (by_priority (map (release_job now0) (queue_jobs queue e))) \<Longrightarrow> job \<in> set (queue_jobs queue e')"
    and y: "\<And>y. y \<in> Y \<Longrightarrow> \<exists>z \<in> set (by_priority (map (release_job now0) (queue_jobs queue e))). claimable now z \<and> qj_id y = qj_id z"
  shows "find_job i (queue_jobs queue e') = Some job" "\<forall>y \<in> Y. qj_id y \<noteq> i"
proof -
  have jobs: "jobs_ok queue (queue_jobs queue e)" "jobs_ok queue (queue_jobs queue e')"
    using ok e'(1) by (simp_all add: queues_ok_def)
  have mem: "job \<in> set (queue_jobs queue e)" "qj_id job = i"
    using job(1) find_job_iff [OF jobs(1)] by simp_all
  have "job \<in> set (by_priority (map (release_job now0) (queue_jobs queue e)))"
    using mem job(2) by (force simp: unclaimable_def)
  then show "find_job i (queue_jobs queue e') = Some job"
    using e'(2) find_job_iff [OF jobs(2)] mem by simp
  show "\<forall>y \<in> Y. qj_id y \<noteq> i"
  proof (intro ballI notI)
    fix y
    assume yY: "y \<in> Y"
    assume i: "qj_id y = i"
    obtain w where w: "w \<in> set (queue_jobs queue e)" "claimable now (release_job now0 w)" "qj_id y = qj_id (release_job now0 w)"
      using y [OF yY] by auto
    then have "w = job"
      using i mem jobs(1) find_job_iff [OF jobs(1), of i] by (metis option.inject release_job_id(1))
    then show False
      using w(2) job(2) by (simp add: unclaimable_def)
  qed
qed

lemma claim_other:
  assumes ok: "queues_ok e" and job: "find_job i (queue_jobs queue e) = Some job" "unclaimable now0 now job"
    and claim: "claim_job_with_options now0 now queue lease_ms e = (Ok r, e')"
  shows "find_job i (queue_jobs queue e') = Some job" "r = Some y \<Longrightarrow> qj_id y \<noteq> i"
proof -
  let ?f = "\<lambda>job. lease_job lease_ms now (qj_attempts job + 1) job"
  let ?xs = "by_priority (map (release_job now0) (queue_jobs queue e))"
  obtain jobs where u: "update_first (claimable now) ?f ?xs = (r, jobs)"
    using claim by (auto simp: claim_jobs_release split: prod.splits)
  have e': "queue_jobs queue e' = jobs"
    using claim job u
    by (auto simp: claim_jobs_release queue_jobs_def find_job_def split: if_splits option.splits)
  have ok': "queues_ok e'"
    using progress_claim [OF ok, of now0 now queue lease_ms] claim by simp
  have mem: "job \<in> set (queue_jobs queue e')" if "job \<in> set ?xs"
    using update_first_mem(1) [of job ?xs "claimable now" ?f] that job(2) u e' by (simp add: unclaimable_def)
  have yz: "\<exists>z \<in> set ?xs. claimable now z \<and> qj_id y = qj_id z" if "y \<in> set_option r" for y
    using update_first_mem(2) [of "claimable now" ?f ?xs y] that u by auto
  show "find_job i (queue_jobs queue e') = Some job"
    by (rule unclaimable_leases(1) [OF ok job ok' mem yz])
  have "\<forall>y \<in> set_option r. qj_id y \<noteq> i"
    by (rule unclaimable_leases(2) [OF ok job ok' mem yz])
  then show "r = Some y \<Longrightarrow> qj_id y \<noteq> i"
    by simp
qed

lemma claims_other:
  assumes ok: "queues_ok e" and job: "find_job i (queue_jobs queue e) = Some job" "unclaimable now0 now job"
    and claim: "claim_jobs_with_options now0 now queue lease_ms limit e = (Ok r, e')"
  shows "find_job i (queue_jobs queue e') = Some job" "y \<in> set r \<Longrightarrow> qj_id y \<noteq> i"
proof -
  let ?f = "\<lambda>job. lease_job lease_ms now (u32_sat_succ (qj_attempts job)) job"
  let ?xs = "by_priority (map (release_job now0) (queue_jobs queue e))"
  obtain old where old: "bm_get (me_queues e) queue = Some old"
    using job(1) by (auto simp: queue_jobs_def find_job_def split: option.splits)
  have rel: "bm_get (me_queues (release_expired_leases now0 queue e)) queue = Some (map (release_job now0) (queue_jobs queue e))"
    using old by (simp add: release_expired_leases_def queue_jobs_def)
  have cases: "limit = 0 \<and> r = [] \<and> e' = e \<or>
      limit \<noteq> 0 \<and> (\<exists>jobs. update_upto limit (claimable now) ?f ?xs = (r, jobs) \<and> queue_jobs queue e' = jobs)"
    using claim rel by (auto simp: claim_jobs_with_options_def Let_def split: if_splits prod.splits)
  have ok': "queues_ok e'"
    using progress_claims [OF ok, of now0 now queue lease_ms limit] claim by simp
  have found: "find_job i (queue_jobs queue e') = Some job" "y \<in> set r \<Longrightarrow> qj_id y \<noteq> i"
    if u: "update_upto limit (claimable now) ?f ?xs = (r, jobs)" "queue_jobs queue e' = jobs" for jobs
  proof -
    have mem: "job \<in> set (queue_jobs queue e')" if "job \<in> set ?xs"
      using update_upto_mem(1) [of job ?xs "claimable now" limit ?f] that job(2) u by (simp add: unclaimable_def)
    have yz: "\<exists>z \<in> set ?xs. claimable now z \<and> qj_id y = qj_id z" if "y \<in> set r" for y
      using update_upto_mem(2) [of y limit "claimable now" ?f ?xs] that u by auto
    show "find_job i (queue_jobs queue e') = Some job"
      by (rule unclaimable_leases(1) [OF ok job ok' mem yz])
    have "\<forall>y \<in> set r. qj_id y \<noteq> i"
      by (rule unclaimable_leases(2) [OF ok job ok' mem yz])
    then show "y \<in> set r \<Longrightarrow> qj_id y \<noteq> i"
      by blast
  qed
  show "find_job i (queue_jobs queue e') = Some job"
    using cases found(1) job(1) by blast
  show "y \<in> set r \<Longrightarrow> qj_id y \<noteq> i"
    using cases found(2) by auto
qed

section \<open>Completions\<close>

text \<open>The jobs a call has acknowledged, and a sequence of calls.\<close>

fun acked :: "queue_call \<Rightarrow> ('f, 'w) memory_engine \<Rightarrow> (string \<times> string) list" where
  "acked (AckJob now queue i) e =
     (case fst (ack_job now queue i e) of Inr (Some job) \<Rightarrow> [(queue, qj_id job)] | _ \<Rightarrow> [])"
| "acked (AckJobs now queue ids) e =
     (case fst (ack_jobs now queue ids e) of Inr jobs \<Rightarrow> map (\<lambda>job. (queue, qj_id job)) jobs | _ \<Rightarrow> [])"
| "acked (ClaimAndAck now0 now now' queue lease_ms) e =
     (case fst (claim_and_ack now0 now now' queue lease_ms e) of Inr (Some job) \<Rightarrow> [(queue, qj_id job)] | _ \<Rightarrow> [])"
| "acked (ClaimAndAckBatch rounds queue lease_ms) e =
     (case fst (claim_and_ack_batch rounds queue lease_ms e) of Inr jobs \<Rightarrow> map (\<lambda>job. (queue, qj_id job)) jobs | _ \<Rightarrow> [])"
| "acked _ e = []"

fun acknowledged :: "queue_call list \<Rightarrow> ('f, 'w) memory_engine \<Rightarrow> (string \<times> string) list" where
  "acknowledged [] e = []"
| "acknowledged (c # cs) e = acked c e @ acknowledged cs (queue_step c e)"

definition is_completed :: "('f, 'w) memory_engine \<Rightarrow> string \<times> string \<Rightarrow> bool" where
  "is_completed e qi \<longleftrightarrow> (\<exists>job. find_job (snd qi) (queue_jobs (fst qi) e) = Some job \<and> qj_status job = Completed)"

lemma completed_later: "queues_later e e' \<Longrightarrow> is_completed e qi \<Longrightarrow> is_completed e' qi"
  unfolding queues_later_def jobs_later_def is_completed_def using terminal_stays terminal_def by metis

lemma ack_job_Some:
  assumes "ack_job now queue i e = (Ok (Some job'), e')"
  shows "qj_id job' = i" "\<not> is_completed e (queue, i)" "is_completed e' (queue, i)"
proof -
  obtain job where job: "find_job i (queue_jobs queue e) = Some job" "qj_status job = Leased" "job' = complete_job now job"
    "e' = replace_job queue i (complete_job now) e"
    using assms by (auto simp: ack_job_def split: option.splits if_splits)
  then show "qj_id job' = i" "\<not> is_completed e (queue, i)"
    by (simp_all add: is_completed_def find_job_id)
  show "is_completed e' (queue, i)"
    using job(1) by (simp add: job(4) is_completed_def replace_job_def find_update_first complete_job_def)
qed

lemma claim_and_ack_Some:
  assumes ok: "queues_ok e" and c: "claim_and_ack now0 now now' queue lease_ms e = (Ok (Some job'), e')"
  shows "\<not> is_completed e (queue, qj_id job')" "is_completed e' (queue, qj_id job')"
proof -
  obtain job e1 where c1: "claim_job_with_options now0 now queue lease_ms e = (Ok (Some job), e1)"
    and ack: "ack_job now' queue (qj_id job) e1 = (Ok (Some job'), e')"
    using c by (auto simp: claim_and_ack_def st_then_def split: sum.splits option.splits prod.splits)
  have "queues_later e e1"
    using progress_claim [OF ok, of now0 now queue lease_ms] c1 by simp
  then show "\<not> is_completed e (queue, qj_id job')" "is_completed e' (queue, qj_id job')"
    using ack_job_Some [OF ack] completed_later by auto
qed

lemma batch_acked:
  assumes "queues_ok e" "claim_and_ack_batch rounds queue lease_ms e = (Ok jobs, e')"
  shows "distinct (map (\<lambda>job. (queue, qj_id job)) jobs)
    \<and> (\<forall>job \<in> set jobs. \<not> is_completed e (queue, qj_id job) \<and> is_completed e' (queue, qj_id job))"
  using assms
proof (induction rounds arbitrary: e jobs)
  case (Cons r rounds)
  obtain now0 now now' where r: "r = (now0, now, now')"
    by (cases r)
  obtain res e1 where c: "claim_and_ack now0 now now' queue lease_ms e = (res, e1)"
    by (cases "claim_and_ack now0 now now' queue lease_ms e")
  have p: "progress e e1"
    using progress_claim_and_ack [OF Cons.prems(1), of now0 now now' queue lease_ms] c by simp
  consider "jobs = []" | job rest where "res = Ok (Some job)" "jobs = job # rest"
      "claim_and_ack_batch rounds queue lease_ms e1 = (Ok rest, e')"
    using Cons.prems(2) c by (auto simp: r st_then_def split: sum.splits option.splits prod.splits)
  then show ?case
  proof cases
    case (2 job rest)
    note rest = Cons.IH [OF conjunct1 [OF p] 2(3)]
    have job: "\<not> is_completed e (queue, qj_id job)" "is_completed e1 (queue, qj_id job)"
      using claim_and_ack_Some [OF Cons.prems(1)] c 2(1) by blast+
    have "queues_later e1 e'"
      using progress_claim_and_ack_batch [of e1 rounds queue lease_ms] p 2(3) by simp
    then have "is_completed e' (queue, qj_id job)"
      using job(2) completed_later by blast
    then show ?thesis
      using rest job p completed_later [of e e1] by (auto simp: 2(2))
  qed simp
qed simp

lemma acked_effect:
  assumes ok: "queues_ok e"
  shows "distinct (acked c e) \<and> (\<forall>qi \<in> set (acked c e). \<not> is_completed e qi \<and> is_completed (queue_step c e) qi)"
proof (cases c)
  case (AckJob now queue i)
  then show ?thesis
    using ack_job_Some [of now queue i e]
    by (cases "ack_job now queue i e") (auto split: sum.split option.split)
next
  case (AckJobs now queue ids)
  from ok show ?thesis
  proof (cases rule: ack_jobs_cases [where now = now and queue = queue and ids = ids])
    case (acked jobs)
    have ids: "qj_id (the (find_job i (queue_jobs queue e))) = i" if "i \<in> set ids" for i
      using acked(3) [OF that] by (auto simp: find_job_id)
    then have list: "Queue_Properties.acked c e = map (Pair queue) ids"
      by (simp add: AckJobs acked(6) o_def)
    have "\<not> is_completed e (queue, i)" "is_completed (queue_step c e) (queue, i)" if i: "i \<in> set ids" for i
    proof -
      obtain job where job: "find_job i (queue_jobs queue e) = Some job" "qj_status job = Leased"
        using acked(3) [OF i] by blast
      then show "\<not> is_completed e (queue, i)"
        by (simp add: is_completed_def)
      have "ids \<noteq> []"
        using i by auto
      then show "is_completed (queue_step c e) (queue, i)"
        using acked(5) [of i] i job by (simp add: AckJobs acked(6) is_completed_def complete_job_def)
    qed
    then show ?thesis
      using acked(2) by (auto simp: list distinct_map inj_on_def)
  qed (simp add: AckJobs)
next
  case (ClaimAndAck now0 now now' queue lease_ms)
  then show ?thesis
    using claim_and_ack_Some [OF ok, of now0 now now' queue lease_ms]
    by (cases "claim_and_ack now0 now now' queue lease_ms e") (auto split: sum.split option.split)
next
  case (ClaimAndAckBatch rounds queue lease_ms)
  then show ?thesis
    using batch_acked [OF ok, of rounds queue lease_ms]
    by (cases "claim_and_ack_batch rounds queue lease_ms e") (auto split: sum.split)
qed simp_all

lemma acknowledged_distinct:
  "queues_ok e \<Longrightarrow> distinct (acknowledged cs e) \<and> (\<forall>qi \<in> set (acknowledged cs e). \<not> is_completed e qi)"
proof (induction cs arbitrary: e)
  case (Cons c cs)
  have p: "progress e (queue_step c e)"
    by (rule progress_step [OF Cons.prems])
  note rest = Cons.IH [OF conjunct1 [OF p]] and first = acked_effect [OF Cons.prems, of c]
  then show ?case
    using completed_later [OF conjunct2 [OF p]] by auto
qed simp

section \<open>Leases\<close>

text \<open>The jobs a call has handed to a worker.\<close>

fun handed_out :: "queue_call \<Rightarrow> ('f, 'w) memory_engine \<Rightarrow> (string \<times> string) list" where
  "handed_out (ClaimJob now0 now queue lease_ms) e =
     (case fst (claim_job_with_options now0 now queue lease_ms e) of Inr (Some job) \<Rightarrow> [(queue, qj_id job)] | _ \<Rightarrow> [])"
| "handed_out (ClaimJobs now0 now queue lease_ms limit) e =
     (case fst (claim_jobs_with_options now0 now queue lease_ms limit e) of Inr jobs \<Rightarrow> map (\<lambda>job. (queue, qj_id job)) jobs | _ \<Rightarrow> [])"
| "handed_out (ClaimAndAck now0 now now' queue lease_ms) e =
     (case fst (claim_and_ack now0 now now' queue lease_ms e) of Inr (Some job) \<Rightarrow> [(queue, qj_id job)] | _ \<Rightarrow> [])"
| "handed_out (ClaimAndAckBatch rounds queue lease_ms) e =
     (case fst (claim_and_ack_batch rounds queue lease_ms e) of Inr jobs \<Rightarrow> map (\<lambda>job. (queue, qj_id job)) jobs | _ \<Rightarrow> [])"
| "handed_out _ e = []"

fun all_handed_out :: "queue_call list \<Rightarrow> ('f, 'w) memory_engine \<Rightarrow> (string \<times> string) list" where
  "all_handed_out [] e = []"
| "all_handed_out (c # cs) e = handed_out c e @ all_handed_out cs (queue_step c e)"

text \<open>A call within the lease: it releases expired leases before time \<open>t\<close>, and does not reject the job.\<close>

fun within_lease :: "int \<Rightarrow> string \<Rightarrow> string \<Rightarrow> queue_call \<Rightarrow> bool" where
  "within_lease t queue i (ClaimJob now0 now q lease_ms) \<longleftrightarrow> q = queue \<longrightarrow> now0 < t"
| "within_lease t queue i (ClaimJobs now0 now q lease_ms limit) \<longleftrightarrow> q = queue \<longrightarrow> now0 < t"
| "within_lease t queue i (ClaimAndAck now0 now now' q lease_ms) \<longleftrightarrow> q = queue \<longrightarrow> now0 < t"
| "within_lease t queue i (ClaimAndAckBatch rounds q lease_ms) \<longleftrightarrow> q = queue \<longrightarrow> (\<forall>(now0, now, now') \<in> set rounds. now0 < t)"
| "within_lease t queue i (NackJob now q j options) \<longleftrightarrow> \<not> (q = queue \<and> j = i)"
| "within_lease t queue i _ \<longleftrightarrow> True"

definition held_until :: "int \<Rightarrow> queue_job \<Rightarrow> bool" where
  "held_until t job \<longleftrightarrow> terminal job \<or> (qj_status job = Leased \<and> qj_lease_expires_at_ms job = Some t)"

definition held :: "int \<Rightarrow> string \<Rightarrow> string \<Rightarrow> ('f, 'w) memory_engine \<Rightarrow> bool" where
  "held t queue i e \<longleftrightarrow> (\<exists>job. find_job i (queue_jobs queue e) = Some job \<and> held_until t job)"

lemma held_unclaimable: "held_until t job \<Longrightarrow> now0 < t \<Longrightarrow> unclaimable now0 now job"
  by (auto simp: held_until_def unclaimable_def release_job_def lease_expired_def claimable_def terminal_def)

text \<open>Claims and acknowledgements of other queues leave a queue alone.\<close>

lemma queue_jobs_other:
  "q \<noteq> queue \<Longrightarrow> queue_jobs q (snd (claim_job_with_options now0 now queue lease_ms e)) = queue_jobs q e"
  "q \<noteq> queue \<Longrightarrow> queue_jobs q (snd (claim_jobs_with_options now0 now queue lease_ms limit e)) = queue_jobs q e"
  "q \<noteq> queue \<Longrightarrow> queue_jobs q (snd (ack_job now queue i e)) = queue_jobs q e"
  "q \<noteq> queue \<Longrightarrow> queue_jobs q (snd (nack_job_with_options now queue i options e)) = queue_jobs q e"
  "q \<noteq> queue \<Longrightarrow> queue_jobs q (snd (ack_jobs now queue ids e)) = queue_jobs q e"
  by (simp_all add: claim_jobs_release claim_jobs_with_options_def ack_job_def nack_job_with_options_def ack_jobs_def replace_job_def
      queue_jobs_release Let_def split: prod.split option.split sum.split)

lemma held_other: "queue_jobs queue e' = queue_jobs queue e \<Longrightarrow> held t queue i e' = held t queue i e"
  by (simp add: held_def)

lemma held_push: "held t queue i e \<Longrightarrow> held t queue i (snd (push_job job e))"
  by (auto simp: held_def push_job_def find_job_def find_Some_iff nth_append split: option.split)

lemma held_pushes: "held t queue i e \<Longrightarrow> held t queue i (snd (push_jobs_batch jobs e))"
proof (induction jobs arbitrary: e)
  case (Cons job jobs)
  obtain res e1 where c: "push_job job e = (res, e1)"
    by (cases "push_job job e")
  then have "held t queue i e1"
    using held_push [OF Cons.prems, of job] by simp
  then show ?case
    using Cons.IH [of e1] c by (auto simp: st_then_def split: sum.split prod.split)
qed simp

lemma held_complete: "held_until t job \<Longrightarrow> held_until t (complete_job now job)"
  by (simp add: held_until_def terminal_def complete_job_def)

lemma held_ack:
  assumes "held t queue i e"
  shows "held t queue i (snd (ack_job now q j e))"
proof (cases "q = queue \<and> (\<exists>job. find_job j (queue_jobs q e) = Some job \<and> qj_status job = Leased)")
  case True
  then show ?thesis
    using assms held_complete by (auto simp: held_def ack_job_def replace_job_def find_update_first)
next
  case False
  then have "queue_jobs queue (snd (ack_job now q j e)) = queue_jobs queue e"
    by (auto simp: ack_job_def replace_job_def split: option.split)
  then show ?thesis
    using assms held_other by blast
qed

lemma held_acks:
  assumes ok: "queues_ok e" and held: "held t queue i e"
  shows "held t queue i (snd (ack_jobs now q ids e))"
proof (cases "q = queue")
  case True
  from ok show ?thesis
  proof (cases rule: ack_jobs_cases [where now = now and queue = q and ids = ids])
    case (acked jobs)
    then show ?thesis
      using held held_complete acked(5) [of i] True by (auto simp: held_def)
  qed (simp add: held)
next
  case False
  then show ?thesis
    using held held_other queue_jobs_other(5) by metis
qed

lemma held_nack:
  assumes held: "held t queue i e" and other: "\<not> (q = queue \<and> j = i)"
  shows "held t queue i (snd (nack_job_with_options now q j options e))"
proof (cases "q = queue")
  case True
  have "qj_id (reject_job now options job) = qj_id job" for job
    by (simp add: reject_job_def Let_def)
  then show ?thesis
    using assms True by (auto simp: held_def nack_job_with_options_def replace_job_def find_update_first split: option.split)
next
  case False
  then show ?thesis
    using held held_other queue_jobs_other(4) by metis
qed

lemma held_claim:
  assumes ok: "queues_ok e" and held: "held t queue i e" and t: "q = queue \<longrightarrow> now0 < t"
  shows "held t queue i (snd (claim_job_with_options now0 now q lease_ms e))"
    "claim_job_with_options now0 now q lease_ms e = (Ok (Some y), e') \<Longrightarrow> (q, qj_id y) \<noteq> (queue, i)"
proof -
  obtain job where job: "find_job i (queue_jobs queue e) = Some job" "held_until t job"
    using held by (auto simp: held_def)
  obtain r e1 where c: "claim_job_with_options now0 now q lease_ms e = (Ok r, e1)"
    by (cases "claim_job_with_options now0 now q lease_ms e") (use claim_result [of now0 now q lease_ms e] in auto)
  have "held t queue i e1 \<and> (\<forall>y. r = Some y \<longrightarrow> qj_id y \<noteq> i)" if "q = queue"
    using claim_other [OF ok job(1) held_unclaimable [OF job(2)] c [unfolded that]] t that job(2) by (auto simp: held_def)
  moreover have "held t queue i e1" if "q \<noteq> queue"
    using queue_jobs_other(1) [of queue q now0 now lease_ms e] that held c by (auto simp: held_def)
  ultimately show "held t queue i (snd (claim_job_with_options now0 now q lease_ms e))"
    "claim_job_with_options now0 now q lease_ms e = (Ok (Some y), e') \<Longrightarrow> (q, qj_id y) \<noteq> (queue, i)"
    using c by auto
qed

lemma held_claims:
  assumes ok: "queues_ok e" and held: "held t queue i e" and t: "q = queue \<longrightarrow> now0 < t"
  shows "held t queue i (snd (claim_jobs_with_options now0 now q lease_ms limit e))"
    "claim_jobs_with_options now0 now q lease_ms limit e = (Ok ys, e') \<Longrightarrow> y \<in> set ys \<Longrightarrow> (q, qj_id y) \<noteq> (queue, i)"
proof -
  obtain job where job: "find_job i (queue_jobs queue e) = Some job" "held_until t job"
    using held by (auto simp: held_def)
  show "held t queue i (snd (claim_jobs_with_options now0 now q lease_ms limit e))"
  proof (cases "q = queue")
    case True
    obtain r e1 where c: "claim_jobs_with_options now0 now q lease_ms limit e = (r, e1)"
      by (cases "claim_jobs_with_options now0 now q lease_ms limit e")
    show ?thesis
    proof (cases r)
      case (Inl err)
      then have "e1 = e"
        using c by (auto simp: claim_jobs_with_options_def Let_def split: if_splits option.splits prod.splits)
      then show ?thesis
        using held c by simp
    next
      case (Inr ys)
      then show ?thesis
        using claims_other(1) [OF ok job(1) held_unclaimable [OF job(2)] c [unfolded Inr True]] t True job(2) c by (auto simp: held_def)
    qed
  next
    case False
    then show ?thesis
      using held held_other queue_jobs_other(2) by metis
  qed
  show "(q, qj_id y) \<noteq> (queue, i)" if "claim_jobs_with_options now0 now q lease_ms limit e = (Ok ys, e')" "y \<in> set ys"
    using claims_other(2) [OF ok job(1) held_unclaimable [OF job(2)], of now0 now lease_ms limit ys e' y] that t by auto
qed

lemma held_claim_and_ack:
  assumes ok: "queues_ok e" and held: "held t queue i e" and t: "q = queue \<longrightarrow> now0 < t"
  shows "held t queue i (snd (claim_and_ack now0 now now' q lease_ms e))"
    "claim_and_ack now0 now now' q lease_ms e = (Ok (Some y), e') \<Longrightarrow> (q, qj_id y) \<noteq> (queue, i)"
proof -
  obtain r e1 where c: "claim_job_with_options now0 now q lease_ms e = (Ok r, e1)"
    by (cases "claim_job_with_options now0 now q lease_ms e") (use claim_result [of now0 now q lease_ms e] in auto)
  have e1: "held t queue i e1"
    using held_claim(1) [OF assms, of now lease_ms] c by simp
  then show "held t queue i (snd (claim_and_ack now0 now now' q lease_ms e))"
    using c held_ack by (auto simp: claim_and_ack_def split: option.split)
  show "(q, qj_id y) \<noteq> (queue, i)" if ca: "claim_and_ack now0 now now' q lease_ms e = (Ok (Some y), e')"
  proof -
    obtain x where x: "r = Some x" "ack_job now' q (qj_id x) e1 = (Ok (Some y), e')"
      using ca c by (auto simp: claim_and_ack_def split: option.splits)
    show ?thesis
      using held_claim(2) [OF assms c [unfolded x(1)]] ack_job_Some(1) [OF x(2)] by simp
  qed
qed

lemma held_claim_and_ack_batch:
  assumes "queues_ok e" "held t queue i e" "q = queue \<longrightarrow> (\<forall>(now0, now, now') \<in> set rounds. now0 < t)"
  shows "held t queue i (snd (claim_and_ack_batch rounds q lease_ms e))
    \<and> (\<forall>ys. fst (claim_and_ack_batch rounds q lease_ms e) = Ok ys \<longrightarrow> (\<forall>y \<in> set ys. (q, qj_id y) \<noteq> (queue, i)))"
  using assms
proof (induction rounds arbitrary: e)
  case (Cons r rounds)
  obtain now0 now now' where r: "r = (now0, now, now')"
    by (cases r)
  have t: "q = queue \<longrightarrow> now0 < t" "q = queue \<longrightarrow> (\<forall>(now0, now, now') \<in> set rounds. now0 < t)"
    using Cons.prems(3) by (auto simp: r)
  obtain res e1 where c: "claim_and_ack now0 now now' q lease_ms e = (res, e1)"
    by (cases "claim_and_ack now0 now now' q lease_ms e")
  have e1: "queues_ok e1" "held t queue i e1"
    using progress_claim_and_ack [OF Cons.prems(1), of now0 now now' q lease_ms]
      held_claim_and_ack(1) [OF Cons.prems(1,2) t(1), of now now' lease_ms] c by simp_all
  note rest = Cons.IH [OF e1 t(2)] and first = held_claim_and_ack(2) [OF Cons.prems(1,2) t(1), of now now' lease_ms]
  obtain res' e2 where b: "claim_and_ack_batch rounds q lease_ms e1 = (res', e2)"
    by (cases "claim_and_ack_batch rounds q lease_ms e1")
  show ?case
    using rest first c b e1(2) by (cases res; cases res') (auto simp: r st_then_def split: option.splits)
qed simp

lemma held_step:
  assumes ok: "queues_ok e" and held: "held t queue i e" and w: "within_lease t queue i c"
  shows "held t queue i (queue_step c e) \<and> (queue, i) \<notin> set (handed_out c e)"
proof (cases c)
  case (ClaimJob now0 now q lease_ms)
  then show ?thesis
    using held_claim [OF ok held, of q now0 now lease_ms] w
    by (cases "claim_job_with_options now0 now q lease_ms e") (auto split: sum.split option.split)
next
  case (ClaimJobs now0 now q lease_ms limit)
  then show ?thesis
    using held_claims [OF ok held, of q now0 now lease_ms limit] w
    by (cases "claim_jobs_with_options now0 now q lease_ms limit e") (auto split: sum.split)
next
  case (ClaimAndAck now0 now now' q lease_ms)
  then show ?thesis
    using held_claim_and_ack [OF ok held, of q now0 now now' lease_ms] w
    by (cases "claim_and_ack now0 now now' q lease_ms e") (auto split: sum.split option.split)
next
  case (ClaimAndAckBatch rounds q lease_ms)
  then show ?thesis
    using held_claim_and_ack_batch [OF ok held, of q rounds lease_ms] w
    by (cases "claim_and_ack_batch rounds q lease_ms e") (auto split: sum.split)
next
  case (NackJob now q j options)
  then show ?thesis
    using held_nack [OF held] w by simp
qed (use held_push [OF held] held_pushes [OF held] held_ack [OF held] held_acks [OF ok held] in simp_all)

lemma held_run:
  "queues_ok e \<Longrightarrow> held t queue i e \<Longrightarrow> list_all (within_lease t queue i) cs \<Longrightarrow> (queue, i) \<notin> set (all_handed_out cs e)"
proof (induction cs arbitrary: e)
  case (Cons c cs)
  then show ?case
    using held_step [of e t queue i c] progress_step [of e c] by simp
qed simp

section \<open>The properties\<close>

text \<open>
  C24: Jobs only move along their life cycle. A job that is in a queue stays there under every sequence of
  calls, and only by claim (ready to leased), release of an expired lease, acknowledgement and
  rejection; a completed or dead job does not change any more. Jobs of one priority keep their
  order.
\<close>

theorem job_lifecycle:
  assumes "e = run_calls queue_step cs new_engine" "find_job i (list_jobs queue e) = Some job"
    "e' = run_calls queue_step ds e"
  shows "\<exists>job'. find_job i (list_jobs queue e') = Some job' \<and> job_step\<^sup>*\<^sup>* job job' \<and> (terminal job \<longrightarrow> job' = job)
    \<and> prefix (job_line p (list_jobs queue e)) (job_line p (list_jobs queue e'))"
proof -
  have "queues_later e e'"
    unfolding assms(3) by (rule queues_run_later) (simp add: assms(1) queues_reachable)
  then show ?thesis
    using assms(2) terminal_stays unfolding queues_later_def jobs_later_def list_jobs_def by metis
qed

text \<open>
  C22: A job is completed once. Over any sequence of calls, however claims, acknowledgements, rejections
  and expiring leases interleave, no job is acknowledged twice.
\<close>

theorem acknowledged_once: "distinct (acknowledged cs new_engine)"
  using acknowledged_distinct queues_ok_new by blast

text \<open>
  C23: A lease keeps other workers away. After a claim has handed out a job with a lease until t, no later
  claim hands it out again, as long as expired leases are released before t and the job is not
  rejected, whatever other calls are made.
\<close>

theorem lease_exclusive:
  assumes e: "e = run_calls queue_step cs new_engine"
    and claim: "claim_job_with_options now0 now queue lease_ms e = (Ok (Some job), e')"
    and t: "t = i64_sat_add now (u64_to_i64 lease_ms)"
    and within: "list_all (within_lease t queue (qj_id job)) ds"
  shows "(queue, qj_id job) \<notin> set (all_handed_out ds e')"
proof -
  have ok: "queues_ok e"
    by (simp add: e queues_reachable)
  have ok': "queues_ok e'"
    using progress_claim [OF ok, of now0 now queue lease_ms] claim by simp
  have "held t queue (qj_id job) e'"
    using claimed_is_leased [OF ok claim] by (auto simp: held_def held_until_def t lease_job_def)
  then show ?thesis
    using held_run [OF ok' _ within] by blast
qed

text \<open>
  C25: Claims follow priority, then age. Among the jobs that are ready (or whose lease has expired) and due, a
  claim leases one of the highest priority, and of these the one that is first in the queue; it
  returns nothing only if there is no such job.
\<close>

theorem claim_priority_fifo:
  "(case fst (claim_job_with_options now0 now queue lease_ms e) of
      Inl _ \<Rightarrow> False
    | Inr None \<Rightarrow> available now0 now queue e = []
    | Inr (Some job) \<Rightarrow> \<exists>earlier chosen later. available now0 now queue e = earlier @ chosen # later
        \<and> job = lease_job lease_ms now (qj_attempts chosen + 1) chosen
        \<and> list_all (\<lambda>x. qj_priority x < qj_priority chosen) earlier
        \<and> list_all (\<lambda>x. qj_priority x \<le> qj_priority chosen) later)"
proof (cases "available now0 now queue e = []")
  case False
  let ?key = "\<lambda>job. - qj_priority job"
  let ?h = "hd (sort_key ?key (available now0 now queue e))"
  obtain ys zs where split: "available now0 now queue e = ys @ ?h # zs"
    "\<And>y. y \<in> set ys \<Longrightarrow> ?key ?h < ?key y" "\<And>z. z \<in> set zs \<Longrightarrow> ?key ?h \<le> ?key z"
    using hd_sort_key [OF False, of ?key] by blast
  have "by_priority (available now0 now queue e) \<noteq> []"
    using False unfolding by_priority_def by (metis length_0_conv length_sort)
  then obtain rest where "by_priority (available now0 now queue e) = ?h # rest"
    by (cases "by_priority (available now0 now queue e)") (simp_all add: by_priority_def)
  then have "fst (claim_job_with_options now0 now queue lease_ms e) = Ok (Some (lease_job lease_ms now (qj_attempts ?h + 1) ?h))"
    by (simp add: claim_result)
  moreover have "list_all (\<lambda>x. qj_priority x < qj_priority ?h) ys" "list_all (\<lambda>x. qj_priority x \<le> qj_priority ?h) zs"
    using split(2,3) by (auto simp: list_all_iff)
  ultimately show ?thesis
    using split(1) by auto
qed (simp add: claim_result by_priority_def)

text \<open>
  C26: An expired lease does not lose the job. If a queue holds a job that is due and ready, or leased with
  a lease that has ended, a claim returns a job.
\<close>

theorem expired_lease_claimed_again:
  assumes "find_job i (list_jobs queue e) = Some job" "qj_available_at_ms job \<le> now"
    "qj_status job = Ready \<or> lease_expired now0 job"
  shows "\<exists>job' e'. claim_job_with_options now0 now queue lease_ms e = (Ok (Some job'), e')"
proof -
  have "claimable now (release_job now0 job)"
    using assms(2,3) by (auto simp: claimable_def release_job_def lease_expired_def)
  moreover have "job \<in> set (queue_jobs queue e)"
    using assms(1) by (auto simp: list_jobs_def find_job_def find_Some_iff)
  ultimately have "release_job now0 job \<in> set (available now0 now queue e)"
    by (simp add: available_def)
  then have "set (by_priority (available now0 now queue e)) \<noteq> {}"
    by auto
  then obtain x rest where "by_priority (available now0 now queue e) = x # rest"
    by (cases "by_priority (available now0 now queue e)") auto
  then show ?thesis
    using claim_result [of now0 now queue lease_ms e] by (cases "claim_job_with_options now0 now queue lease_ms e") auto
qed

text \<open>
  C27: A batch acknowledgement is all or nothing. If it fails, nothing has changed. If it succeeds, there are
  at most 1000 ids, all different, each named a leased job, exactly these jobs are now completed,
  and they are returned in the order of the ids.
\<close>

theorem ack_jobs_all_or_nothing:
  assumes e: "e = run_calls queue_step cs new_engine" and ack: "ack_jobs now queue ids e = (r, e')"
  shows "case r of
      Inl err \<Rightarrow> e' = e
    | Inr jobs \<Rightarrow> length ids \<le> 1000 \<and> distinct ids \<and> map qj_id jobs = ids
        \<and> list_all (\<lambda>i. \<exists>job. find_job i (list_jobs queue e) = Some job \<and> qj_status job = Leased) ids
        \<and> (\<forall>k q. find_job k (list_jobs q e') =
             (if q = queue \<and> k \<in> set ids then map_option (complete_job now) (find_job k (list_jobs q e)) else find_job k (list_jobs q e)))"
proof -
  have "queues_ok e"
    by (simp add: e queues_reachable)
  then show ?thesis
  proof (cases rule: ack_jobs_cases [where now = now and queue = queue and ids = ids])
    case (rejected err)
    then show ?thesis
      using ack by auto
  next
    case (acked jobs)
    have "qj_id (the (find_job i (queue_jobs queue e))) = i" if "i \<in> set ids" for i
      using acked(3) [OF that] by (auto simp: find_job_id)
    then have "map (\<lambda>i. qj_id (the (find_job i (queue_jobs queue e)))) ids = ids"
      by (simp add: map_idI)
    then have "map qj_id (map (\<lambda>i. complete_job now (the (find_job i (queue_jobs queue e)))) ids) = ids"
      by (simp add: o_def)
    then show ?thesis
      using ack acked by (auto simp: list_jobs_def list_all_iff MAX_QUEUE_BATCH_ITEMS_def)
  qed
qed

section \<open>Examples\<close>

text \<open>A queue with one job, and the engine after a claim of it at time 0 with a lease of 10.\<close>

definition demo_job :: queue_job where
  "demo_job = new_job ''q'' ''j'' [] 1"

definition demo_queue :: "(unit, unit) memory_engine" where
  "demo_queue = run_calls queue_step [PushJob demo_job] new_engine"

definition demo_leased :: queue_job where
  "demo_leased = lease_job 10 0 1 demo_job"

lemma demo_queue_jobs: "bm_get (me_queues demo_queue) ''q'' = Some [demo_job]" "queue_jobs ''q'' demo_queue = [demo_job]"
  by (simp_all add: demo_queue_def push_job_def demo_job_def new_job_def queue_jobs_def new_engine_def)

lemma demo_claim: "\<exists>e'. claim_job_with_options 0 0 ''q'' 10 demo_queue = (Ok (Some demo_leased), e') \<and> queue_jobs ''q'' e' = [demo_leased]"
proof -
  have "claimable 0 demo_job" "release_job 0 demo_job = demo_job" "qj_attempts demo_job = 0"
    by (simp_all add: claimable_def demo_job_def new_job_def release_job_def lease_expired_def)
  then show ?thesis
    by (simp add: claim_jobs_release demo_queue_jobs by_priority_def demo_leased_def)
qed

theorem job_lifecycle_witness:
  "\<exists>job'. find_job ''j'' (list_jobs ''q'' (run_calls queue_step [ClaimJob 0 0 ''q'' 10] demo_queue)) = Some job' \<and> job_step\<^sup>*\<^sup>* demo_job job'"
  using job_lifecycle [OF demo_queue_def, where i = "''j''" and queue = "''q''" and job = demo_job and ds = "[ClaimJob 0 0 ''q'' 10]"]
  by (auto simp: list_jobs_def demo_queue_jobs find_job_def demo_job_def new_job_def)

theorem lease_exclusive_witness:
  "(''q'', ''j'') \<notin> set (all_handed_out [ClaimJob 5 5 ''q'' 10, AckJob 6 ''q'' ''j'', ClaimJob 7 7 ''q'' 10]
     (snd (claim_job_with_options 0 0 ''q'' 10 demo_queue)))"
proof -
  obtain e' where "claim_job_with_options 0 0 ''q'' 10 demo_queue = (Ok (Some demo_leased), e')"
    using demo_claim by blast
  from lease_exclusive [OF demo_queue_def this refl, where ds = "[ClaimJob 5 5 ''q'' 10, AckJob 6 ''q'' ''j'', ClaimJob 7 7 ''q'' 10]"] this
  show ?thesis
    by (simp add: i64_sat_add_def i64_max_def i64_min_def u64_to_i64_def demo_leased_def demo_job_def new_job_def)
qed

theorem expired_lease_claimed_again_witness:
  "\<exists>job' e'. claim_job_with_options 20 20 ''q'' 10 (snd (claim_job_with_options 0 0 ''q'' 10 demo_queue)) = (Ok (Some job'), e')"
proof -
  obtain e' where e': "claim_job_with_options 0 0 ''q'' 10 demo_queue = (Ok (Some demo_leased), e')" "queue_jobs ''q'' e' = [demo_leased]"
    using demo_claim by blast
  have "find_job ''j'' (list_jobs ''q'' e') = Some demo_leased"
    by (simp add: list_jobs_def e'(2) find_job_def demo_leased_def demo_job_def new_job_def)
  from expired_lease_claimed_again [OF this, where now = 20 and now0 = 20 and lease_ms = 10] show ?thesis
    by (simp add: e'(1) demo_leased_def demo_job_def new_job_def lease_job_def lease_expired_def i64_sat_add_def i64_max_def i64_min_def u64_to_i64_def)
qed

theorem ack_jobs_all_or_nothing_witness:
  "snd (ack_jobs 0 ''q'' [''j'', ''x''] demo_queue) = demo_queue"
proof -
  obtain r e' where a: "ack_jobs 0 ''q'' [''j'', ''x''] demo_queue = (r, e')"
    by (cases "ack_jobs 0 ''q'' [''j'', ''x''] demo_queue")
  have "find_job ''x'' (list_jobs ''q'' demo_queue) = None"
    by (simp add: list_jobs_def demo_queue_jobs find_job_def demo_job_def new_job_def)
  then show ?thesis
    using ack_jobs_all_or_nothing [OF demo_queue_def a] a by (cases r) auto
qed

text \<open>
  Attempts are not limited when workers fail silently. A job with at most one attempt whose lease ends
  without acknowledgement or rejection is leased a second time, with more attempts than its maximum.
\<close>

theorem attempts_exceed_maximum:
  "\<exists>job e'. claim_job_with_options 20 20 ''q'' 10 (snd (claim_job_with_options 0 0 ''q'' 10 demo_queue)) = (Ok (Some job), e')
    \<and> qj_status job = Leased \<and> qj_attempts job = 2 \<and> qj_max_attempts job = 1"
proof -
  obtain e' where e': "claim_job_with_options 0 0 ''q'' 10 demo_queue = (Ok (Some demo_leased), e')" "queue_jobs ''q'' e' = [demo_leased]"
    using demo_claim by blast
  have "lease_expired 20 demo_leased"
    by (simp add: lease_expired_def demo_leased_def lease_job_def i64_sat_add_def i64_max_def i64_min_def u64_to_i64_def)
  then have "claimable 20 (release_job 20 demo_leased)" "qj_attempts (release_job 20 demo_leased) = 1" "qj_max_attempts (release_job 20 demo_leased) = 1"
    by (simp_all add: release_job_def claimable_def demo_leased_def lease_job_def demo_job_def new_job_def)
  then show ?thesis
    unfolding e'(1) snd_conv by (simp add: claim_jobs_release e'(2) by_priority_def lease_job_def)
qed

end
