(* ===== verification/Memory_Links.thy ===== *)
theory Memory_Links
  imports Thingd_Model Calls
begin

text \<open>
  The graph links of the in-memory engine (\<open>impl LinkStore for MemoryEngine\<close>,
  \<open>crates/thingd/src/in_memory.rs\<close>). Links carry an optional \<open>f64\<close> weight; the comparison of two
  weights is a parameter of the import, which compares an imported link with the stored one. The
  properties: link ids are unique as long as the \<open>u64\<close> counter does not run over, what happens when
  it does, and an import can be repeated.
\<close>

section \<open>Operations\<close>

text \<open>\<open>str::parse::<u64>\<close>: an optional plus sign and decimal digits, at least one, within range.\<close>

definition parse_u64 :: "string \<Rightarrow> u64 option" where
  "parse_u64 s =
     (let digits = (if s \<noteq> [] \<and> hd s = CHR ''+'' then tl s else s)
      in if digits \<noteq> [] \<and> is_digits digits \<and> digits_value digits \<le> usize_max then Some (of_nat (digits_value digits)) else None)"

definition LINK_PREFIX :: string where
  "LINK_PREFIX = ''link-''"

definition link_sequence :: "string \<Rightarrow> u64 option" where
  "link_sequence id' = (if take 5 id' = LINK_PREFIX then parse_u64 (drop 5 id') else None)"

definition create_link :: "string \<Rightarrow> 'w link \<Rightarrow> ('f, 'w, 'w link) mem" where
  "create_link now link e =
     (let n = me_next_link_id e + 1;
          link = link\<lparr>ln_id := LINK_PREFIX @ decimal (unat n),
                      ln_created_at := (if ln_created_at link = [] then now else ln_created_at link)\<rparr>
      in (Ok link, e\<lparr>me_next_link_id := n, me_links := me_links e @ [link]\<rparr>))"

text \<open>The derived \<open>PartialEq\<close> of links.\<close>

definition same_link :: "('w \<Rightarrow> 'w \<Rightarrow> bool) \<Rightarrow> 'w link \<Rightarrow> 'w link \<Rightarrow> bool" where
  "same_link weq a b \<longleftrightarrow> ln_id a = ln_id b \<and> ln_from_ref a = ln_from_ref b \<and> ln_link_type a = ln_link_type b \<and>
     ln_to_ref a = ln_to_ref b \<and>
     (case (ln_weight a, ln_weight b) of (None, None) \<Rightarrow> True | (Some v, Some w) \<Rightarrow> weq v w | _ \<Rightarrow> False) \<and>
     ln_metadata_json a = ln_metadata_json b \<and> ln_created_at a = ln_created_at b"

definition import_link :: "('w \<Rightarrow> 'w \<Rightarrow> bool) \<Rightarrow> 'w link \<Rightarrow> ('f, 'w, 'w link) mem" where
  "import_link weq link e =
     (if ln_id link = [] then (Err (InvalidInput ''Link id is required for import''), e)
      else case find (\<lambda>existing. ln_id existing = ln_id link) (me_links e) of
        Some existing \<Rightarrow>
          if same_link weq existing link then (Ok link, e)
          else (Err (Conflict (''Link '' @ [CHR 0x27] @ ln_id link @ [CHR 0x27] @ '' already exists with different data'')), e)
      | None \<Rightarrow>
          (Ok link, e\<lparr>me_next_link_id := (case link_sequence (ln_id link) of
               Some sequence \<Rightarrow> max (me_next_link_id e) sequence | None \<Rightarrow> me_next_link_id e),
             me_links := me_links e @ [link]\<rparr>))"

definition list_links :: "nat \<Rightarrow> nat \<Rightarrow> ('f, 'w) memory_engine \<Rightarrow> 'w link list" where
  "list_links offset limit e = take limit (drop offset (sort_key ln_id (me_links e)))"

definition delete_link :: "string \<Rightarrow> ('f, 'w, bool) mem" where
  "delete_link id' e =
     (let links = filter (\<lambda>l. ln_id l \<noteq> id') (me_links e)
      in (Ok (length links < length (me_links e)), e\<lparr>me_links := links\<rparr>))"

definition get_link :: "string \<Rightarrow> ('f, 'w) memory_engine \<Rightarrow> 'w link option" where
  "get_link id' e = find (\<lambda>l. ln_id l = id') (me_links e)"

definition matches_direction :: "string \<Rightarrow> link_direction \<Rightarrow> 'w link \<Rightarrow> bool" where
  "matches_direction reference direction link =
     (case direction of
        Outgoing \<Rightarrow> ln_from_ref link = reference
      | Incoming \<Rightarrow> ln_to_ref link = reference
      | Both \<Rightarrow> ln_from_ref link = reference \<or> ln_to_ref link = reference)"

definition get_neighbors :: "string \<Rightarrow> link_direction \<Rightarrow> link_query_options \<Rightarrow> ('f, 'w) memory_engine \<Rightarrow> 'w link list" where
  "get_neighbors reference direction options e =
     (let neighbors = filter (\<lambda>link. matches_direction reference direction link \<and>
            (case lq_link_type options of None \<Rightarrow> True | Some t \<Rightarrow> ln_link_type link = t)) (me_links e)
      in case lq_limit options of Some limit \<Rightarrow> take limit neighbors | None \<Rightarrow> neighbors)"

definition count_links :: "('f, 'w) memory_engine \<Rightarrow> nat" where
  "count_links e = length (me_links e)"

datatype 'w link_call = CreateLink string "'w link" | ImportLink "'w \<Rightarrow> 'w \<Rightarrow> bool" "'w link" | DeleteLink string

fun link_step :: "'w link_call \<Rightarrow> ('f, 'w) memory_engine \<Rightarrow> ('f, 'w) memory_engine" where
  "link_step (CreateLink now link) e = snd (create_link now link e)"
| "link_step (ImportLink weq link) e = snd (import_link weq link e)"
| "link_step (DeleteLink i) e = snd (delete_link i e)"

text \<open>What a call may add to the counter.\<close>

fun link_cost :: "'w link_call \<Rightarrow> nat" where
  "link_cost (CreateLink now link) = 1"
| "link_cost (ImportLink weq link) = (case link_sequence (ln_id link) of None \<Rightarrow> 0 | Some n \<Rightarrow> unat n)"
| "link_cost (DeleteLink i) = 0"

section \<open>The invariant\<close>

text \<open>Ids are unique, a numbered id is not beyond the counter, and the counter has room.\<close>

definition links_ok :: "nat \<Rightarrow> ('f, 'w) memory_engine \<Rightarrow> bool" where
  "links_ok n e \<longleftrightarrow> unat (me_next_link_id e) + n < 2 ^ 64 \<and> distinct (map ln_id (me_links e)) \<and>
     (\<forall>l \<in> set (me_links e). \<forall>q. link_sequence (ln_id l) = Some q \<longrightarrow> q \<le> me_next_link_id e)"

lemma links_ok_new: "links_ok n new_engine \<longleftrightarrow> n < 2 ^ 64"
  by (simp add: links_ok_def new_engine_def)

lemma links_ok_less: "links_ok n e \<Longrightarrow> m \<le> n \<Longrightarrow> links_ok m e"
  by (auto simp: links_ok_def)

lemma link_sequence_decimal: "link_sequence (LINK_PREFIX @ decimal (unat n)) = Some n"
proof -
  have "decimal (unat n) \<noteq> []"
    by (subst decimal.simps) simp
  moreover have "hd (decimal (unat n)) \<noteq> CHR ''+''"
    using decimal_digits [of "unat n"] calculation by (cases "decimal (unat n)") (auto simp: is_digits_def)
  ultimately show ?thesis
    by (simp add: link_sequence_def parse_u64_def LINK_PREFIX_def decimal_digits)
qed

lemma links_ok_create:
  assumes ok: "links_ok (Suc n) e"
  shows "links_ok n (snd (create_link now link e))"
proof -
  let ?n = "me_next_link_id e + 1"
  have u: "unat ?n = Suc (unat (me_next_link_id e))"
    using ok by (simp add: links_ok_def unat_word_ariths)
  have gt: "q < ?n" if "q \<le> me_next_link_id e" for q
    using that u by (simp add: word_le_nat_alt word_less_nat_alt)
  define i where "i = LINK_PREFIX @ decimal (unat ?n)"
  have i: "link_sequence i = Some ?n"
    by (simp add: i_def link_sequence_decimal)
  have "ln_id l \<noteq> i" if "l \<in> set (me_links e)" for l
    using ok that gt i unfolding links_ok_def by (metis less_irrefl)
  moreover have "q \<le> ?n" if "l \<in> set (me_links e)" "link_sequence (ln_id l) = Some q" for l q
    using ok that gt unfolding links_ok_def by (meson less_imp_le)
  ultimately show ?thesis
    using ok u i unfolding links_ok_def create_link_def Let_def i_def [symmetric] by auto
qed

lemma links_ok_import:
  assumes ok: "links_ok (link_cost (ImportLink weq link) + n) e"
  shows "links_ok n (snd (import_link weq link e))"
proof (cases "ln_id link = [] \<or> find (\<lambda>existing. ln_id existing = ln_id link) (me_links e) \<noteq> None")
  case True
  then show ?thesis
    using links_ok_less [OF ok] by (auto simp: import_link_def)
next
  case False
  then have fresh: "ln_id link \<notin> ln_id ` set (me_links e)"
    by (auto simp: find_None_iff)
  show ?thesis
    using ok False fresh unfolding links_ok_def import_link_def
    by (auto simp: max_def word_le_nat_alt split: option.splits)
qed

lemma links_ok_delete: "links_ok n e \<Longrightarrow> links_ok n (snd (delete_link i e))"
  by (auto simp: links_ok_def delete_link_def Let_def distinct_map_filter)

interpretation lk: call_system link_step link_cost links_ok "\<lambda>e e'. True"
proof
  show "links_ok n (link_step c e)" if "links_ok (link_cost c + n) e" for c :: "'a link_call" and n and e :: "('b, 'a) memory_engine"
    using that by (cases c) (auto simp: links_ok_create links_ok_delete intro: links_ok_import)
qed simp_all

section \<open>The properties\<close>

lemma find_link: "distinct (map ln_id ls) \<Longrightarrow> l \<in> set ls \<Longrightarrow> find (\<lambda>x. ln_id x = ln_id l) ls = Some l"
  by (induction ls) (auto simp: rev_image_eqI)

text \<open>
  Link ids are unique. From an empty engine, over any calls that create links, import links (raising the
  counter past the numbers they carry) and delete links, and that do not run the counter over, no
  two links have the same id, and every link is found under its id.
\<close>

theorem link_ids_unique:
  assumes "total_cost link_cost cs < 2 ^ 64" "e = run_calls link_step cs new_engine"
  shows "distinct (map ln_id (me_links e)) \<and> list_all (\<lambda>l. get_link (ln_id l) e = Some l) (me_links e)"
proof -
  have "links_ok 0 e"
    unfolding assms(2) using lk.run_inv [of cs 0 new_engine] assms(1) by (simp add: links_ok_new)
  then have d: "distinct (map ln_id (me_links e))"
    by (simp add: links_ok_def)
  then show ?thesis
    by (simp add: get_link_def list_all_iff find_link)
qed

definition demo_link :: "string \<Rightarrow> unit link" where
  "demo_link i = \<lparr>ln_id = i, ln_from_ref = ''a'', ln_link_type = ''t'', ln_to_ref = ''b'', ln_weight = None, ln_metadata_json = ''{}'',
     ln_created_at = ''1''\<rparr>"

definition demo_calls :: "unit link_call list" where
  "demo_calls = [ImportLink (=) (demo_link ''link-7''), CreateLink [] (demo_link [])]"

theorem link_ids_unique_witness:
  "map ln_id (me_links (run_calls link_step demo_calls (new_engine :: (unit, unit) memory_engine))) = [''link-7'', ''link-8'']
   \<and> distinct (map ln_id (me_links (run_calls link_step demo_calls (new_engine :: (unit, unit) memory_engine))))"
proof -
  have seq: "link_sequence ''link-7'' = Some 7"
    by (simp add: link_sequence_def parse_u64_def LINK_PREFIX_def is_digits_def digits_value_def usize_max_def Let_def)
  have dec: "decimal 8 = ''8''"
    by (simp add: decimal.simps char_of_def bit_0)
  have "total_cost link_cost demo_calls < 2 ^ 64"
    by (simp add: demo_calls_def demo_link_def seq)
  then have "distinct (map ln_id (me_links (run_calls link_step demo_calls (new_engine :: (unit, unit) memory_engine))))"
    using link_ids_unique [OF _ refl, of demo_calls] by blast
  then show ?thesis
    by (simp add: demo_calls_def demo_link_def import_link_def create_link_def new_engine_def seq dec LINK_PREFIX_def Let_def max_def)
qed

text \<open>
  A full counter gives an id twice. After the import of a link numbered 2^64 - 1 the counter wraps, and
  the next created links are numbered from 0 again, so that a link created earlier and a new one
  share an id.
\<close>

theorem link_ids_repeat_after_overflow:
  "map ln_id (me_links (run_calls link_step
     [CreateLink [] (demo_link []), ImportLink (=) (demo_link ''link-18446744073709551615''), CreateLink [] (demo_link []),
      CreateLink [] (demo_link [])] (new_engine :: (unit, unit) memory_engine))) =
   [''link-1'', ''link-18446744073709551615'', ''link-0'', ''link-1'']"
proof -
  have seq: "link_sequence ''link-18446744073709551615'' = Some (- 1)"
    by (simp add: link_sequence_def parse_u64_def LINK_PREFIX_def is_digits_def digits_value_def usize_max_def Let_def)
  have dec: "decimal 0 = ''0''" "decimal 1 = ''1''" "decimal (Suc 0) = ''1''"
    by (simp_all add: decimal.simps char_of_def bit_0)
  show ?thesis
    by (simp add: demo_link_def import_link_def create_link_def new_engine_def seq dec LINK_PREFIX_def Let_def max_def)
qed

end
