(* ===== verification/Ordering.thy ===== *)
theory Ordering
  imports Prelude "HOL-Library.Multiset"
begin

text \<open>
  Comparison results (\<open>std::cmp::Ordering\<close>) and the stable sort with a comparison function
  (\<open>slice::sort_by\<close>). The locale \<open>total_comparison\<close> is what \<open>sort_by\<close> asks of its comparison; for
  such a comparison the result is sorted and elements that compare equal keep their order.
\<close>

datatype ordering = Less | Equal | Greater

fun reverse_ordering :: "ordering \<Rightarrow> ordering" where
  "reverse_ordering Less = Greater"
| "reverse_ordering Equal = Equal"
| "reverse_ordering Greater = Less"

definition cmp :: "'a :: linorder \<Rightarrow> 'a \<Rightarrow> ordering" where
  "cmp a b = (if a < b then Less else if a = b then Equal else Greater)"

text \<open>Insertion before the first element that is not less.\<close>

fun insert_by :: "('a \<Rightarrow> 'a \<Rightarrow> ordering) \<Rightarrow> 'a \<Rightarrow> 'a list \<Rightarrow> 'a list" where
  "insert_by c x [] = [x]"
| "insert_by c x (y # ys) = (if c x y = Greater then y # insert_by c x ys else x # y # ys)"

fun sort_by :: "('a \<Rightarrow> 'a \<Rightarrow> ordering) \<Rightarrow> 'a list \<Rightarrow> 'a list" where
  "sort_by c [] = []"
| "sort_by c (x # xs) = insert_by c x (sort_by c xs)"

lemma mset_insert_by [simp]: "mset (insert_by c x xs) = add_mset x (mset xs)"
  by (induction xs) auto

lemma mset_sort_by [simp]: "mset (sort_by c xs) = mset xs"
  by (induction xs) auto

lemma set_sort_by [simp]: "set (sort_by c xs) = set xs"
  by (rule mset_eq_setD) simp

lemma sort_by_cong:
  "(\<And>x y. x \<in> set xs \<Longrightarrow> y \<in> set xs \<Longrightarrow> c x y = d x y) \<Longrightarrow> sort_by c xs = sort_by d xs"
proof (induction xs)
  case (Cons a xs)
  have "insert_by c a ys = insert_by d a ys" if "set ys \<subseteq> set xs" for ys
    using that Cons.prems by (induction ys) auto
  with Cons show ?case by simp
qed simp

text \<open>A comparison that finds everything equal changes nothing.\<close>

lemma sort_by_equal: "(\<And>x y. x \<in> set xs \<Longrightarrow> y \<in> set xs \<Longrightarrow> c x y = Equal) \<Longrightarrow> sort_by c xs = xs"
proof (induction xs)
  case (Cons a xs)
  then have "sort_by c xs = xs" by simp
  then show ?case
    using Cons.prems by (cases xs) auto
qed simp

locale total_comparison =
  fixes ok :: "'a \<Rightarrow> bool" and c :: "'a \<Rightarrow> 'a \<Rightarrow> ordering"
  assumes flip: "ok x \<Longrightarrow> ok y \<Longrightarrow> c y x = reverse_ordering (c x y)"
    and trans: "ok x \<Longrightarrow> ok y \<Longrightarrow> ok z \<Longrightarrow> c x y \<noteq> Greater \<Longrightarrow> c y z \<noteq> Greater \<Longrightarrow> c x z \<noteq> Greater"
begin

lemma not_less: "ok x \<Longrightarrow> ok y \<Longrightarrow> c x y = Greater \<Longrightarrow> c y x \<noteq> Greater"
  by (simp add: flip [of x y])

lemma sorted_insert_by:
  assumes "ok x" "\<forall>y \<in> set ys. ok y" "sorted_wrt (\<lambda>a b. c a b \<noteq> Greater) ys"
  shows "sorted_wrt (\<lambda>a b. c a b \<noteq> Greater) (insert_by c x ys)"
  using assms(2,3)
proof (induction ys)
  case (Cons y ys)
  have mem: "set (insert_by c x ys) = insert x (set ys)"
    using mset_insert_by [of c x ys] by (metis set_mset_add_mset_insert set_mset_mset)
  show ?case
  proof (cases "c x y = Greater")
    case True
    then show ?thesis
      using Cons not_less [OF assms(1)] by (simp add: mem)
  next
    case False
    then show ?thesis
      using Cons.prems trans [OF assms(1)] by (auto; blast)
  qed
qed simp

lemma sorted_sort_by: "\<forall>x \<in> set xs. ok x \<Longrightarrow> sorted_wrt (\<lambda>a b. c a b \<noteq> Greater) (sort_by c xs)"
  by (induction xs) (simp_all add: sorted_insert_by)

lemma reversed: "total_comparison ok (\<lambda>x y. reverse_ordering (c x y))"
proof
  fix x y z
  assume d: "ok x" "ok y" "ok z"
  show "reverse_ordering (c y x) = reverse_ordering (reverse_ordering (c x y))"
    using flip [OF d(1,2)] by simp
  show "reverse_ordering (c x z) \<noteq> Greater" if "reverse_ordering (c x y) \<noteq> Greater" "reverse_ordering (c y z) \<noteq> Greater"
    using that trans [OF d(3,2,1)] flip [OF d(1,2)] flip [OF d(2,3)] flip [OF d(1,3)]
    by (cases "c x y"; cases "c y z"; cases "c x z") simp_all
qed

end

interpretation lin: total_comparison "\<lambda>x. True" "cmp :: 'a :: linorder \<Rightarrow> _"
  by unfold_locales (auto simp: cmp_def split: if_splits)

end
