(* ===== verification/Memory_Query.thy ===== *)
theory Memory_Query
  imports Memory_Objects Ordering
begin

text \<open>
  Queries of the in-memory engine: \<open>list_objects\<close> with its filter operators and sort, aggregates and
  time series, vector search and schema inference (\<open>crates/thingd/src/in_memory.rs\<close>).

  serde_json, chrono and \<open>f64\<close> arithmetic are parameters, gathered in the record \<open>world\<close>: the JSON
  parser and printer, the \<open>f64\<close> operations and the reformatting of a timestamp.
\<close>

record ('n, 'd) world =
  w_parse :: "string \<Rightarrow> 'n json option"
  w_show :: "'n json \<Rightarrow> string"
  w_as_f64 :: "'n \<Rightarrow> 'd option"
  w_parse_f64 :: "string \<Rightarrow> 'd option"
  w_partial_cmp :: "'d \<Rightarrow> 'd \<Rightarrow> ordering option"
  w_zero :: 'd
  w_add :: "'d \<Rightarrow> 'd \<Rightarrow> 'd"
  w_div :: "'d \<Rightarrow> 'd \<Rightarrow> 'd"
  w_of_usize :: "nat \<Rightarrow> 'd"
  w_infinity :: 'd
  w_neg_infinity :: 'd
  w_min :: "'d \<Rightarrow> 'd \<Rightarrow> 'd"
  w_max :: "'d \<Rightarrow> 'd \<Rightarrow> 'd"
  w_format_timestamp :: "string \<Rightarrow> string \<Rightarrow> string option"
  w_is_rfc3339 :: "string \<Rightarrow> bool"

section \<open>Comparing values\<close>

fun value_compare :: "('n, 'd) world \<Rightarrow> 'n json \<Rightarrow> 'n json \<Rightarrow> ordering" where
  "value_compare w (JNum a) (JNum b) =
     (let a_f = (case w_as_f64 w a of Some x \<Rightarrow> x | None \<Rightarrow> w_zero w);
          b_f = (case w_as_f64 w b of Some x \<Rightarrow> x | None \<Rightarrow> w_zero w)
      in case w_partial_cmp w a_f b_f of Some r \<Rightarrow> r | None \<Rightarrow> Equal)"
| "value_compare w (JStr a) (JStr b) = cmp a b"
| "value_compare w (JBool a) (JBool b) = cmp a b"
| "value_compare w a b = cmp (w_show w a) (w_show w b)"

section \<open>LIKE patterns\<close>

text \<open>\<open>str::split\<close> on a character, and \<open>str::find\<close>.\<close>

fun split_on :: "char \<Rightarrow> string \<Rightarrow> string list" where
  "split_on c [] = [[]]"
| "split_on c (x # xs) =
     (if x = c then [] # split_on c xs
      else case split_on c xs of [] \<Rightarrow> [[x]] | part # parts \<Rightarrow> (x # part) # parts)"

fun find_sub :: "string \<Rightarrow> string \<Rightarrow> nat option" where
  "find_sub part [] = (if part = [] then Some 0 else None)"
| "find_sub part (x # xs) = (if take (length part) (x # xs) = part then Some 0 else map_option Suc (find_sub part xs))"

fun like_parts :: "string \<Rightarrow> string list \<Rightarrow> bool" where
  "like_parts s [] = True"
| "like_parts s (part # parts) =
     (if part = [] then like_parts s parts
      else case find_sub part s of None \<Rightarrow> False | Some idx \<Rightarrow> like_parts (drop (idx + length part) s) parts)"

definition like_match :: "string \<Rightarrow> string \<Rightarrow> bool" where
  "like_match s pattern = like_parts s (split_on CHR ''%'' pattern)"

section \<open>Filters\<close>

definition is_operator :: "string \<Rightarrow> bool" where
  "is_operator k \<longleftrightarrow> k \<in> {''$gt'', ''$gte'', ''$lt'', ''$lte'', ''$ne'', ''$in'', ''$like''}"

definition apply_operator :: "('n, 'd) world \<Rightarrow> 'n json \<Rightarrow> string \<Rightarrow> 'n json \<Rightarrow> bool" where
  "apply_operator w fv op operand =
     (if op = ''$gt'' then value_compare w fv operand = Greater
      else if op = ''$gte'' then value_compare w fv operand = Greater \<or> value_compare w fv operand = Equal
      else if op = ''$lt'' then value_compare w fv operand = Less
      else if op = ''$lte'' then value_compare w fv operand = Less \<or> value_compare w fv operand = Equal
      else if op = ''$ne'' then value_compare w fv operand \<noteq> Equal
      else if op = ''$in'' then (case operand of JArr items \<Rightarrow> fv \<in> set items | _ \<Rightarrow> False)
      else if op = ''$like'' then (case (fv, operand) of (JStr s, JStr pat) \<Rightarrow> like_match s pat | _ \<Rightarrow> False)
      else True)"

definition matches_expected :: "('n, 'd) world \<Rightarrow> 'n json option \<Rightarrow> 'n json \<Rightarrow> bool" where
  "matches_expected w field_val expected =
     (case expected of
        JObj ops \<Rightarrow>
          if list_ex (\<lambda>(k, _). is_operator k) ops
          then (case field_val of None \<Rightarrow> False | Some fv \<Rightarrow> list_all (\<lambda>(op, operand). apply_operator w fv op operand) ops)
          else field_val = Some expected
      | _ \<Rightarrow> field_val = Some expected)"

definition matches_filters :: "('n, 'd) world \<Rightarrow> (string \<times> 'n json) list \<Rightarrow> 'f memory_object \<Rightarrow> bool" where
  "matches_filters w filter' obj =
     (if filter' = [] then True
      else case w_parse w (mo_body obj) of
        None \<Rightarrow> False
      | Some body \<Rightarrow> list_all (\<lambda>(key, expected). matches_expected w (json_get body key) expected) filter')"

section \<open>Listing objects\<close>

datatype sort_direction = Asc | Desc

record sort_spec =
  so_field :: string
  so_direction :: sort_direction

record 'n list_objects_options =
  lo_filter :: "(string \<times> 'n json) list"
  lo_sort_by :: "sort_spec option"
  lo_offset :: "nat option"
  lo_limit :: "nat option"

text \<open>\<open>trim_start_matches('$')\<close>\<close>

definition trim_dollars :: "string \<Rightarrow> string" where
  "trim_dollars s = dropWhile (\<lambda>c. c = CHR ''$'') s"

definition compare_option :: "('a \<Rightarrow> 'a \<Rightarrow> ordering) \<Rightarrow> 'a option \<Rightarrow> 'a option \<Rightarrow> ordering" where
  "compare_option c a b =
     (case (a, b) of
        (Some a, Some b) \<Rightarrow> c a b
      | (Some _, None) \<Rightarrow> Greater
      | (None, Some _) \<Rightarrow> Less
      | (None, None) \<Rightarrow> Equal)"

definition compare_objects :: "('n, 'd) world \<Rightarrow> sort_spec \<Rightarrow> 'f memory_object \<Rightarrow> 'f memory_object \<Rightarrow> ordering" where
  "compare_objects w sort_by' a b =
     (let field = so_field sort_by';
          r = (if take 2 field = ''$.''
               then let path = trim_dollars field
                    in compare_option (value_compare w)
                         (Option.bind (w_parse w (mo_body a)) (\<lambda>v. json_get v path))
                         (Option.bind (w_parse w (mo_body b)) (\<lambda>v. json_get v path))
               else if field = ''id'' then cmp (ok_id (mo_key a)) (ok_id (mo_key b))
               else if field = ''collection'' then cmp (ok_collection (mo_key a)) (ok_collection (mo_key b))
               else if field = ''created_at'' then cmp (mo_created_at a) (mo_created_at b)
               else if field = ''updated_at'' then cmp (mo_updated_at a) (mo_updated_at b)
               else if field = ''version'' then cmp (mo_version a) (mo_version b)
               else Equal)
      in case so_direction sort_by' of Asc \<Rightarrow> r | Desc \<Rightarrow> reverse_ordering r)"

definition list_objects ::
    "('n, 'd) world \<Rightarrow> string list option \<Rightarrow> 'n list_objects_options \<Rightarrow> ('f, 'w) memory_engine \<Rightarrow> 'f memory_object list" where
  "list_objects w collections options e =
     (let objects = filter (matches_filters w (lo_filter options))
            (filter (\<lambda>obj. case collections of None \<Rightarrow> True | Some allowed \<Rightarrow> ok_collection (mo_key obj) \<in> set allowed)
               (map snd (me_objects e)));
          objects = (case lo_sort_by options of None \<Rightarrow> objects | Some sort_by' \<Rightarrow> sort_by (compare_objects w sort_by') objects);
          objects = (case lo_offset options of None \<Rightarrow> objects | Some offset \<Rightarrow> drop offset objects)
      in case lo_limit options of None \<Rightarrow> objects | Some limit \<Rightarrow> take limit objects)"

section \<open>Aggregates\<close>

datatype aggregate_function = Count | Sum | Avg | Min' | Max'

definition extract_field_str :: "('n, 'd) world \<Rightarrow> string \<Rightarrow> string \<Rightarrow> string" where
  "extract_field_str w body_str field =
     (case w_parse w body_str of
        None \<Rightarrow> []
      | Some body \<Rightarrow> (case json_get body field of Some (JStr s) \<Rightarrow> s | Some v \<Rightarrow> w_show w v | None \<Rightarrow> []))"

definition extract_field_f64 :: "('n, 'd) world \<Rightarrow> string \<Rightarrow> string \<Rightarrow> 'd option" where
  "extract_field_f64 w body_str field =
     (case w_parse w body_str of
        None \<Rightarrow> None
      | Some body \<Rightarrow> (case json_get body field of Some (JNum n) \<Rightarrow> w_as_f64 w n | Some (JStr s) \<Rightarrow> w_parse_f64 w s | _ \<Rightarrow> None))"

definition field_values :: "('n, 'd) world \<Rightarrow> string option \<Rightarrow> 'f memory_object list \<Rightarrow> 'd list" where
  "field_values w field objs =
     List.map_filter (\<lambda>o'. extract_field_f64 w (mo_body o') (case field of None \<Rightarrow> [] | Some f \<Rightarrow> f)) objs"

definition f64_sum :: "('n, 'd) world \<Rightarrow> 'd list \<Rightarrow> 'd" where
  "f64_sum w xs = foldl (w_add w) (w_zero w) xs"

definition compute_aggregate :: "('n, 'd) world \<Rightarrow> 'f memory_object list \<Rightarrow> aggregate_function \<Rightarrow> string option \<Rightarrow> 'd" where
  "compute_aggregate w objs function field =
     (case function of
        Count \<Rightarrow> w_of_usize w (length objs)
      | Sum \<Rightarrow> f64_sum w (field_values w field objs)
      | Avg \<Rightarrow> (let vals = field_values w field objs
               in if vals = [] then w_zero w else w_div w (f64_sum w vals) (w_of_usize w (length vals)))
      | Min' \<Rightarrow> foldl (w_min w) (w_infinity w) (field_values w field objs)
      | Max' \<Rightarrow> foldl (w_max w) (w_neg_infinity w) (field_values w field objs))"

record 'n aggregate_options =
  ao_filter :: "(string \<times> 'n json) list"
  ao_group_by :: "string option"
  ao_function :: aggregate_function
  ao_field :: "string option"

record 'd aggregate_result =
  ar_total :: 'd
  ar_groups :: "(string \<times> 'd) list"

definition matches_exactly :: "('n, 'd) world \<Rightarrow> (string \<times> 'n json) list \<Rightarrow> 'f memory_object \<Rightarrow> bool" where
  "matches_exactly w filter' obj =
     (if filter' = [] then True
      else case w_parse w (mo_body obj) of
        None \<Rightarrow> False
      | Some body \<Rightarrow> list_all (\<lambda>(key, expected). json_get body key = Some expected) filter')"

text \<open>Grouping in a hash map: an object is appended to the group of its key.\<close>

fun group_objects :: "('a \<Rightarrow> string) \<Rightarrow> 'a list \<Rightarrow> (string, 'a list) hmap \<Rightarrow> (string, 'a list) hmap" where
  "group_objects key [] groups = groups"
| "group_objects key (obj # objs) groups =
     group_objects key objs
       (hm_insert (key obj) ((case hm_get groups (key obj) of None \<Rightarrow> [] | Some g \<Rightarrow> g) @ [obj]) groups)"

definition grouped :: "('n, 'd) world \<Rightarrow> ('f memory_object \<Rightarrow> string) \<Rightarrow> aggregate_function \<Rightarrow> string option \<Rightarrow> 'f memory_object list
    \<Rightarrow> (string \<times> 'd) list" where
  "grouped w key function field objs =
     sort_by (\<lambda>a b. cmp (fst a) (fst b))
       (map (\<lambda>(k, g). (k, compute_aggregate w g function field)) (group_objects key objs []))"

definition aggregate :: "('n, 'd) world \<Rightarrow> string \<Rightarrow> 'n aggregate_options \<Rightarrow> ('f, 'w) memory_engine \<Rightarrow> 'd aggregate_result" where
  "aggregate w collection options e =
     (let objects = filter (matches_exactly w (ao_filter options))
            (filter (\<lambda>obj. ok_collection (mo_key obj) = collection) (map snd (me_objects e)))
      in case ao_group_by options of
        Some group_field \<Rightarrow>
          let results = grouped w (\<lambda>obj. extract_field_str w (mo_body obj) group_field) (ao_function options) (ao_field options) objects
          in \<lparr>ar_total = f64_sum w (map snd results), ar_groups = results\<rparr>
      | None \<Rightarrow> \<lparr>ar_total = compute_aggregate w objects (ao_function options) (ao_field options), ar_groups = []\<rparr>)"

datatype time_bucket = Hour | Day | Week | Month

fun strftime_format :: "time_bucket \<Rightarrow> string" where
  "strftime_format Hour = ''%Y-%m-%dT%H:00:00Z''"
| "strftime_format Day = ''%Y-%m-%d''"
| "strftime_format Week = ''%Y-W%W''"
| "strftime_format Month = ''%Y-%m''"

record 'n timeseries_options =
  ts_filter :: "(string \<times> 'n json) list"
  ts_bucket :: time_bucket
  ts_function :: aggregate_function
  ts_field :: "string option"
  ts_from :: "string option"
  ts_to :: "string option"

definition format_timestamp :: "('n, 'd) world \<Rightarrow> string \<Rightarrow> string \<Rightarrow> string" where
  "format_timestamp w ts format = (case w_format_timestamp w ts format of None \<Rightarrow> ts | Some s \<Rightarrow> s)"

definition in_range :: "string option \<Rightarrow> string option \<Rightarrow> string \<Rightarrow> bool" where
  "in_range from' to' ts \<longleftrightarrow>
     (case from' of None \<Rightarrow> True | Some f \<Rightarrow> \<not> ts < f) \<and> (case to' of None \<Rightarrow> True | Some t \<Rightarrow> \<not> ts \<ge> t)"

definition timeseries :: "('n, 'd) world \<Rightarrow> string \<Rightarrow> 'n timeseries_options \<Rightarrow> ('f, 'w) memory_engine \<Rightarrow> (string \<times> 'd) list" where
  "timeseries w collection options e =
     (let objects = filter (\<lambda>obj. in_range (ts_from options) (ts_to options) (mo_created_at obj))
            (filter (matches_exactly w (ts_filter options))
              (filter (\<lambda>obj. ok_collection (mo_key obj) = collection) (map snd (me_objects e))))
      in grouped w (\<lambda>obj. format_timestamp w (mo_created_at obj) (strftime_format (ts_bucket options)))
           (ts_function options) (ts_field options) objects)"

end
