(* ===== verification/Memory_Search.thy ===== *)
theory Memory_Search
  imports Memory_Query
begin

text \<open>
  Search, vector search and schema inference of the in-memory engine
  (\<open>crates/thingd/src/in_memory.rs\<close>, \<open>cosine_similarity\<close> of \<open>lib.rs\<close>). The Unicode tables behind
  \<open>to_lowercase\<close>, \<open>split_whitespace\<close> and \<open>is_alphanumeric\<close> and the \<open>f32\<close> arithmetic are parameters.
  The vectors are kept in a hash map, whose order of iteration is not specified: the list order of
  the model stands for any of them.
\<close>

record unicode =
  u_lower :: "string \<Rightarrow> string"
  u_words :: "string \<Rightarrow> string list"
  u_alphanumeric :: "string \<Rightarrow> string"

record ('f, 'd) f32_ops =
  f_zero :: 'f
  f_add :: "'f \<Rightarrow> 'f \<Rightarrow> 'f"
  f_mul :: "'f \<Rightarrow> 'f \<Rightarrow> 'f"
  f_div :: "'f \<Rightarrow> 'f \<Rightarrow> 'f"
  f_sqrt :: "'f \<Rightarrow> 'f"
  f_eq :: "'f \<Rightarrow> 'f \<Rightarrow> bool"
  f_to_f64 :: "'f \<Rightarrow> 'd"

section \<open>Metadata filters\<close>

definition matches_filter_memory :: "('n, 'd) world \<Rightarrow> string \<Rightarrow> 'n json \<Rightarrow> bool" where
  "matches_filter_memory w body_str filter' =
     (case w_parse w body_str of
        None \<Rightarrow> False
      | Some body \<Rightarrow> (case filter' of JObj filter_obj \<Rightarrow> list_all (\<lambda>(k, v). json_get body k = Some v) filter_obj | _ \<Rightarrow> True))"

section \<open>Text search\<close>

record 'n search_options =
  se_collections :: "string list option"
  se_limit :: "nat option"
  se_filter :: "'n json option"

record 'd search_hit =
  sh_kind :: string
  sh_collection :: string
  sh_id :: string
  sh_text :: string
  sh_score :: 'd
  sh_body :: string
  sh_version :: "u64 option"
  sh_created_at :: string
  sh_updated_at :: "string option"
  sh_event_type :: "string option"

definition contains :: "string \<Rightarrow> string \<Rightarrow> bool" where
  "contains text word \<longleftrightarrow> find_sub word text \<noteq> None"

definition query_words :: "unicode \<Rightarrow> string \<Rightarrow> string list" where
  "query_words u query = filter (\<lambda>w. w \<noteq> []) (map (\<lambda>w. u_alphanumeric u (u_lower u w)) (u_words u query))"

definition in_collections :: "string list option \<Rightarrow> string \<Rightarrow> bool" where
  "in_collections collections c = (case collections of None \<Rightarrow> True | Some cs \<Rightarrow> c \<in> set cs)"

definition passes_filter :: "('n, 'd) world \<Rightarrow> 'n json option \<Rightarrow> string \<Rightarrow> bool" where
  "passes_filter w filter' body = (case filter' of None \<Rightarrow> True | Some f \<Rightarrow> matches_filter_memory w body f)"

definition object_hit :: "('n, 'd) world \<Rightarrow> unicode \<Rightarrow> 'n search_options \<Rightarrow> string list \<Rightarrow> 'f memory_object \<Rightarrow> 'd search_hit option" where
  "object_hit w u options words obj =
     (let collection = ok_collection (mo_key obj); i = ok_id (mo_key obj);
          text = u_lower u (collection @ '' '' @ i @ '' '' @ mo_body obj)
      in if in_collections (se_collections options) collection \<and> passes_filter w (se_filter options) (mo_body obj)
            \<and> list_all (contains text) words
         then Some \<lparr>sh_kind = ''object'', sh_collection = collection, sh_id = i, sh_text = mo_body obj, sh_score = w_of_usize w 1,
           sh_body = mo_body obj, sh_version = Some (mo_version obj), sh_created_at = mo_created_at obj,
           sh_updated_at = Some (mo_updated_at obj), sh_event_type = None\<rparr>
         else None)"

definition event_hit :: "('n, 'd) world \<Rightarrow> unicode \<Rightarrow> 'n search_options \<Rightarrow> string list \<Rightarrow> memory_event \<Rightarrow> 'd search_hit option" where
  "event_hit w u options words ev =
     (let text = u_lower u (ev_stream ev @ '' '' @ ev_type ev @ '' '' @ ev_body ev)
      in if in_collections (se_collections options) (ev_stream ev) \<and> passes_filter w (se_filter options) (ev_body ev)
            \<and> list_all (contains text) words
         then Some \<lparr>sh_kind = ''event'', sh_collection = ev_stream ev, sh_id = decimal (unat (ev_sequence ev)), sh_text = ev_body ev,
           sh_score = w_of_usize w 1, sh_body = ev_body ev, sh_version = None, sh_created_at = ev_created_at ev,
           sh_updated_at = None, sh_event_type = Some (ev_type ev)\<rparr>
         else None)"

definition search :: "('n, 'd) world \<Rightarrow> unicode \<Rightarrow> string \<Rightarrow> 'n search_options \<Rightarrow> ('f, 'w) memory_engine \<Rightarrow> 'd search_hit list" where
  "search w u query options e =
     (let words = query_words u query
      in if words = [] then []
         else let hits = List.map_filter (object_hit w u options words) (map snd (me_objects e))
                       @ List.map_filter (event_hit w u options words) (me_events e)
              in case se_limit options of None \<Rightarrow> hits | Some limit \<Rightarrow> take limit hits)"

section \<open>Vector search\<close>

definition f32_sum :: "('f, 'd) f32_ops \<Rightarrow> 'f list \<Rightarrow> 'f" where
  "f32_sum f xs = foldl (f_add f) (f_zero f) xs"

definition cosine_similarity :: "('n, 'd) world \<Rightarrow> ('f, 'd) f32_ops \<Rightarrow> 'f list \<Rightarrow> 'f list \<Rightarrow> 'd" where
  "cosine_similarity w f a b =
     (if length a \<noteq> length b \<or> a = [] then w_zero w
      else let dot = f32_sum f (map (\<lambda>(x, y). f_mul f x y) (zip a b));
               norm_a = f_sqrt f (f32_sum f (map (\<lambda>x. f_mul f x x) a));
               norm_b = f_sqrt f (f32_sum f (map (\<lambda>x. f_mul f x x) b))
           in if f_eq f norm_a (f_zero f) \<or> f_eq f norm_b (f_zero f) then w_zero w
              else f_to_f64 f (f_div f dot (f_mul f norm_a norm_b)))"

record ('f, 'd) vector_hit =
  vh_id :: string
  vh_score :: 'd
  vh_value :: "'f memory_object"

fun collect_hits ::
    "('n, 'd) world \<Rightarrow> ('f, 'd) f32_ops \<Rightarrow> string \<Rightarrow> 'f list \<Rightarrow> 'n json option \<Rightarrow> ('f, 'w) memory_engine
      \<Rightarrow> (string \<times> string, 'f list) hmap \<Rightarrow> ('f, 'd) vector_hit list thingd_result" where
  "collect_hits w f collection query filter' e [] = Ok []"
| "collect_hits w f collection query filter' e (((col, i), vec) # vecs) =
     (if col \<noteq> collection then collect_hits w f collection query filter' e vecs
      else case bm_get (me_objects e) (ObjectKey col i) of
        None \<Rightarrow> collect_hits w f collection query filter' e vecs
      | Some obj \<Rightarrow>
          if length vec \<noteq> length query
          then Err (InvalidInput (''query vector dimension '' @ decimal (length query) @ '' does not match stored vector dimension '' @ decimal (length vec)))
          else if \<not> passes_filter w filter' (mo_body obj) then collect_hits w f collection query filter' e vecs
          else and_then (collect_hits w f collection query filter' e vecs) (\<lambda>hits.
            Ok (\<lparr>vh_id = i, vh_score = cosine_similarity w f query vec, vh_value = obj\<rparr> # hits)))"

definition compare_hits :: "('n, 'd) world \<Rightarrow> ('f, 'd) vector_hit \<Rightarrow> ('f, 'd) vector_hit \<Rightarrow> ordering" where
  "compare_hits w a b = (case w_partial_cmp w (vh_score b) (vh_score a) of Some r \<Rightarrow> r | None \<Rightarrow> Equal)"

definition vector_search ::
    "('n, 'd) world \<Rightarrow> ('f, 'd) f32_ops \<Rightarrow> string \<Rightarrow> 'f list \<Rightarrow> nat option \<Rightarrow> 'n json option \<Rightarrow> ('f, 'w) memory_engine
      \<Rightarrow> ('f, 'd) vector_hit list thingd_result" where
  "vector_search w f collection query top_k filter' e =
     (if query = [] then Err (InvalidInput ''query vector must not be empty'')
      else and_then (collect_hits w f collection query filter' e (me_vectors e)) (\<lambda>hits.
        let hits = sort_by (compare_hits w) hits
        in Ok (case top_k of None \<Rightarrow> hits | Some k \<Rightarrow> take k hits)))"

definition add_vector :: "string \<Rightarrow> string \<Rightarrow> 'f list \<Rightarrow> ('f, 'w, unit) mem" where
  "add_vector collection id' vector e = (Ok (), e\<lparr>me_vectors := hm_insert (collection, id') vector (me_vectors e)\<rparr>)"

definition remove_vector :: "string \<Rightarrow> string \<Rightarrow> ('f, 'w, unit) mem" where
  "remove_vector collection id' e = (Ok (), e\<lparr>me_vectors := hm_remove (collection, id') (me_vectors e)\<rparr>)"

section \<open>Schema inference\<close>

definition infer_json_type :: "('n, 'd) world \<Rightarrow> 'n json \<Rightarrow> string" where
  "infer_json_type w v =
     (case v of
        JNull \<Rightarrow> ''null''
      | JBool _ \<Rightarrow> ''boolean''
      | JNum _ \<Rightarrow> ''number''
      | JStr s \<Rightarrow> if length s > 10 \<and> (CHR ''T'' \<in> set s \<or> CHR ''-'' \<in> set s) \<and> w_is_rfc3339 w s then ''date'' else ''string''
      | JArr _ \<Rightarrow> ''array''
      | JObj _ \<Rightarrow> ''object'')"

record 'n field_schema =
  fs_type :: string
  fs_nullable :: bool
  fs_samples :: "'n json list"

definition infer_value :: "('n, 'd) world \<Rightarrow> 'n json \<Rightarrow> 'n field_schema \<Rightarrow> 'n field_schema" where
  "infer_value w v entry =
     \<lparr>fs_type = (if fs_type entry \<noteq> infer_json_type w v \<and> v \<noteq> JNull then ''unknown'' else fs_type entry),
      fs_nullable = (fs_nullable entry \<or> v = JNull),
      fs_samples = (if length (fs_samples entry) < 3 \<and> v \<noteq> JNull then fs_samples entry @ [v] else fs_samples entry)\<rparr>"

fun infer_entries :: "('n, 'd) world \<Rightarrow> (string \<times> 'n json) list \<Rightarrow> (string, 'n field_schema) btree \<Rightarrow> (string, 'n field_schema) btree" where
  "infer_entries w [] field_map = field_map"
| "infer_entries w ((key, v) # entries) field_map =
     (let entry = (case bm_get field_map key of Some entry \<Rightarrow> entry | None \<Rightarrow> \<lparr>fs_type = infer_json_type w v, fs_nullable = False, fs_samples = []\<rparr>)
      in infer_entries w entries (bm_insert key (infer_value w v entry) field_map))"

fun infer_fields :: "('n, 'd) world \<Rightarrow> 'f memory_object list \<Rightarrow> (string, 'n field_schema) btree \<Rightarrow> (string, 'n field_schema) btree" where
  "infer_fields w [] field_map = field_map"
| "infer_fields w (obj # objs) field_map =
     infer_fields w objs (case w_parse w (mo_body obj) of Some (JObj m) \<Rightarrow> infer_entries w m field_map | _ \<Rightarrow> field_map)"

record 'n collection_schema =
  cs_name :: string
  cs_object_count :: nat
  cs_fields :: "(string, 'n field_schema) btree"

definition collection_schema_of :: "('n, 'd) world \<Rightarrow> nat option \<Rightarrow> ('f, 'w) memory_engine \<Rightarrow> string \<Rightarrow> 'n collection_schema option" where
  "collection_schema_of w sample_size e name =
     (let objects = filter (\<lambda>obj. ok_collection (mo_key obj) = name) (map snd (me_objects e))
      in if objects = [] then None
         else Some \<lparr>cs_name = name, cs_object_count = length objects,
           cs_fields = infer_fields w (take (case sample_size of None \<Rightarrow> 50 | Some n \<Rightarrow> n) objects) []\<rparr>)"

definition schema :: "('n, 'd) world \<Rightarrow> string option \<Rightarrow> nat option \<Rightarrow> ('f, 'w) memory_engine \<Rightarrow> 'n collection_schema list" where
  "schema w collection sample_size e =
     List.map_filter (collection_schema_of w sample_size e)
       (case collection of Some name \<Rightarrow> [name] | None \<Rightarrow> list_collections e)"

section \<open>What is inferred\<close>

text \<open>The values the sampled documents hold for a field, in the order of the documents.\<close>

definition field_values_of :: "('n, 'd) world \<Rightarrow> string \<Rightarrow> 'f memory_object list \<Rightarrow> 'n json list" where
  "field_values_of w key objs =
     List.map_filter (\<lambda>obj. case w_parse w (mo_body obj) of Some (JObj m) \<Rightarrow> bm_get m key | _ \<Rightarrow> None) objs"

text \<open>The entry of a field after a first and further values.\<close>

definition first_entry :: "('n, 'd) world \<Rightarrow> 'n json \<Rightarrow> 'n field_schema" where
  "first_entry w v = \<lparr>fs_type = infer_json_type w v, fs_nullable = False, fs_samples = []\<rparr>"

definition infer_values :: "('n, 'd) world \<Rightarrow> 'n field_schema option \<Rightarrow> 'n json list \<Rightarrow> 'n field_schema option" where
  "infer_values w entry vs =
     (case vs of [] \<Rightarrow> entry
      | v # _ \<Rightarrow> Some (fold (infer_value w) vs (case entry of None \<Rightarrow> first_entry w v | Some en \<Rightarrow> en)))"

lemma infer_values_append: "infer_values w (infer_values w entry us) vs = infer_values w entry (us @ vs)"
  by (cases us; cases vs) (simp_all add: infer_values_def)

lemma infer_entries_get:
  assumes "bm_ok m"
  shows "bm_get (infer_entries w m fm) key = infer_values w (bm_get fm key) (case bm_get m key of None \<Rightarrow> [] | Some v \<Rightarrow> [v])"
  using assms
proof (induction w m fm rule: infer_entries.induct)
  case (2 w k v m fm)
  have "bm_get m key = None" if "k = key"
    using 2(2) that by (force simp: bm_get_None_iff)
  then show ?case
    using 2 by (cases "k = key") (auto simp: infer_values_def first_entry_def Let_def split: option.split)
qed (simp add: infer_values_def)

lemma infer_fields_get:
  assumes "\<forall>obj \<in> set objs. \<forall>m. w_parse w (mo_body obj) = Some (JObj m) \<longrightarrow> bm_ok m"
  shows "bm_get (infer_fields w objs fm) key = infer_values w (bm_get fm key) (field_values_of w key objs)"
  using assms
proof (induction w objs fm rule: infer_fields.induct)
  case (1 w fm)
  then show ?case
    by (simp add: infer_values_def field_values_of_def map_filter_simps)
next
  case (2 w obj objs fm)
  let ?vs = "case w_parse w (mo_body obj) of Some (JObj m) \<Rightarrow> (case bm_get m key of None \<Rightarrow> [] | Some v \<Rightarrow> [v]) | _ \<Rightarrow> []"
  let ?fm = "case w_parse w (mo_body obj) of Some (JObj m) \<Rightarrow> infer_entries w m fm | _ \<Rightarrow> fm"
  have first: "bm_get ?fm key = infer_values w (bm_get fm key) ?vs"
    using 2(2) by (auto simp: infer_entries_get infer_values_def split: option.split json.split)
  have "field_values_of w key (obj # objs) = ?vs @ field_values_of w key objs"
    by (simp add: field_values_of_def map_filter_simps split: option.split json.split)
  then show ?case
    using 2 by (simp only: infer_fields.simps first infer_values_append) simp
qed

lemma fold_infer_value:
  "fs_nullable (fold (infer_value w) vs entry) = (fs_nullable entry \<or> JNull \<in> set vs)"
  "length (fs_samples entry) \<le> 3 \<Longrightarrow>
     fs_samples (fold (infer_value w) vs entry) = take 3 (fs_samples entry @ filter (\<lambda>v. v \<noteq> JNull) vs)"
proof -
  show "fs_nullable (fold (infer_value w) vs entry) = (fs_nullable entry \<or> JNull \<in> set vs)"
    by (induction vs arbitrary: entry) (auto simp: infer_value_def)
  show "length (fs_samples entry) \<le> 3 \<Longrightarrow>
     fs_samples (fold (infer_value w) vs entry) = take 3 (fs_samples entry @ filter (\<lambda>v. v \<noteq> JNull) vs)"
  proof (induction vs arbitrary: entry)
    case (Cons v vs)
    show ?case
    proof (cases "length (fs_samples entry) < 3")
      case True
      then show ?thesis
        using Cons.IH [of "infer_value w v entry"] by (auto simp: infer_value_def take_Cons')
    next
      case False
      then show ?thesis
        using Cons.IH [of "infer_value w v entry"] Cons.prems by (auto simp: infer_value_def)
    qed
  qed simp
qed

lemma fold_infer_type:
  "fs_type (fold (infer_value w) vs entry) =
     (if list_all (\<lambda>v. v = JNull \<or> infer_json_type w v = fs_type entry) vs then fs_type entry else ''unknown'')"
proof (induction vs arbitrary: entry)
  case (Cons v vs)
  have "infer_json_type w u \<noteq> ''unknown''" for u
    by (simp add: infer_json_type_def split: json.split)
  then show ?case
    using Cons.IH [of "infer_value w v entry"] by (auto simp: infer_value_def list_all_iff)
qed simp

section \<open>The properties\<close>


definition two_docs :: "(nat, nat) world" where
  "two_docs = \<lparr>w_parse = (\<lambda>s. if s = ''a'' then Some (JObj [(''n'', JNull)]) else if s = ''b'' then Some (JObj [(''n'', JNum 1)]) else None),
     w_show = (\<lambda>v. []), w_as_f64 = Some, w_parse_f64 = (\<lambda>s. None), w_partial_cmp = (\<lambda>a b. Some (cmp a b)),
     w_zero = 0, w_add = (+), w_div = (div), w_of_usize = id, w_infinity = 1000, w_neg_infinity = 0, w_min = min, w_max = max,
     w_format_timestamp = (\<lambda>s f. None), w_is_rfc3339 = (\<lambda>s. False)\<rparr>"

definition doc :: "string \<Rightarrow> unit memory_object" where
  "doc i = new_object ''c'' i i"


text \<open>
  Inference depends on the order of the documents. The same two documents, one with a number and one with
  null for a field, give the type number when the number comes first and unknown when the null
  does.
\<close>

theorem schema_inference_order_dependent:
  "map_option fs_type (bm_get (infer_fields two_docs [doc ''b'', doc ''a''] []) ''n'') = Some ''number''
   \<and> map_option fs_type (bm_get (infer_fields two_docs [doc ''a'', doc ''b''] []) ''n'') = Some ''unknown''"
  by (simp add: two_docs_def doc_def new_object_def infer_value_def infer_json_type_def Let_def)

section \<open>Vector hits\<close>

text \<open>When scores compare as a total order, the hits come in descending order of their score.\<close>

lemma compare_hits_total:
  assumes "\<forall>a b. \<exists>r. w_partial_cmp w a b = Some r \<and> w_partial_cmp w b a = Some (reverse_ordering r)"
    "\<forall>a b c. w_partial_cmp w a b \<noteq> Some Greater \<longrightarrow> w_partial_cmp w b c \<noteq> Some Greater \<longrightarrow> w_partial_cmp w a c \<noteq> Some Greater"
  shows "total_comparison (\<lambda>x. True) (compare_hits w :: ('f, 'd) vector_hit \<Rightarrow> _)"
proof
  fix x y z :: "('f, 'd) vector_hit"
  show "compare_hits w y x = reverse_ordering (compare_hits w x y)"
    using assms(1) unfolding compare_hits_def by (metis option.case(2))
  have some: "compare_hits w a b = Greater \<longleftrightarrow> w_partial_cmp w (vh_score b) (vh_score a) = Some Greater" for a b :: "('f, 'd) vector_hit"
    by (simp add: compare_hits_def split: option.split)
  show "compare_hits w x z \<noteq> Greater" if "compare_hits w x y \<noteq> Greater" "compare_hits w y z \<noteq> Greater"
    using that assms(2) unfolding some by blast
qed

lemma vector_search_sorted:
  assumes "\<forall>a b. \<exists>r. w_partial_cmp w a b = Some r \<and> w_partial_cmp w b a = Some (reverse_ordering r)"
    "\<forall>a b c. w_partial_cmp w a b \<noteq> Some Greater \<longrightarrow> w_partial_cmp w b c \<noteq> Some Greater \<longrightarrow> w_partial_cmp w a c \<noteq> Some Greater"
    and hits: "vector_search w f collection query top_k filter' e = Ok hits"
  shows "sorted_wrt (\<lambda>a b. w_partial_cmp w (vh_score b) (vh_score a) \<noteq> Some Greater) hits"
proof -
  obtain all where "hits = (case top_k of None \<Rightarrow> sort_by (compare_hits w) all | Some k \<Rightarrow> take k (sort_by (compare_hits w) all))"
    using hits by (auto simp: vector_search_def and_then_eq_Ok Let_def split: if_splits)
  moreover have "sorted_wrt (\<lambda>a b. compare_hits w a b \<noteq> Greater) (sort_by (compare_hits w) all)"
    by (rule total_comparison.sorted_sort_by [OF compare_hits_total [OF assms(1,2)]]) simp
  then have "sorted_wrt (\<lambda>a b. w_partial_cmp w (vh_score b) (vh_score a) \<noteq> Some Greater) (sort_by (compare_hits w) all)"
    by (rule sorted_wrt_mono_rel [rotated]) (auto simp: compare_hits_def)
  ultimately show ?thesis
    by (auto simp: sorted_wrt_take split: option.splits)
qed

end
