(* ===== verification/Memory_Engine.thy ===== *)
theory Memory_Engine
  imports Memory_Versions Memory_Events Queue_Properties Memory_Links Memory_Search
begin

text \<open>
  The in-memory engine as a whole: the calls of all its stores in any order. Every call leaves the
  stores it does not concern alone, so that the invariants of the stores hold together in every
  state the engine reaches.
\<close>

section \<open>Calls\<close>

datatype 'f object_call =
  PutObject string "'f memory_object" | PutObjectWithOptions string "'f memory_object" put_object_options
| PutObjectWithSourceMetadata string "'f memory_object" put_object_options | PutObjectsBatch "(string \<times> 'f memory_object) list"
| DeleteObject string string | DeleteObjectsBatch "(string \<times> string) list"
| CreateIndexDefinition index_definition | DeleteIndex string string
| AddVector string string "'f list" | RemoveVector string string
| PutSchemaDocument stored_schema | RecordMigration migration_record

fun object_step :: "(string \<Rightarrow> 'n json option) \<Rightarrow> 'f object_call \<Rightarrow> ('f, 'w) memory_engine \<Rightarrow> ('f, 'w) memory_engine" where
  "object_step parse (PutObject now obj) e = snd (put_object parse now obj e)"
| "object_step parse (PutObjectWithOptions now obj options) e = snd (put_object_with_options parse now obj options e)"
| "object_step parse (PutObjectWithSourceMetadata now obj options) e = snd (put_object_with_source_metadata parse now obj options e)"
| "object_step parse (PutObjectsBatch objs) e = snd (put_objects_batch parse objs e)"
| "object_step parse (DeleteObject c i) e = snd (delete_object c i e)"
| "object_step parse (DeleteObjectsBatch keys) e = snd (delete_objects_batch keys e)"
| "object_step parse (CreateIndexDefinition index) e = snd (create_index_definition parse index e)"
| "object_step parse (DeleteIndex c f) e = snd (delete_index c f e)"
| "object_step parse (AddVector c i v) e = snd (add_vector c i v e)"
| "object_step parse (RemoveVector c i) e = snd (remove_vector c i e)"
| "object_step parse (PutSchemaDocument s) e = snd (put_schema_document s e)"
| "object_step parse (RecordMigration m) e = snd (record_migration m e)"

datatype ('f, 'w) engine_call =
  ObjectCall "'f object_call" | EventCall event_call | QueueCall queue_call | LinkCall "'w link_call"

fun engine_step :: "(string \<Rightarrow> 'n json option) \<Rightarrow> ('f, 'w) engine_call \<Rightarrow> ('f, 'w) memory_engine \<Rightarrow> ('f, 'w) memory_engine" where
  "engine_step parse (ObjectCall c) e = object_step parse c e"
| "engine_step parse (EventCall c) e = event_step c e"
| "engine_step parse (QueueCall c) e = queue_step c e"
| "engine_step parse (LinkCall c) e = link_step c e"

fun engine_cost :: "('f, 'w) engine_call \<Rightarrow> nat" where
  "engine_cost (ObjectCall c) = 0"
| "engine_cost (EventCall c) = event_cost c"
| "engine_cost (QueueCall c) = 0"
| "engine_cost (LinkCall c) = link_cost c"

section \<open>What a call leaves alone\<close>

definition objects_part :: "('f, 'w) memory_engine \<Rightarrow> (object_key, 'f memory_object) btree \<times> (string \<times> string, index_definition) btree" where
  "objects_part e = (me_objects e, me_indexes e)"

definition events_part :: "('f, 'w) memory_engine \<Rightarrow> memory_event list \<times> u64 \<times> (string \<times> string, u64) hmap" where
  "events_part e = (me_events e, me_next_event_sequence e, me_event_idempotency_keys e)"

definition links_part :: "('f, 'w) memory_engine \<Rightarrow> 'w link list \<times> u64" where
  "links_part e = (me_links e, me_next_link_id e)"

lemmas parts = objects_part_def events_part_def links_part_def

lemma parts_cong:
  "objects_part e' = objects_part e \<Longrightarrow> objects_ok parse e' = objects_ok parse e"
  "events_part e' = events_part e \<Longrightarrow> events_ok n e' = events_ok n e"
  "me_queues e' = me_queues e \<Longrightarrow> queues_ok e' = queues_ok e"
  "links_part e' = links_part e \<Longrightarrow> links_ok n e' = links_ok n e"
  by (simp_all add: parts objects_ok_def unique_in_def events_ok_def queues_ok_def queue_jobs_def links_ok_def)

text \<open>The parts outside the objects, of the events, of the queues and of the links.\<close>

abbreviation not_objects :: "('f, 'w) memory_engine \<Rightarrow> _" where
  "not_objects e \<equiv> (events_part e, me_queues e, links_part e)"

abbreviation not_events :: "('f, 'w) memory_engine \<Rightarrow> _" where
  "not_events e \<equiv> (objects_part e, me_queues e, links_part e)"

abbreviation not_queues :: "('f, 'w) memory_engine \<Rightarrow> _" where
  "not_queues e \<equiv> (objects_part e, events_part e, links_part e)"

abbreviation not_links :: "('f, 'w) memory_engine \<Rightarrow> _" where
  "not_links e \<equiv> (objects_part e, events_part e, me_queues e)"

lemma put_object_frame: "not_objects (snd (put_object parse now obj e)) = not_objects e"
  by (simp add: put_object_def parts Let_def split: sum.split)

lemma put_batch_frame: "not_objects (snd (put_objects_batch parse objs e)) = not_objects e"
proof (induction objs arbitrary: e)
  case (Cons p objs)
  obtain now obj where p: "p = (now, obj)"
    by (cases p)
  show ?case
    using put_object_frame [of parse now obj e] Cons.IH [of "snd (put_object parse now obj e)"]
    by (auto simp: p st_then_def split: prod.split sum.split)
qed simp

lemma delete_batch_frame: "not_objects (snd (delete_objects_batch keys e)) = not_objects e"
proof (induction keys arbitrary: e)
  case (Cons p keys)
  obtain c i where p: "p = (c, i)"
    by (cases p)
  show ?case
    using Cons.IH [of "snd (delete_object c i e)"]
    by (auto simp: p st_then_def delete_object_def parts split: prod.split sum.split)
qed simp

lemma object_frame: "not_objects (object_step parse c e) = not_objects e"
proof (cases c)
  case (PutObjectWithSourceMetadata now obj options)
  then show ?thesis
    using put_object_frame [of parse now obj e]
    by (auto simp: put_object_with_source_metadata_def st_then_def store_replicated_def parts Let_def split: option.split prod.split sum.split)
next
  case (PutObjectWithOptions now obj options)
  then show ?thesis
    using put_object_frame [of parse now obj e] by (simp add: put_object_with_options_def Let_def split: option.split)
next
  case (CreateIndexDefinition index)
  then show ?thesis
    by (cases rule: create_index_cases [where parse = parse and index = index and e = e]) (simp_all add: parts)
qed (simp_all add: put_object_frame [unfolded parts prod.inject] put_batch_frame [unfolded parts prod.inject]
    delete_batch_frame [unfolded parts prod.inject] delete_object_def delete_index_def add_vector_def
    remove_vector_def put_schema_document_def record_migration_def parts)

lemma append_event_frame: "not_events (snd (append_event now ev e)) = not_events e"
  by (simp add: append_event_def parts Let_def split: option.split)

lemma append_batch_frame: "not_events (snd (append_events_batch evs e)) = not_events e"
proof (induction evs arbitrary: e)
  case (Cons p evs)
  obtain now ev where p: "p = (now, ev)"
    by (cases p)
  show ?case
    using append_event_frame [of now ev e] Cons.IH [of "snd (append_event now ev e)"]
    by (auto simp: p st_then_def split: prod.split sum.split)
qed simp

lemma event_frame: "not_events (event_step c e) = not_events e"
  by (cases c) (simp_all add: append_event_frame [unfolded parts prod.inject] append_batch_frame [unfolded parts prod.inject] delete_last_event_def delete_stream_def parts Let_def split: prod.split)

lemma link_frame: "not_links (link_step c e) = not_links e"
  by (cases c) (simp_all add: create_link_def import_link_def delete_link_def parts Let_def split: option.split)

text \<open>Queue calls change nothing but the queues.\<close>

lemma queue_frames:
  "not_queues (snd (push_job job e)) = not_queues e"
  "not_queues (snd (claim_job_with_options now0 now queue lease_ms e)) = not_queues e"
  "not_queues (snd (claim_jobs_with_options now0 now queue lease_ms limit e)) = not_queues e"
  "not_queues (snd (ack_job now queue i e)) = not_queues e"
  "not_queues (snd (ack_jobs now queue ids e)) = not_queues e"
  "not_queues (snd (nack_job_with_options now queue i options e)) = not_queues e"
  by (simp_all add: push_job_def claim_job_with_options_def claim_jobs_with_options_def release_expired_leases_def ack_job_def
      replace_job_def ack_jobs_def nack_job_with_options_def parts Let_def split: option.split prod.split sum.split)

lemma claim_and_ack_frame: "not_queues (snd (claim_and_ack now0 now now' queue lease_ms e)) = not_queues e"
proof (cases "claim_job_with_options now0 now queue lease_ms e")
  case (Pair r e1)
  then show ?thesis
    using queue_frames(2) [of now0 now queue lease_ms e] queue_frames(4) [of now' queue _ e1]
    by (cases r) (auto simp: claim_and_ack_def st_then_def split: option.split)
qed

lemma claim_and_ack_batch_frame: "not_queues (snd (claim_and_ack_batch rounds queue lease_ms e)) = not_queues e"
proof (induction rounds arbitrary: e)
  case (Cons r rounds)
  obtain now0 now now' where r: "r = (now0, now, now')"
    by (cases r)
  obtain res e1 where c: "claim_and_ack now0 now now' queue lease_ms e = (res, e1)"
    by (cases "claim_and_ack now0 now now' queue lease_ms e")
  show ?case
    using claim_and_ack_frame [of now0 now now' queue lease_ms e] Cons.IH [of e1] c
    by (auto simp: r st_then_def split: sum.split option.split prod.split)
qed simp

lemma push_batch_frame: "not_queues (snd (push_jobs_batch jobs e)) = not_queues e"
proof (induction jobs arbitrary: e)
  case (Cons job jobs)
  obtain res e1 where c: "push_job job e = (res, e1)"
    by (cases "push_job job e")
  show ?case
    using queue_frames(1) [of job e] Cons.IH [of e1] c by (auto simp: st_then_def split: sum.split prod.split)
qed simp

lemma queue_frame: "not_queues (queue_step c e) = not_queues e"
  by (cases c) (simp_all only: queue_step.simps queue_frames claim_and_ack_frame claim_and_ack_batch_frame push_batch_frame)

section \<open>The invariant of the engine\<close>

definition memory_ok :: "(string \<Rightarrow> 'n json option) \<Rightarrow> nat \<Rightarrow> ('f, 'w) memory_engine \<Rightarrow> bool" where
  "memory_ok parse n e \<longleftrightarrow> objects_ok parse e \<and> events_ok n e \<and> queues_ok e \<and> links_ok n e"

lemma memory_ok_new: "memory_ok parse n new_engine \<longleftrightarrow> n < 2 ^ 64"
proof -
  have "objects_ok parse new_engine"
    by (simp add: objects_ok_def new_engine_def)
  then show ?thesis
    by (auto simp: memory_ok_def events_ok_new links_ok_new queues_ok_new)
qed

lemma objects_ok_other:
  "objects_ok parse (snd (add_vector c i v e)) = objects_ok parse e"
  "objects_ok parse (snd (remove_vector c i e)) = objects_ok parse e"
  "objects_ok parse (snd (put_schema_document s e)) = objects_ok parse e"
  "objects_ok parse (snd (record_migration m e)) = objects_ok parse e"
  by (rule parts_cong(1); simp add: add_vector_def remove_vector_def put_schema_document_def record_migration_def parts)+

lemma objects_ok_step: "objects_ok parse e \<Longrightarrow> objects_ok parse (object_step parse c e)"
  by (cases c) (simp_all add: objects_ok_put objects_ok_options objects_ok_source objects_ok_put_batch objects_ok_delete
      objects_ok_delete_batch objects_ok_create_index objects_ok_delete_index objects_ok_other)

lemma memory_ok_step:
  assumes ok: "memory_ok parse (engine_cost c + n) e"
  shows "memory_ok parse n (engine_step parse c e)"
proof -
  have o: "objects_ok parse e" and q: "queues_ok e" and ev: "events_ok (engine_cost c + n) e" and l: "links_ok (engine_cost c + n) e"
    using ok by (simp_all add: memory_ok_def)
  have ev': "events_ok n e" and l': "links_ok n e"
    using events_ok_less [OF ev] links_ok_less [OF l] by simp_all
  show ?thesis
  proof (cases c)
    case (ObjectCall c')
    then show ?thesis
      using objects_ok_step [OF o] object_frame [of parse c' e] parts_cong(2-4) [of "object_step parse c' e" e] q ev' l'
      by (simp add: memory_ok_def)
  next
    case (EventCall c')
    then show ?thesis
      using el.step_inv [of c' n e] event_frame [of c' e] parts_cong(1) [where parse = parse and e' = "event_step c' e" and e = e]
        parts_cong(3,4) [of "event_step c' e" e] o q ev l'
      by (simp add: memory_ok_def)
  next
    case (QueueCall c')
    then show ?thesis
      using progress_step [OF q, of c'] queue_frame [of c' e] parts_cong(1) [where parse = parse and e' = "queue_step c' e" and e = e]
        parts_cong(2,4) [of "queue_step c' e" e] o ev' l'
      by (simp add: memory_ok_def)
  next
    case (LinkCall c')
    then show ?thesis
      using lk.step_inv [of c' n e] link_frame [of c' e] parts_cong(1) [where parse = parse and e' = "link_step c' e" and e = e]
        parts_cong(2,3) [of "link_step c' e" e] o q ev' l
      by (simp add: memory_ok_def)
  qed
qed

interpretation me: call_system "engine_step parse" engine_cost "memory_ok parse" "\<lambda>e e'. True"
  for parse :: "string \<Rightarrow> 'n json option"
  by unfold_locales (simp_all add: memory_ok_step)

section \<open>The properties\<close>

text \<open>
  C29: The engine stays well formed. From an empty engine, over any calls to any of its stores (within the
  \<open>u64\<close> counters), objects are filed under their keys in key order, events are in strictly
  increasing order of their sequence numbers, jobs are in the queue they name with ids that are
  unique in it, and link ids are unique.
\<close>

theorem engine_well_formed:
  assumes "total_cost engine_cost cs < 2 ^ 64" "e = run_calls (engine_step parse) cs new_engine"
  shows "bm_ok (me_objects e) \<and> list_all (\<lambda>(k, obj). mo_key obj = k) (me_objects e)
    \<and> sorted_wrt (\<lambda>a b. ev_sequence a < ev_sequence b) (me_events e)
    \<and> list_all (\<lambda>(queue, jobs). distinct (map qj_id jobs) \<and> list_all (\<lambda>job. qj_queue job = queue) jobs) (me_queues e)
    \<and> distinct (map ln_id (me_links e))"
proof -
  have ok: "memory_ok parse 0 e"
    unfolding assms(2) using me.run_inv [of parse cs 0 new_engine] assms(1) by (simp add: memory_ok_new)
  have obj: "objects_ok parse e" and q: "queues_ok e" and ev: "events_ok 0 e" and l: "links_ok 0 e"
    using ok by (simp_all add: memory_ok_def)
  note o = objects_okD(1) [OF obj]
  have "mo_key x = k" if "(k, x) \<in> set (me_objects e)" for k x
    using objects_okD(3) [OF obj bm_get_mem [OF o that]] .
  moreover have "jobs_ok queue jobs" if "(queue, jobs) \<in> set (me_queues e)" for queue jobs
  proof -
    have "bm_get (me_queues e) queue = Some jobs"
      using bm_get_mem [OF _ that] q by (simp add: queues_ok_def)
    then have "queue_jobs queue e = jobs"
      by (rule queue_jobs_get)
    then show ?thesis
      using q by (auto simp: queues_ok_def)
  qed
  ultimately show ?thesis
    using o events_okD(2) [OF ev] l by (auto simp: list_all_iff links_ok_def jobs_ok_def)
qed

theorem engine_well_formed_witness:
  "list_all (\<lambda>(k, obj). mo_key obj = k) (me_objects (run_calls (engine_step no_json)
     [ObjectCall (PutObject [] (demo_object ''a'')), QueueCall (PushJob demo_job), EventCall (AppendEvent [] (demo_event ''s'' [])),
      LinkCall (CreateLink [] (demo_link []))] new_engine))"
  using engine_well_formed [where cs = "[ObjectCall (PutObject [] (demo_object ''a'')), QueueCall (PushJob demo_job),
      EventCall (AppendEvent [] (demo_event ''s'' [])), LinkCall (CreateLink [] (demo_link []))]" and parse = no_json, OF _ refl]
  by (simp only: total_cost_simps engine_cost.simps event_cost.simps link_cost.simps) simp

text \<open>
  C28: Unique indexes are enforced. Over any calls, in whatever order indexes are created and dropped and
  objects written conditionally or not, in batches or by replication, two different objects of a
  collection never hold the same value other than null for a field with a unique index.
\<close>

theorem unique_index_enforced:
  assumes "total_cost engine_cost cs < 2 ^ 64" "e = run_calls (engine_step parse) cs new_engine"
    and index: "bm_get (me_indexes e) (collection, field) = Some index" "ix_unique index"
    and objs: "get_object collection i e = Some x" "get_object collection j e = Some y"
    and val: "indexed_value parse field x = Some v" "indexed_value parse field y = Some v" "v \<noteq> JNull"
  shows "i = j"
proof -
  have "memory_ok parse 0 e"
    unfolding assms(2) using me.run_inv [of parse cs 0 new_engine] assms(1) by (simp add: memory_ok_new)
  then have "objects_ok parse e"
    by (simp add: memory_ok_def)
  from objects_okD(6) [OF this index] have "ObjectKey collection i = ObjectKey collection j"
    by (rule unique_inD [OF _ objs [unfolded get_object_def] _ _ val]) simp_all
  then show ?thesis
    by simp
qed

definition one_doc :: "string \<Rightarrow> unit json option" where
  "one_doc s = Some (JObj [(''n'', JBool True)])"

definition indexed_calls :: "(unit, unit) engine_call list" where
  "indexed_calls = [ObjectCall (CreateIndexDefinition \<lparr>ix_collection = ''c'', ix_field = ''n'', ix_unique = True\<rparr>),
     ObjectCall (PutObject [] (new_object ''c'' ''a'' [])), ObjectCall (PutObject [] (new_object ''c'' ''b'' []))]"

theorem unique_index_enforced_witness:
  "\<exists>x. get_object ''c'' ''a'' (run_calls (engine_step one_doc) indexed_calls new_engine) = Some x
    \<and> get_object ''c'' ''b'' (run_calls (engine_step one_doc) indexed_calls new_engine) = None
    \<and> indexed_value one_doc ''n'' x = Some (JBool True)"
proof -
  define e where "e = run_calls (engine_step one_doc) indexed_calls (new_engine :: (unit, unit) memory_engine)"
  have index: "bm_get (me_indexes e) (''c'', ''n'') = Some \<lparr>ix_collection = ''c'', ix_field = ''n'', ix_unique = True\<rparr>"
    by (simp add: e_def indexed_calls_def create_index_definition_def validate_existing_unique_index_def put_object_def
        validate_unique_indexes_def one_doc_def new_object_def new_engine_def Let_def indexed_value_def)
  obtain x where x: "get_object ''c'' ''a'' e = Some x"
    by (simp add: e_def indexed_calls_def create_index_definition_def validate_existing_unique_index_def put_object_def
        validate_unique_indexes_def one_doc_def new_object_def new_engine_def Let_def indexed_value_def get_object_def)
  have val: "indexed_value one_doc ''n'' y = Some (JBool True)" for y :: "unit memory_object"
    by (simp add: indexed_value_def one_doc_def)
  have cost: "total_cost engine_cost indexed_calls < 2 ^ 64"
    by (simp add: indexed_calls_def)
  have "get_object ''c'' ''b'' e = None"
  proof (rule ccontr)
    assume "get_object ''c'' ''b'' e \<noteq> None"
    then obtain y where "get_object ''c'' ''b'' e = Some y"
      by blast
    from unique_index_enforced [OF cost e_def index _ x this val val] show False
      by simp
  qed
  then show ?thesis
    using x val by (auto simp: e_def)
qed

end
