(* ===== verification/Query_Properties.thy ===== *)
theory Query_Properties
  imports Memory_Query
begin

text \<open>
  What queries return: the comparison of JSON values is a total preorder, so that the sort of
  \<open>list_objects\<close> is well defined; a LIKE pattern matches exactly when its parts occur in order; and
  grouping is independent of the order of the hash map.
\<close>

section \<open>Sorting by values\<close>

text \<open>How serde_json prints values, as far as the comparison depends on it: by the first character.\<close>

definition printed_heads :: "('n, 'd) world \<Rightarrow> bool" where
  "printed_heads w \<longleftrightarrow>
     (\<forall>s. w_show w (JStr s) \<noteq> [] \<and> hd (w_show w (JStr s)) = CHR 0x22) \<and>
     (\<forall>n. w_show w (JNum n) \<noteq> [] \<and> (hd (w_show w (JNum n)) = CHR ''-'' \<or> is_digits [hd (w_show w (JNum n))])) \<and>
     (\<forall>xs. w_show w (JArr xs) \<noteq> [] \<and> hd (w_show w (JArr xs)) = CHR ''['') \<and>
     (\<forall>m. w_show w (JObj m) \<noteq> [] \<and> hd (w_show w (JObj m)) = CHR ''{'') \<and>
     w_show w (JBool False) = ''false'' \<and> w_show w (JBool True) = ''true'' \<and> w_show w JNull = ''null''"

definition f64_of :: "('n, 'd) world \<Rightarrow> 'n \<Rightarrow> 'd" where
  "f64_of w n = (case w_as_f64 w n of Some x \<Rightarrow> x | None \<Rightarrow> w_zero w)"

definition compare_numbers :: "('n, 'd) world \<Rightarrow> 'n \<Rightarrow> 'n \<Rightarrow> ordering" where
  "compare_numbers w a b = (case w_partial_cmp w (f64_of w a) (f64_of w b) of Some r \<Rightarrow> r | None \<Rightarrow> Equal)"

text \<open>Numbers of JSON documents are not NaN, and compare as a total order.\<close>

definition ordered_numbers :: "('n, 'd) world \<Rightarrow> bool" where
  "ordered_numbers w \<longleftrightarrow>
     (\<forall>a b. compare_numbers w b a = reverse_ordering (compare_numbers w a b)) \<and>
     (\<forall>a b c. compare_numbers w a b \<noteq> Greater \<longrightarrow> compare_numbers w b c \<noteq> Greater \<longrightarrow> compare_numbers w a c \<noteq> Greater)"

text \<open>The kinds of values in the order of their first characters.\<close>

fun rank :: "'n json \<Rightarrow> nat" where
  "rank (JStr s) = 0"
| "rank (JNum n) = 1"
| "rank (JArr xs) = 2"
| "rank (JBool False) = 3"
| "rank JNull = 4"
| "rank (JBool True) = 5"
| "rank (JObj m) = 6"

definition head_code :: "nat \<Rightarrow> nat \<Rightarrow> bool" where
  "head_code r c \<longleftrightarrow> (r = 0 \<and> c = 34) \<or> (r = 1 \<and> 45 \<le> c \<and> c \<le> 57) \<or> (r = 2 \<and> c = 91) \<or> (r = 3 \<and> c = 102) \<or>
     (r = 4 \<and> c = 110) \<or> (r = 5 \<and> c = 116) \<or> (r = 6 \<and> c = 123)"

lemma head_code_less: "head_code r c \<Longrightarrow> head_code s d \<Longrightarrow> r < s \<Longrightarrow> c < d"
  by (auto simp: head_code_def)

lemma show_head:
  assumes "printed_heads w"
  shows "w_show w v \<noteq> [] \<and> head_code (rank v) (of_char (hd (w_show w v)))"
proof (cases v)
  case (JBool b)
  then show ?thesis
    using assms by (cases b) (simp_all add: printed_heads_def head_code_def)
next
  case (JNum n)
  then have "w_show w v \<noteq> []" "hd (w_show w v) = CHR ''-'' \<or> is_digits [hd (w_show w v)]"
    using assms by (simp_all add: printed_heads_def)
  then show ?thesis
    using JNum by (auto simp: head_code_def is_digits_def)
qed (use assms in \<open>simp_all add: printed_heads_def head_code_def\<close>)

lemma cmp_head: "s \<noteq> [] \<Longrightarrow> t \<noteq> [] \<Longrightarrow> (of_char (hd s) :: nat) < of_char (hd t) \<Longrightarrow> s < (t :: string)"
  by (cases s; cases t) (auto simp: char_less_iff)

lemma show_less: "printed_heads w \<Longrightarrow> rank a < rank b \<Longrightarrow> w_show w a < w_show w b"
  using show_head [of w a] show_head [of w b] head_code_less cmp_head by blast

lemma value_compare_show:
  assumes "printed_heads w" "rank a \<noteq> rank b"
  shows "value_compare w a b = cmp (rank a) (rank b)"
proof -
  have shown: "cmp (w_show w a) (w_show w b) = cmp (rank a) (rank b)"
    using show_less [OF assms(1), of a b] show_less [OF assms(1), of b a] assms(2)
    by (cases "rank a" "rank b" rule: linorder_cases) (auto simp: cmp_def)
  show ?thesis
  proof (cases "\<exists>p q. a = JBool p \<and> b = JBool q")
    case True
    then obtain p q where "a = JBool p" "b = JBool q"
      by blast
    then show ?thesis
      using assms(2) by (cases p; cases q) (simp_all add: cmp_def)
  next
    case False
    then have "value_compare w a b = cmp (w_show w a) (w_show w b)"
      using assms(2) by (cases a; cases b) auto
    then show ?thesis
      by (simp only: shown)
  qed
qed

lemma value_compare_same:
  assumes "rank a = rank b"
  obtains (string) s t where "a = JStr s" "b = JStr t" "value_compare w a b = cmp s t"
  | (number) m n where "a = JNum m" "b = JNum n" "value_compare w a b = compare_numbers w m n"
  | (other) "\<And>s. a \<noteq> JStr s" "\<And>n. a \<noteq> JNum n" "value_compare w a b = cmp (w_show w a) (w_show w b)"
proof (cases a)
  case (JBool p)
  then have "b = JBool p"
    using assms by (cases b rule: rank.cases; cases p) auto
  then show ?thesis
    using other JBool by (simp add: cmp_def)
next
  case JNull
  then have "b = JNull"
    using assms by (cases b rule: rank.cases) auto
  then show ?thesis
    using other JNull by (simp add: cmp_def)
next
  case (JNum m)
  then obtain n where "b = JNum n"
    using assms by (cases b rule: rank.cases) auto
  then show ?thesis
    using number JNum by (simp add: compare_numbers_def f64_of_def Let_def)
next
  case (JStr s)
  then obtain t where "b = JStr t"
    using assms by (cases b rule: rank.cases) auto
  then show ?thesis
    using string JStr by simp
next
  case (JArr xs)
  then obtain ys where "b = JArr ys"
    using assms by (cases b rule: rank.cases) auto
  then show ?thesis
    using other JArr by simp
next
  case (JObj m)
  then obtain n where "b = JObj n"
    using assms by (cases b rule: rank.cases) auto
  then show ?thesis
    using other JObj by simp
qed

lemma value_compare_number: "value_compare w (JNum m) (JNum n) = compare_numbers w m n"
  by (simp add: compare_numbers_def f64_of_def Let_def)

lemma ordered_numbersD:
  assumes "ordered_numbers w"
  shows "compare_numbers w b a = reverse_ordering (compare_numbers w a b)"
    "compare_numbers w a b \<noteq> Greater \<Longrightarrow> compare_numbers w b c \<noteq> Greater \<Longrightarrow> compare_numbers w a c \<noteq> Greater"
  using assms unfolding ordered_numbers_def by blast+

lemma value_compare_flip:
  assumes w: "printed_heads w" "ordered_numbers w"
  shows "value_compare w y x = reverse_ordering (value_compare w x y)"
proof (cases "rank x = rank y")
  case True
  then show ?thesis
  proof (cases rule: value_compare_same [where w = w])
    case (number m n)
    show ?thesis
      unfolding number(1,2) value_compare_number by (rule ordered_numbersD(1) [OF w(2)])
  next
    case (string s t)
    then show ?thesis
      by (auto simp: cmp_def)
  next
    case other
    have "value_compare w y x = cmp (w_show w y) (w_show w x)"
      using True [symmetric] by (cases rule: value_compare_same [where w = w]) (use other in auto)
    then show ?thesis
      unfolding other(3) by (auto simp: cmp_def)
  qed
next
  case False
  then show ?thesis
    unfolding value_compare_show [OF w(1) False] value_compare_show [OF w(1) False [symmetric]] by (auto simp: cmp_def)
qed

lemma value_compare_rank_le:
  assumes "printed_heads w" "value_compare w a b \<noteq> Greater"
  shows "rank a \<le> rank b"
proof (rule ccontr)
  assume "\<not> rank a \<le> rank b"
  then have "value_compare w a b = Greater"
    by (subst value_compare_show [OF assms(1)]) (auto simp: cmp_def)
  with assms(2) show False ..
qed

lemma value_compare_trans:
  assumes w: "printed_heads w" "ordered_numbers w"
    and xy: "value_compare w x y \<noteq> Greater" and yz: "value_compare w y z \<noteq> Greater"
  shows "value_compare w x z \<noteq> Greater"
proof -
  consider "rank x < rank z" | "rank x = rank y" "rank y = rank z" "rank x = rank z"
    using value_compare_rank_le [OF w(1) xy] value_compare_rank_le [OF w(1) yz] by linarith
  then show ?thesis
  proof cases
    case 1
    then show ?thesis
      by (subst value_compare_show [OF w(1)]) (auto simp: cmp_def)
  next
    case 2
    from 2(1) show ?thesis
    proof (cases rule: value_compare_same [where w = w])
      case (number m n)
      from 2(2) number obtain q where z: "z = JNum q"
        by (cases z rule: rank.cases) auto
      show ?thesis
        using ordered_numbersD(2) [OF w(2), of m n q] xy yz unfolding number(1,2) z value_compare_number by blast
    next
      case (string s t)
      from 2(2) string obtain u where "z = JStr u"
        by (cases z rule: rank.cases) auto
      then show ?thesis
        using xy yz string by (auto simp: cmp_def split: if_splits)
    next
      case other
      have ne: "y \<noteq> JStr s" "y \<noteq> JNum n" for s n
        using 2(1) other(1,2) by (cases x rule: rank.cases; auto)+
      have "value_compare w y z = cmp (w_show w y) (w_show w z)"
        using 2(2) by (cases rule: value_compare_same [where w = w]) (use ne in auto)
      moreover have "value_compare w x z = cmp (w_show w x) (w_show w z)"
        using 2(3) by (cases rule: value_compare_same [where w = w]) (use other(1,2) in auto)
      ultimately show ?thesis
        using other(3) xy yz by (auto simp: cmp_def split: if_splits)
    qed
  qed
qed

lemma value_compare_total:
  assumes w: "printed_heads w" "ordered_numbers w"
  shows "total_comparison (\<lambda>x. True) (value_compare w)"
  by unfold_locales (rule value_compare_flip [OF w], rule value_compare_trans [OF w])

lemma total_pullback: "total_comparison (\<lambda>x. True) c \<Longrightarrow> total_comparison (\<lambda>x. True) (\<lambda>x y. c (f x) (f y))"
  unfolding total_comparison_def by blast

lemma total_equal: "total_comparison (\<lambda>x. True) (\<lambda>x y. Equal)"
  by unfold_locales simp_all

lemma total_if:
  "total_comparison (\<lambda>x. True) c \<Longrightarrow> total_comparison (\<lambda>x. True) d \<Longrightarrow> total_comparison (\<lambda>x. True) (\<lambda>a b. if P then c a b else d a b)"
  by (cases P) simp_all

lemma total_option:
  assumes "total_comparison (\<lambda>x. True) c"
  shows "total_comparison (\<lambda>x. True) (compare_option c)"
proof
  fix x y z
  show "compare_option c y x = reverse_ordering (compare_option c x y)"
    by (cases x; cases y) (simp_all add: compare_option_def, rule total_comparison.flip [OF assms], simp_all)
  show "compare_option c x z \<noteq> Greater" if "compare_option c x y \<noteq> Greater" "compare_option c y z \<noteq> Greater"
    using that
    by (cases x; cases y; cases z) (simp_all add: compare_option_def, rule total_comparison.trans [OF assms TrueI TrueI TrueI])
qed

lemma compare_objects_total:
  assumes w: "printed_heads w" "ordered_numbers w"
  shows "total_comparison (\<lambda>x. True) (compare_objects w spec :: 'f memory_object \<Rightarrow> _)"
proof -
  define r :: "'f memory_object \<Rightarrow> 'f memory_object \<Rightarrow> ordering" where "r = (\<lambda>a b. compare_objects w (spec\<lparr>so_direction := Asc\<rparr>) a b)"
  have "total_comparison (\<lambda>x. True) r"
  proof (cases "take 2 (so_field spec) = ''$.''")
    case True
    then show ?thesis
      using total_pullback [OF total_option [OF value_compare_total [OF w]],
          of "\<lambda>a. Option.bind (w_parse w (mo_body a)) (\<lambda>v. json_get v (trim_dollars (so_field spec)))"]
      by (simp add: r_def compare_objects_def Let_def)
  next
    case False
    then show ?thesis
      unfolding r_def compare_objects_def Let_def
      by (simp, intro total_if total_pullback [OF lin.total_comparison_axioms] total_equal)
  qed
  then have "total_comparison (\<lambda>x. True) (\<lambda>a b. case so_direction spec of Asc \<Rightarrow> r a b | Desc \<Rightarrow> reverse_ordering (r a b))"
    using total_comparison.reversed by (cases "so_direction spec") auto
  moreover have "compare_objects w spec = (\<lambda>a b. case so_direction spec of Asc \<Rightarrow> r a b | Desc \<Rightarrow> reverse_ordering (r a b))"
    by (intro ext) (simp add: r_def compare_objects_def Let_def split: sort_direction.split)
  ultimately show ?thesis
    by simp
qed

section \<open>LIKE patterns\<close>

text \<open>The parts of a pattern occur in a string, one after the other and without overlap.\<close>

inductive in_order :: "string list \<Rightarrow> string \<Rightarrow> bool" where
  none: "in_order [] s"
| next_part: "in_order parts t \<Longrightarrow> in_order (part # parts) (u @ part @ t)"

inductive_cases in_orderE: "in_order (part # parts) s"

lemma in_order_prepend: "in_order parts s \<Longrightarrow> in_order parts (u @ s)"
proof (induction rule: in_order.induct)
  case (next_part parts t part v)
  then show ?case
    using in_order.next_part [of parts t part "u @ v"] by simp
qed (rule none)

lemma find_sub_Some:
  "find_sub part s = Some i \<Longrightarrow> s = take i s @ part @ drop (i + length part) s"
proof (induction s arbitrary: i)
  case (Cons x s)
  show ?case
  proof (cases "take (length part) (x # s) = part")
    case True
    then show ?thesis
      using Cons.prems append_take_drop_id [of "length part" "x # s"] by simp
  next
    case False
    then obtain j where "find_sub part s = Some j" "i = Suc j"
      using Cons.prems by auto
    then show ?thesis
      using Cons.IH by simp
  qed
qed (simp split: if_splits)

lemma find_sub_leftmost: "\<exists>i. find_sub part (u @ part @ t) = Some i \<and> i \<le> length u"
proof (induction u)
  case Nil
  show ?case
  proof (cases "part @ t")
    case (Cons a l)
    then have "take (length part) (a # l) = part"
      by (metis append_eq_conv_conj)
    then show ?thesis
      using Cons by simp
  qed simp
next
  case (Cons x u)
  then show ?case
    by auto
qed

lemma like_parts_in_order: "like_parts s parts \<longleftrightarrow> in_order parts s"
proof (induction s parts rule: like_parts.induct)
  case (2 s part parts)
  show ?case
  proof (cases "part = []")
    case True
    have "in_order (part # parts) s \<longleftrightarrow> in_order parts s"
      using in_order_prepend next_part [of parts s part "[]"] by (auto simp: True elim: in_orderE)
    then show ?thesis
      using 2 True by simp
  next
    case part: False
    show ?thesis
    proof
      assume "like_parts s (part # parts)"
      then obtain i where i: "find_sub part s = Some i" "like_parts (drop (i + length part) s) parts"
        using part by (auto split: option.splits)
      then have "in_order parts (drop (i + length part) s)"
        using 2(2) part by blast
      then show "in_order (part # parts) s"
        using next_part [of parts _ part "take i s"] find_sub_Some [OF i(1)] by metis
    next
      assume "in_order (part # parts) s"
      then obtain u t where s: "s = u @ part @ t" "in_order parts t"
        by (auto elim: in_orderE)
      obtain i where i: "find_sub part s = Some i" "i \<le> length u"
        using find_sub_leftmost [of part u t] s(1) by blast
      have "drop (i + length part) s = drop (i + length part) (u @ part) @ t"
        using i(2) by (simp add: s(1))
      then have "in_order parts (drop (i + length part) s)"
        using in_order_prepend [OF s(2)] by metis
      then show "like_parts s (part # parts)"
        using 2(2) part i(1) by simp
    qed
  qed
qed (simp add: none)

section \<open>Groups\<close>

lemma group_objects_get:
  "hm_get (group_objects key objs groups) k =
     (if k \<in> key ` set objs then Some ((case hm_get groups k of None \<Rightarrow> [] | Some g \<Rightarrow> g) @ filter (\<lambda>obj. key obj = k) objs) else hm_get groups k)"
  by (induction key objs groups rule: group_objects.induct)
    (auto split: option.splits simp: filter_empty_conv eq_commute [of "[]" "filter P xs" for P xs] intro: rev_image_eqI)

lemma group_objects_ok: "hm_ok groups \<Longrightarrow> hm_ok (group_objects key objs groups)"
  by (induction key objs groups rule: group_objects.induct) auto

text \<open>Sorting entries with different keys by key.\<close>

lemma sort_by_key_ok:
  assumes "distinct (map fst m)"
  shows "bm_ok (sort_by (\<lambda>a b. cmp (fst a) (fst b)) m)"
proof -
  let ?s = "sort_by (\<lambda>a b. cmp (fst a) (fst b)) m"
  have total: "total_comparison (\<lambda>x. True) (\<lambda>a b. cmp (fst a) (fst b))"
    by (rule total_pullback [OF lin.total_comparison_axioms])
  have "sorted (map fst ?s)"
    using total_comparison.sorted_sort_by [OF total, of m] unfolding sorted_map
    by (rule sorted_wrt_mono_rel [rotated]) (auto simp: cmp_def split: if_splits)
  moreover have "distinct (map fst ?s)"
    using assms by (metis mset_map mset_sort_by mset_eq_imp_distinct_iff)
  ultimately show ?thesis
    by (simp add: bm_ok_def strict_sorted_iff)
qed

lemma grouped_reference:
  "grouped w key function field objs =
     map (\<lambda>k. (k, compute_aggregate w (filter (\<lambda>obj. key obj = k) objs) function field)) (sorted_list_of_set (key ` set objs))"
  (is "_ = ?ref")
proof (rule bm_ext)
  let ?g = "map (\<lambda>(k, g). (k, compute_aggregate w g function field)) (group_objects key objs [])"
  have keys: "map fst ?g = map fst (group_objects key objs [])"
    by (simp add: case_prod_unfold o_def)
  have d: "distinct (map fst ?g)"
    using group_objects_ok [of "[]" key objs] unfolding keys hm_ok_def by simp
  show ok: "bm_ok (grouped w key function field objs)"
    unfolding grouped_def by (rule sort_by_key_ok [OF d])
  show ok': "bm_ok ?ref"
    by (simp add: bm_ok_def o_def)
  show "bm_get (grouped w key function field objs) = bm_get ?ref"
  proof
    fix k
    have "bm_get (grouped w key function field objs) k = map_of ?g k"
      using d bm_get_Some_iff [OF ok, of k] map_of_eq_Some_iff [OF d, of k]
      by (cases "map_of ?g k"; cases "bm_get (grouped w key function field objs) k") (auto simp: grouped_def)
    also have "\<dots> = map_option (\<lambda>g. compute_aggregate w g function field) (hm_get (group_objects key objs []) k)"
      by (simp add: hm_get_def map_of_map)
    also have "\<dots> = bm_get ?ref k"
      by (auto simp: group_objects_get bm_get_def map_of_map_keys map_of_map_restrict restrict_map_def)
    finally show "bm_get (grouped w key function field objs) k = bm_get ?ref k" .
  qed
qed

section \<open>The properties\<close>

text \<open>The objects a query selects, before sorting and paging.\<close>

definition selected :: "('n, 'd) world \<Rightarrow> string list option \<Rightarrow> 'n list_objects_options \<Rightarrow> ('f, 'w) memory_engine \<Rightarrow> 'f memory_object list" where
  "selected w collections options e =
     list_objects w collections (options\<lparr>lo_sort_by := None, lo_offset := None, lo_limit := None\<rparr>) e"

lemma list_objects_selected:
  "list_objects w collections options e =
     (let objects = (case lo_sort_by options of None \<Rightarrow> selected w collections options e
          | Some spec \<Rightarrow> sort_by (compare_objects w spec) (selected w collections options e));
          objects = (case lo_offset options of None \<Rightarrow> objects | Some offset \<Rightarrow> drop offset objects)
      in case lo_limit options of None \<Rightarrow> objects | Some limit \<Rightarrow> take limit objects)"
  by (simp add: list_objects_def selected_def Let_def split: option.split)


text \<open>A world with two documents.\<close>

fun demo_show :: "nat json \<Rightarrow> string" where
  "demo_show JNull = ''null''"
| "demo_show (JBool b) = (if b then ''true'' else ''false'')"
| "demo_show (JNum n) = ''0''"
| "demo_show (JStr s) = CHR 0x22 # s"
| "demo_show (JArr xs) = ''[]''"
| "demo_show (JObj m) = ''{}''"

definition demo_world :: "(nat, nat) world" where
  "demo_world = \<lparr>w_parse = (\<lambda>s. if s = ''a'' then Some (JObj [(''n'', JNum 2)]) else if s = ''b'' then Some (JObj [(''n'', JNum 1)]) else None),
     w_show = demo_show, w_as_f64 = Some, w_parse_f64 = (\<lambda>s. None), w_partial_cmp = (\<lambda>a b. Some (cmp a b)),
     w_zero = 0, w_add = (+), w_div = (div), w_of_usize = id, w_infinity = 1000, w_neg_infinity = 0, w_min = min, w_max = max,
     w_format_timestamp = (\<lambda>s f. None), w_is_rfc3339 = (\<lambda>s. False)\<rparr>"

lemma demo_world_ok: "printed_heads demo_world" "ordered_numbers demo_world"
  by (auto simp: printed_heads_def ordered_numbers_def compare_numbers_def f64_of_def demo_world_def is_digits_def cmp_def split: if_splits)

definition demo_doc :: "string \<Rightarrow> unit memory_object" where
  "demo_doc i = new_object ''c'' i i"

definition demo_docs :: "(unit, unit) memory_engine" where
  "demo_docs = new_engine\<lparr>me_objects := [(ObjectKey ''c'' ''a'', demo_doc ''a''), (ObjectKey ''c'' ''b'', demo_doc ''b'')]\<rparr>"

definition demo_options :: "string \<Rightarrow> sort_direction \<Rightarrow> nat list_objects_options" where
  "demo_options field direction =
     \<lparr>lo_filter = [], lo_sort_by = Some \<lparr>so_field = field, so_direction = direction\<rparr>, lo_offset = None, lo_limit = None\<rparr>"

lemma demo_selected: "selected demo_world None (demo_options field direction) demo_docs = [demo_doc ''a'', demo_doc ''b'']"
  by (simp add: selected_def list_objects_def demo_options_def demo_docs_def new_engine_def matches_filters_def)


text \<open>
  C31: A pattern matches when its parts occur in order. \<open>$like\<close> holds exactly when the pieces of the pattern
  between the percent signs occur in the string one after the other without overlap: taking the
  leftmost occurrence of each piece never misses a match.
\<close>

theorem like_match_in_order: "like_match s pattern \<longleftrightarrow> in_order (split_on CHR ''%'' pattern) s"
  by (simp add: like_match_def like_parts_in_order)

text \<open>
  Patterns are not anchored and have no single-character wildcard. A pattern without percent signs matches
  any string that contains it, and an underscore only matches an underscore.
\<close>

theorem like_match_divergence: "like_match ''xabc'' ''ab'' \<and> \<not> like_match ''ab'' ''a_''"
  by (simp add: like_match_def)

text \<open>
  C32: Grouped aggregates do not depend on the hash map. The groups are the values of the group field among the
  selected objects, in ascending order and each once, and the value of a group is the aggregate of
  exactly the objects that have it, in key order; the total is their sum in that order.
\<close>

theorem aggregate_groups:
  "ar_groups (aggregate w collection options e) =
     (case ao_group_by options of
        None \<Rightarrow> []
      | Some group_field \<Rightarrow>
          (let objs = filter (matches_exactly w (ao_filter options)) (filter (\<lambda>obj. ok_collection (mo_key obj) = collection) (map snd (me_objects e)));
               key = (\<lambda>obj. extract_field_str w (mo_body obj) group_field)
           in map (\<lambda>k. (k, compute_aggregate w (filter (\<lambda>obj. key obj = k) objs) (ao_function options) (ao_field options)))
                (sorted_list_of_set (key ` set objs))))"
  by (simp add: aggregate_def grouped_reference Let_def split: option.split)

text \<open>
  C33: Sorting by a field of the body has no effect. The path of the sort keeps the dot of \<open>$.field\<close>, so that
  it looks for a field whose name starts with a dot: unless a selected document has such a field,
  the listing is in the order of the keys, whatever the field holds.
\<close>

theorem body_sort_ignored:
  assumes "lo_sort_by options = Some spec" "so_field spec = ''$.'' @ field"
    "list_all (\<lambda>obj. Option.bind (w_parse w (mo_body obj)) (\<lambda>v. json_get v (CHR ''.'' # field)) = None) (selected w collections options e)"
  shows "list_objects w collections options e = list_objects w collections (options\<lparr>lo_sort_by := None\<rparr>) e"
proof -
  have "compare_objects w spec a b = Equal" if "a \<in> set (selected w collections options e)" "b \<in> set (selected w collections options e)" for a b
    using that assms(2,3) by (simp add: compare_objects_def trim_dollars_def list_all_iff compare_option_def split: sort_direction.split)
  then have "sort_by (compare_objects w spec) (selected w collections options e) = selected w collections options e"
    by (rule sort_by_equal)
  moreover have "selected w collections (options\<lparr>lo_sort_by := None\<rparr>) e = selected w collections options e"
    by (simp add: selected_def)
  ultimately show ?thesis
    by (simp add: list_objects_selected assms(1))
qed

theorem body_sort_ignored_witness:
  "list_objects demo_world None (demo_options ''$.n'' Asc) demo_docs = [demo_doc ''a'', demo_doc ''b'']"
proof -
  have "lo_sort_by (demo_options ''$.n'' Asc) = Some \<lparr>so_field = ''$.'' @ ''n'', so_direction = Asc\<rparr>"
    by (simp add: demo_options_def)
  from body_sort_ignored [OF this, of "''n''" demo_world None demo_docs]
  have "list_objects demo_world None (demo_options ''$.n'' Asc) demo_docs =
      list_objects demo_world None ((demo_options ''$.n'' Asc)\<lparr>lo_sort_by := None\<rparr>) demo_docs"
    unfolding demo_selected by (simp add: demo_world_def demo_doc_def new_object_def)
  then show ?thesis
    using demo_selected [of "''$.n''" Asc] by (simp add: selected_def demo_options_def)
qed

end
