(* ===== verification/Memory_Cache.thy ===== *)
theory Memory_Cache
  imports Ordered_Map Calls "HOL-Library.Product_Lexorder" "HOL-Library.Multiset"
begin

text \<open>
  \<open>MemoryCache\<close> of \<open>crates/thingdb/src/cache.rs\<close>: a bounded cache whose entries expire, with the
  least recently used entry evicted first. The state keeps every entry in three places: the hash
  map, the set \<open>lru\<close> of pairs (access order, key) and the set \<open>expirations\<close> of pairs (deadline,
  key). The eviction loop indexes the hash map with a key read from \<open>lru\<close>
  (\<open>state.entries[&oldest]\<close>), which panics when the key is absent: a panic is \<open>None\<close>, and the
  theorems show that no sequence of calls panics. As no call panics, the mutex is never poisoned
  and \<open>lock_state\<close> always returns the state.

  An \<open>Instant\<close> is a number of nanoseconds, and each call takes the time its clock returned.
  \<open>BTreeSet\<close> is a map to \<open>unit\<close>.
\<close>

type_synonym 'a bset = "('a, unit) btree"

record cache_options =
  co_max_entries :: nat
  co_max_bytes :: nat
  co_default_ttl :: nat

record cache_stats =
  cs_hits :: nat
  cs_misses :: nat
  cs_inserts :: nat
  cs_removals :: nat
  cs_expirations :: nat
  cs_evictions :: nat
  cs_current_entries :: nat
  cs_current_bytes :: nat
  cs_max_entries :: nat
  cs_max_bytes :: nat

record cache_entry =
  ce_value :: bytes
  ce_expires_at :: nat
  ce_access_order :: nat

record cache_state =
  mc_entries :: "(bytes, cache_entry) hmap"
  mc_lru :: "(nat \<times> bytes) bset"
  mc_expirations :: "(nat \<times> bytes) bset"
  mc_next_access_order :: nat
  mc_bytes :: nat
  mc_options :: cache_options
  mc_stats :: cache_stats

definition default_cache_options :: cache_options where
  "default_cache_options =
     \<lparr>co_max_entries = 1024, co_max_bytes = 64 * 1024 * 1024, co_default_ttl = 30 * 10 ^ 9\<rparr>"

definition mc_with_clock :: "cache_options \<Rightarrow> cache_state" where
  "mc_with_clock options =
     \<lparr>mc_entries = [], mc_lru = [], mc_expirations = [], mc_next_access_order = 0, mc_bytes = 0,
      mc_options = options,
      mc_stats = \<lparr>cs_hits = 0, cs_misses = 0, cs_inserts = 0, cs_removals = 0, cs_expirations = 0,
        cs_evictions = 0, cs_current_entries = 0, cs_current_bytes = 0,
        cs_max_entries = co_max_entries options, cs_max_bytes = co_max_bytes options\<rparr>\<rparr>"

section \<open>Helpers\<close>

definition cache_validate_key :: "bytes \<Rightarrow> (string, unit) result" where
  "cache_validate_key key = reject_if (key = []) ''ThingDB cache keys must be non-empty''"

definition cache_entry_size :: "bytes \<Rightarrow> bytes \<Rightarrow> nat" where
  "cache_entry_size key val = sat_add (length key) (length val)"

definition next_access_order :: "cache_state \<Rightarrow> nat \<times> cache_state" where
  "next_access_order s =
     (mc_next_access_order s, s\<lparr>mc_next_access_order := sat_add (mc_next_access_order s) 1\<rparr>)"

definition insert_indexes :: "bytes \<Rightarrow> cache_entry \<Rightarrow> cache_state \<Rightarrow> cache_state" where
  "insert_indexes key e s =
     s\<lparr>mc_lru := bm_insert (ce_access_order e, key) () (mc_lru s),
       mc_expirations := bm_insert (ce_expires_at e, key) () (mc_expirations s)\<rparr>"

definition remove_indexes :: "bytes \<Rightarrow> cache_entry \<Rightarrow> cache_state \<Rightarrow> cache_state" where
  "remove_indexes key e s =
     s\<lparr>mc_lru := bm_remove (ce_access_order e, key) (mc_lru s),
       mc_expirations := bm_remove (ce_expires_at e, key) (mc_expirations s)\<rparr>"

definition refresh_current_stats :: "cache_state \<Rightarrow> cache_state" where
  "refresh_current_stats s =
     s\<lparr>mc_stats := (mc_stats s)\<lparr>cs_current_entries := length (mc_entries s), cs_current_bytes := mc_bytes s\<rparr>\<rparr>"

text \<open>
  Taking an entry out of the map, both sets and the byte count: what expiry, removal and
  replacement do, after which each counts it in its own counter (\<open>mc_count\<close>).
\<close>

definition mc_unlink :: "bytes \<Rightarrow> cache_entry \<Rightarrow> cache_state \<Rightarrow> cache_state" where
  "mc_unlink key e s =
     (remove_indexes key e (s\<lparr>mc_entries := hm_remove key (mc_entries s)\<rparr>))
       \<lparr>mc_bytes := mc_bytes s - cache_entry_size key (ce_value e)\<rparr>"

definition mc_count :: "(cache_stats \<Rightarrow> cache_stats) \<Rightarrow> cache_state \<Rightarrow> cache_state" where
  "mc_count f s = s\<lparr>mc_stats := f (mc_stats s)\<rparr>"

definition count_expiration :: "cache_stats \<Rightarrow> cache_stats" where
  "count_expiration st = st\<lparr>cs_expirations := sat_add (cs_expirations st) 1\<rparr>"

definition count_miss :: "cache_stats \<Rightarrow> cache_stats" where
  "count_miss st = st\<lparr>cs_misses := sat_add (cs_misses st) 1\<rparr>"

definition expire_key :: "bytes \<Rightarrow> cache_state \<Rightarrow> cache_state" where
  "expire_key key s =
     (case hm_get (mc_entries s) key of
        None \<Rightarrow> s
      | Some e \<Rightarrow> mc_count count_expiration (mc_unlink key e s))"

definition remove_expired :: "nat \<Rightarrow> cache_state \<Rightarrow> cache_state" where
  "remove_expired now s =
     (let expired = map (\<lambda>x. snd (fst x)) (takeWhile (\<lambda>x. fst (fst x) \<le> now) (mc_expirations s))
      in refresh_current_stats (fold expire_key expired s))"

section \<open>Operations\<close>

definition mc_get :: "nat \<Rightarrow> bytes \<Rightarrow> (cache_state, string, bytes option) proc" where
  "mc_get now key =
     st_then (st_try (cache_validate_key key)) (\<lambda>_ s.
       case hm_get (mc_entries s) key of
         None \<Rightarrow> (Ok None, mc_count count_miss s)
       | Some e \<Rightarrow>
           if ce_expires_at e \<le> now
           then (Ok None, refresh_current_stats
                   (mc_count (\<lambda>st. count_miss (count_expiration st)) (mc_unlink key e s)))
           else
             let s = remove_indexes key e (s\<lparr>mc_entries := hm_remove key (mc_entries s)\<rparr>);
                 (order, s) = next_access_order s;
                 e' = e\<lparr>ce_access_order := order\<rparr>;
                 s = insert_indexes key e' s;
                 s = s\<lparr>mc_entries := hm_insert key e' (mc_entries s)\<rparr>
             in (Ok (Some (ce_value e)),
                 mc_count (\<lambda>st. st\<lparr>cs_hits := sat_add (cs_hits st) 1\<rparr>) s))"

text \<open>
  The eviction loop. Each round removes an entry or panics, so the number of entries bounds the
  rounds.
\<close>

definition evict_entry :: "bytes \<Rightarrow> cache_entry \<Rightarrow> cache_state \<Rightarrow> cache_state" where
  "evict_entry oldest e s =
     mc_count (\<lambda>st. st\<lparr>cs_evictions := sat_add (cs_evictions st) 1\<rparr>) (mc_unlink oldest e s)"

function mc_evict :: "cache_state \<Rightarrow> cache_state option" where
  "mc_evict s =
     (if length (mc_entries s) > co_max_entries (mc_options s) \<or> mc_bytes s > co_max_bytes (mc_options s) then
        (case mc_lru s of
           [] \<Rightarrow> Some s
         | ((access, oldest), u) # lru \<Rightarrow>
             (case hm_get (mc_entries s) oldest of
                None \<Rightarrow> None
              | Some e \<Rightarrow> mc_evict (evict_entry oldest e s)))
      else Some s)"
  by pat_completeness auto
termination
proof (relation "measure (\<lambda>s. length (mc_entries s))")
  fix s :: cache_state and access oldest u lru e
  assume "hm_get (mc_entries s) oldest = Some (e :: cache_entry)"
  then have "(oldest, e) \<in> set (mc_entries s)"
    by (simp add: hm_get_def map_of_SomeD)
  then have "length (hm_remove oldest (mc_entries s)) < length (mc_entries s)"
    unfolding hm_remove_def by (rule length_filter_less) simp
  then show "(evict_entry oldest e s, s) \<in> measure (\<lambda>s. length (mc_entries s))"
    by (simp add: evict_entry_def mc_count_def mc_unlink_def remove_indexes_def)
qed simp

declare mc_evict.simps [simp del]

text \<open>\<open>Instant::checked_add\<close>: seconds are a signed 64-bit number.\<close>

definition instant_max :: nat where
  "instant_max = (2 ^ 63 - 1) * 10 ^ 9 + 999999999"

definition instant_add :: "nat \<Rightarrow> nat \<Rightarrow> nat option" where
  "instant_add t d = (if t + d \<le> instant_max then Some (t + d) else None)"

definition cache_deadline :: "nat \<Rightarrow> nat \<Rightarrow> nat" where
  "cache_deadline now ttl = (case instant_add now ttl of Some t \<Rightarrow> t | None \<Rightarrow> now)"

text \<open>The part of \<open>insert_with_ttl\<close> before the eviction loop: replace the entry.\<close>

definition mc_replace :: "bytes \<Rightarrow> bytes \<Rightarrow> nat \<Rightarrow> cache_state \<Rightarrow> cache_state" where
  "mc_replace key val expires_at s =
     (let s = (case hm_get (mc_entries s) key of
                 None \<Rightarrow> s
               | Some previous \<Rightarrow> mc_unlink key previous s);
          (order, s) = next_access_order s;
          e = \<lparr>ce_value = val, ce_expires_at = expires_at, ce_access_order = order\<rparr>;
          s = s\<lparr>mc_bytes := sat_add (mc_bytes s) (cache_entry_size key val)\<rparr>;
          s = insert_indexes key e s;
          s = s\<lparr>mc_entries := hm_insert key e (mc_entries s)\<rparr>
      in mc_count (\<lambda>st. st\<lparr>cs_inserts := sat_add (cs_inserts st) 1\<rparr>) s)"

definition mc_insert_with_ttl ::
    "nat \<Rightarrow> bytes \<Rightarrow> bytes \<Rightarrow> nat \<Rightarrow> cache_state \<Rightarrow> ((string, unit) result \<times> cache_state) option" where
  "mc_insert_with_ttl now key val ttl s =
     (case cache_validate_key key of
        Inl e \<Rightarrow> Some (Err e, s)
      | Inr _ \<Rightarrow>
          if cache_entry_size key val > co_max_bytes (mc_options s) \<and> co_max_bytes (mc_options s) \<noteq> 0
          then Some (Err ''ThingDB cache value exceeds max_bytes'', s)
          else
            let expires_at = cache_deadline now ttl;
                s = remove_expired now s
            in if co_max_entries (mc_options s) = 0 \<or> co_max_bytes (mc_options s) = 0 then Some (Ok (), s)
               else map_option (\<lambda>s. (Ok (), refresh_current_stats s))
                      (mc_evict (mc_replace key val expires_at s)))"

definition mc_insert ::
    "nat \<Rightarrow> bytes \<Rightarrow> bytes \<Rightarrow> cache_state \<Rightarrow> ((string, unit) result \<times> cache_state) option" where
  "mc_insert now key val s = mc_insert_with_ttl now key val (co_default_ttl (mc_options s)) s"

definition mc_remove :: "bytes \<Rightarrow> (cache_state, string, bool) proc" where
  "mc_remove key =
     st_then (st_try (cache_validate_key key)) (\<lambda>_ s.
       case hm_get (mc_entries s) key of
         None \<Rightarrow> (Ok False, s)
       | Some e \<Rightarrow>
           (Ok True, refresh_current_stats
              (mc_count (\<lambda>st. st\<lparr>cs_removals := sat_add (cs_removals st) 1\<rparr>) (mc_unlink key e s))))"

definition mc_clear :: "cache_state \<Rightarrow> cache_state" where
  "mc_clear s =
     refresh_current_stats (s\<lparr>mc_entries := [], mc_lru := [], mc_expirations := [], mc_bytes := 0\<rparr>)"

definition mc_stats_call :: "nat \<Rightarrow> cache_state \<Rightarrow> cache_stats \<times> cache_state" where
  "mc_stats_call now s =
     (let s = refresh_current_stats (remove_expired now s) in (mc_stats s, s))"

text \<open>The calls of the cache's interface, each with the time of its clock; \<open>None\<close> after a panic.\<close>

datatype cache_call =
    CacheGet nat bytes
  | CacheInsert nat bytes bytes
  | CacheInsertTtl nat bytes bytes nat
  | CacheRemove bytes
  | CacheClear
  | CacheStats nat

fun cache_step :: "cache_call \<Rightarrow> cache_state option \<Rightarrow> cache_state option" where
  "cache_step c None = None"
| "cache_step (CacheGet now key) (Some s) = Some (snd (mc_get now key s))"
| "cache_step (CacheInsert now key val) (Some s) = map_option snd (mc_insert now key val s)"
| "cache_step (CacheInsertTtl now key val ttl) (Some s) = map_option snd (mc_insert_with_ttl now key val ttl s)"
| "cache_step (CacheRemove key) (Some s) = Some (snd (mc_remove key s))"
| "cache_step CacheClear (Some s) = Some (mc_clear s)"
| "cache_step (CacheStats now) (Some s) = Some (snd (mc_stats_call now s))"

section \<open>The state is consistent\<close>

text \<open>
  A set of pairs (rank, key) indexes the map when it holds exactly the rank of every entry. The
  recency set and the expiry set are both such an index, and the byte count is the entries' total.
\<close>

definition mc_indexed :: "('e \<Rightarrow> nat) \<Rightarrow> (bytes, 'e) hmap \<Rightarrow> (nat \<times> bytes) bset \<Rightarrow> bool" where
  "mc_indexed rank m ix \<longleftrightarrow> bm_ok ix \<and>
     (\<forall>r k. bm_get ix (r, k) = Some () \<longleftrightarrow> (\<exists>e. hm_get m k = Some e \<and> rank e = r))"

definition mc_weight :: "bytes \<Rightarrow> cache_entry \<Rightarrow> nat" where
  "mc_weight k e = length k + length (ce_value e)"

definition mc_core :: "cache_state \<Rightarrow> bool" where
  "mc_core s \<longleftrightarrow> hm_ok (mc_entries s)
     \<and> mc_indexed ce_access_order (mc_entries s) (mc_lru s)
     \<and> mc_indexed ce_expires_at (mc_entries s) (mc_expirations s)
     \<and> mc_bytes s = hm_total mc_weight (mc_entries s) \<and> mc_bytes s \<le> usize_max"

lemma mc_indexed_remove:
  "mc_indexed rank m ix \<Longrightarrow> hm_get m k = Some e \<Longrightarrow> mc_indexed rank (hm_remove k m) (bm_remove (rank e, k) ix)"
  by (auto simp: mc_indexed_def)

lemma mc_indexed_insert:
  "mc_indexed rank m ix \<Longrightarrow> hm_get m k = None \<Longrightarrow> mc_indexed rank (hm_insert k e m) (bm_insert (rank e, k) () ix)"
  by (auto simp: mc_indexed_def)

lemma mc_indexed_mem:
  "mc_indexed rank m ix \<Longrightarrow> x \<in> set ix \<longleftrightarrow> (\<exists>e. hm_get m (snd (fst x)) = Some e \<and> rank e = fst (fst x))"
  using bm_get_Some_iff [of ix "fst x" "()"] by (cases x) (auto simp: mc_indexed_def)

lemma mc_indexed_keys:
  assumes "mc_indexed rank m ix"
  shows "distinct (map (snd \<circ> fst) ix)" "set (map (snd \<circ> fst) ix) = dom (hm_get m)"
proof -
  have "inj_on (snd \<circ> fst) (set ix)"
    using mc_indexed_mem [OF assms] by (intro inj_onI) (auto simp: prod_eq_iff)
  moreover have "distinct ix"
    using assms bm_ok_distinct [of ix] by (simp add: mc_indexed_def distinct_map)
  ultimately show "distinct (map (snd \<circ> fst) ix)"
    by (simp add: distinct_map)
  have "k \<in> (snd \<circ> fst) ` set ix" if "hm_get m k = Some e" for k e
    using that mc_indexed_mem [OF assms, of "((rank e, k), ())"] by force
  then show "set (map (snd \<circ> fst) ix) = dom (hm_get m)"
    using mc_indexed_mem [OF assms] by auto
qed

lemma mc_core_Nil [simp]: "mc_core (mc_with_clock options)"
  by (simp add: mc_core_def mc_with_clock_def mc_indexed_def)

lemma mc_core_count [simp]:
  "mc_core (mc_count f s) = mc_core s" "mc_core (refresh_current_stats s) = mc_core s"
  by (simp_all add: mc_core_def mc_count_def refresh_current_stats_def)

lemma mc_unlink_fields [simp]:
  "mc_entries (mc_unlink k e s) = hm_remove k (mc_entries s)"
  "mc_lru (mc_unlink k e s) = bm_remove (ce_access_order e, k) (mc_lru s)"
  "mc_expirations (mc_unlink k e s) = bm_remove (ce_expires_at e, k) (mc_expirations s)"
  "mc_next_access_order (mc_unlink k e s) = mc_next_access_order s"
  "mc_options (mc_unlink k e s) = mc_options s" "mc_stats (mc_unlink k e s) = mc_stats s"
  by (simp_all add: mc_unlink_def remove_indexes_def)

lemma mc_count_fields [simp]:
  "mc_entries (mc_count f s) = mc_entries s" "mc_lru (mc_count f s) = mc_lru s"
  "mc_expirations (mc_count f s) = mc_expirations s" "mc_bytes (mc_count f s) = mc_bytes s"
  "mc_next_access_order (mc_count f s) = mc_next_access_order s"
  "mc_options (mc_count f s) = mc_options s" "mc_stats (mc_count f s) = f (mc_stats s)"
  by (simp_all add: mc_count_def)

lemma mc_refresh_fields [simp]:
  "mc_entries (refresh_current_stats s) = mc_entries s" "mc_lru (refresh_current_stats s) = mc_lru s"
  "mc_expirations (refresh_current_stats s) = mc_expirations s" "mc_bytes (refresh_current_stats s) = mc_bytes s"
  "mc_next_access_order (refresh_current_stats s) = mc_next_access_order s"
  "mc_options (refresh_current_stats s) = mc_options s"
  by (simp_all add: refresh_current_stats_def)

lemma mc_core_weight:
  assumes "mc_core s" "hm_get (mc_entries s) k = Some e"
  shows "cache_entry_size k (ce_value e) = mc_weight k e" "mc_weight k e \<le> mc_bytes s"
    "mc_bytes (mc_unlink k e s) = hm_total mc_weight (hm_remove k (mc_entries s))"
proof -
  show w: "mc_weight k e \<le> mc_bytes s"
    using assms hm_total_remove [of "mc_entries s" k e mc_weight] by (simp add: mc_core_def)
  then show size: "cache_entry_size k (ce_value e) = mc_weight k e"
    using assms(1) by (simp add: mc_core_def cache_entry_size_def mc_weight_def)
  show "mc_bytes (mc_unlink k e s) = hm_total mc_weight (hm_remove k (mc_entries s))"
    using assms hm_total_remove [of "mc_entries s" k e mc_weight]
    by (simp add: mc_core_def mc_unlink_def size)
qed

lemma mc_unlink_core:
  assumes "mc_core s" "hm_get (mc_entries s) k = Some e"
  shows "mc_core (mc_unlink k e s)"
proof -
  have "mc_bytes (mc_unlink k e s) \<le> mc_bytes s"
    by (simp add: mc_unlink_def remove_indexes_def)
  then show ?thesis
    using assms mc_core_weight(3) [OF assms] by (simp add: mc_core_def mc_indexed_remove)
qed

section \<open>The specification: a list in order of use\<close>

text \<open>
  A cache as its users see it: the keys with their values and deadlines, least recently used
  first. \<open>lru_evict\<close> drops from the front until both bounds hold.
\<close>

type_synonym lru_row = "bytes \<times> bytes \<times> nat"

definition lru_bytes :: "lru_row list \<Rightarrow> nat" where
  "lru_bytes xs = (\<Sum>(k, v, t) \<leftarrow> xs. length k + length v)"

fun lru_evict :: "cache_options \<Rightarrow> lru_row list \<Rightarrow> lru_row list" where
  "lru_evict opt [] = []"
| "lru_evict opt (x # xs) =
     (if length (x # xs) > co_max_entries opt \<or> lru_bytes (x # xs) > co_max_bytes opt
      then lru_evict opt xs else x # xs)"

definition lru_without :: "bytes \<Rightarrow> lru_row list \<Rightarrow> lru_row list" where
  "lru_without key xs = filter (\<lambda>x. fst x \<noteq> key) xs"

definition lru_live :: "nat \<Rightarrow> lru_row list \<Rightarrow> lru_row list" where
  "lru_live now xs = filter (\<lambda>x. now < snd (snd x)) xs"

definition lru_get :: "nat \<Rightarrow> bytes \<Rightarrow> lru_row list \<Rightarrow> bytes option \<times> lru_row list" where
  "lru_get now key xs =
     (case map_of xs key of
        None \<Rightarrow> (None, xs)
      | Some (v, t) \<Rightarrow>
          if t \<le> now then (None, lru_without key xs) else (Some v, lru_without key xs @ [(key, v, t)]))"

definition lru_insert :: "cache_options \<Rightarrow> nat \<Rightarrow> bytes \<Rightarrow> bytes \<Rightarrow> nat \<Rightarrow> lru_row list \<Rightarrow> lru_row list" where
  "lru_insert opt now key val t xs = lru_evict opt (lru_without key (lru_live now xs) @ [(key, val, t)])"

text \<open>What a state stands for: its entries in the order of the recency set.\<close>

definition mc_row :: "(bytes, cache_entry) hmap \<Rightarrow> bytes \<Rightarrow> lru_row" where
  "mc_row m k = (k, case hm_get m k of None \<Rightarrow> ([], 0) | Some e \<Rightarrow> (ce_value e, ce_expires_at e))"

definition mc_abs :: "cache_state \<Rightarrow> lru_row list" where
  "mc_abs s = map (\<lambda>x. mc_row (mc_entries s) (snd (fst x))) (mc_lru s)"

lemma fst_mc_row [simp]: "fst (mc_row m k) = k"
  by (simp add: mc_row_def)

lemma mc_abs_count [simp]: "mc_abs (mc_count f s) = mc_abs s" "mc_abs (refresh_current_stats s) = mc_abs s"
  by (simp_all add: mc_abs_def)

lemma mc_abs_keys: "map fst (mc_abs s) = map (snd \<circ> fst) (mc_lru s)"
  by (simp add: mc_abs_def)

lemma mc_abs_mem:
  assumes "mc_core s"
  shows "(k, v, t) \<in> set (mc_abs s) \<longleftrightarrow> (\<exists>e. hm_get (mc_entries s) k = Some e \<and> ce_value e = v \<and> ce_expires_at e = t)"
    (is "_ = ?R")
proof
  assume "(k, v, t) \<in> set (mc_abs s)"
  then obtain x where x: "x \<in> set (mc_lru s)" "mc_row (mc_entries s) (snd (fst x)) = (k, v, t)"
    by (auto simp: mc_abs_def)
  then show ?R
    using assms mc_indexed_mem [of ce_access_order "mc_entries s" "mc_lru s" x]
    by (auto simp: mc_core_def mc_row_def)
next
  assume ?R
  then obtain e where e: "hm_get (mc_entries s) k = Some e" "ce_value e = v" "ce_expires_at e = t"
    by blast
  then have "((ce_access_order e, k), ()) \<in> set (mc_lru s)"
    using assms mc_indexed_mem [of ce_access_order "mc_entries s" "mc_lru s" "((ce_access_order e, k), ())"]
    by (simp add: mc_core_def)
  then show "(k, v, t) \<in> set (mc_abs s)"
    using e by (force simp: mc_abs_def mc_row_def)
qed

lemma mc_abs_distinct: "mc_core s \<Longrightarrow> distinct (map fst (mc_abs s))"
  unfolding mc_abs_keys mc_core_def by (rule mc_indexed_keys(1)) blast

lemma mc_abs_map_of:
  assumes "mc_core s"
  shows "map_of (mc_abs s) k = map_option (\<lambda>e. (ce_value e, ce_expires_at e)) (hm_get (mc_entries s) k)"
proof (cases "hm_get (mc_entries s) k")
  case None
  then show ?thesis
    using mc_abs_mem [OF assms, of k] by (auto simp: map_of_eq_None_iff)
next
  case (Some e)
  then have "(k, ce_value e, ce_expires_at e) \<in> set (mc_abs s)"
    using mc_abs_mem [OF assms] by blast
  then show ?thesis
    using Some mc_abs_distinct [OF assms] by simp
qed

text \<open>The list has the map's entries, so its length and its bytes are the map's.\<close>

lemma mc_abs_mset:
  assumes "mc_core s"
  shows "mset (mc_abs s) = mset (map (\<lambda>x. (fst x, ce_value (snd x), ce_expires_at (snd x))) (mc_entries s))"
    (is "_ = mset ?ys")
proof -
  have ok: "hm_ok (mc_entries s)"
    using assms by (simp add: mc_core_def)
  then have "distinct (map fst ?ys)"
    by (simp add: hm_ok_def comp_def)
  then have "distinct ?ys"
    by (rule distinct_map [THEN iffD1, THEN conjunct1])
  moreover have "distinct (mc_abs s)"
    using mc_abs_distinct [OF assms] by (simp add: distinct_map)
  moreover have "x \<in> set (mc_abs s) \<longleftrightarrow> x \<in> set ?ys" for x
  proof -
    obtain k v t where x: "x = (k, v, t)" by (cases x) auto
    show ?thesis
      unfolding x mc_abs_mem [OF assms] hm_get_Some_iff [OF ok] by force
  qed
  ultimately show ?thesis
    by (subst set_eq_iff_mset_eq_distinct [symmetric]) auto
qed

lemma mc_abs_size:
  assumes "mc_core s"
  shows "length (mc_abs s) = length (mc_entries s)" "lru_bytes (mc_abs s) = mc_bytes s"
proof -
  note eq = mc_abs_mset [OF assms]
  show "length (mc_abs s) = length (mc_entries s)"
    using arg_cong [OF eq, of size] by simp
  have "lru_bytes (mc_abs s) = sum_mset (image_mset (\<lambda>(k, v, t). length k + length v) (mset (mc_abs s)))"
    by (simp add: lru_bytes_def flip: sum_mset_sum_list)
  also have "\<dots> = hm_total mc_weight (mc_entries s)"
    unfolding eq by (simp add: hm_total_def mc_weight_def comp_def image_mset.compositionality
        flip: sum_mset_sum_list)
  finally show "lru_bytes (mc_abs s) = mc_bytes s"
    using assms by (simp add: mc_core_def)
qed

section \<open>Each operation does what the specification says\<close>

lemma mc_unlink_abs:
  assumes "mc_core s" "hm_get (mc_entries s) k = Some e"
  shows "mc_abs (mc_unlink k e s) = lru_without k (mc_abs s)"
proof -
  have ix: "mc_indexed ce_access_order (mc_entries s) (mc_lru s)"
    using assms(1) by (simp add: mc_core_def)
  have "fst x \<noteq> (ce_access_order e, k) \<longleftrightarrow> snd (fst x) \<noteq> k" if "x \<in> set (mc_lru s)" for x
    using that assms(2) mc_indexed_mem [OF ix, of x] by (auto simp: prod_eq_iff)
  then have "bm_remove (ce_access_order e, k) (mc_lru s) = filter (\<lambda>x. snd (fst x) \<noteq> k) (mc_lru s)"
    unfolding bm_remove_def by (rule filter_cong [OF refl])
  then show ?thesis
    by (auto simp: mc_abs_def lru_without_def filter_map comp_def mc_row_def intro!: map_cong filter_cong)
qed

text \<open>Expiry: the expired keys are the ones at the front of the expiry set.\<close>

lemma expire_key_core: "mc_core s \<Longrightarrow> mc_core (expire_key k s)"
  by (simp add: expire_key_def mc_unlink_core split: option.split)

lemma lru_without_absent: "map_of xs k = None \<Longrightarrow> lru_without k xs = xs"
  by (force simp: lru_without_def map_of_eq_None_iff intro!: filter_True)

lemma expire_key_abs: "mc_core s \<Longrightarrow> mc_abs (expire_key k s) = lru_without k (mc_abs s)"
  by (auto simp: expire_key_def mc_unlink_abs lru_without_absent mc_abs_map_of split: option.split)

lemma fold_expire_key:
  "mc_core s \<Longrightarrow> mc_core (fold expire_key ks s)
     \<and> mc_abs (fold expire_key ks s) = filter (\<lambda>x. fst x \<notin> set ks) (mc_abs s)"
  by (induction ks arbitrary: s)
    (auto simp: expire_key_core expire_key_abs lru_without_def intro!: filter_cong)

lemma expire_key_fields [simp]:
  "mc_next_access_order (expire_key k s) = mc_next_access_order s"
  "mc_options (expire_key k s) = mc_options s"
  by (simp_all add: expire_key_def split: option.split)

lemma fold_expire_key_fields [simp]:
  "mc_next_access_order (fold expire_key ks s) = mc_next_access_order s"
  "mc_options (fold expire_key ks s) = mc_options s"
  by (induction ks arbitrary: s) simp_all

lemma remove_expired_fields [simp]:
  "mc_next_access_order (remove_expired now s) = mc_next_access_order s"
  "mc_options (remove_expired now s) = mc_options s"
  by (simp_all add: remove_expired_def Let_def)

lemma takeWhile_ranks:
  "bm_ok (ix :: (nat \<times> bytes) bset) \<Longrightarrow>
     takeWhile (\<lambda>x. fst (fst x) \<le> now) ix = filter (\<lambda>x. fst (fst x) \<le> now) ix"
proof (induction ix)
  case (Cons a ix)
  then have "fst (fst a) \<le> fst (fst x)" if "x \<in> set ix" for x
    using that by (fastforce simp: less_prod_def')
  then show ?case
    using Cons by (cases "fst (fst a) \<le> now") (force intro!: filter_False [symmetric])+
qed simp

lemma remove_expired_refines:
  assumes "mc_core s"
  shows "mc_core (remove_expired now s)" "mc_abs (remove_expired now s) = lru_live now (mc_abs s)"
proof -
  define ks where "ks = map (\<lambda>x. snd (fst x)) (takeWhile (\<lambda>x. fst (fst x) \<le> now) (mc_expirations s))"
  have ix: "mc_indexed ce_expires_at (mc_entries s) (mc_expirations s)"
    using assms by (simp add: mc_core_def)
  then have ok: "bm_ok (mc_expirations s)"
    by (simp add: mc_indexed_def)
  have mem: "k \<in> set ks \<longleftrightarrow> t \<le> now" if row: "(k, v, t) \<in> set (mc_abs s)" for k v t
  proof -
    obtain e where e: "hm_get (mc_entries s) k = Some e" "ce_expires_at e = t"
      using row mc_abs_mem [OF assms, of k v t] by blast
    have mem: "((t, k), ()) \<in> set (mc_expirations s)"
      using e mc_indexed_mem [OF ix, of "((t, k), ())"] by simp
    have ks: "k \<in> set ks \<longleftrightarrow> (\<exists>x \<in> set (mc_expirations s). fst (fst x) \<le> now \<and> k = snd (fst x))"
      unfolding ks_def takeWhile_ranks [OF ok] set_map set_filter image_iff by blast
    have rank: "fst (fst x) = t" if "x \<in> set (mc_expirations s)" "k = snd (fst x)" for x
      using that e mc_indexed_mem [OF ix, of x] by simp
    show ?thesis
      unfolding ks
    proof
      assume "t \<le> now"
      with mem show "\<exists>x \<in> set (mc_expirations s). fst (fst x) \<le> now \<and> k = snd (fst x)"
        by (intro bexI [where x = "((t, k), ())"]) simp_all
    qed (use rank in metis)
  qed
  have "remove_expired now s = refresh_current_stats (fold expire_key ks s)"
    by (simp add: remove_expired_def ks_def Let_def)
  then show "mc_core (remove_expired now s)" "mc_abs (remove_expired now s) = lru_live now (mc_abs s)"
    using fold_expire_key [OF assms, of ks] mem
    by (auto simp: lru_live_def not_le intro!: filter_cong)
qed

text \<open>An access number not below the ones given so far puts the key at the end.\<close>

definition mc_fresh :: "cache_state \<Rightarrow> bool" where
  "mc_fresh s \<longleftrightarrow> (\<forall>x \<in> set (mc_lru s). fst (fst x) < mc_next_access_order s)"

definition mc_link :: "bytes \<Rightarrow> cache_entry \<Rightarrow> cache_state \<Rightarrow> cache_state" where
  "mc_link k e s = s\<lparr>mc_entries := hm_insert k e (mc_entries s),
     mc_lru := bm_insert (ce_access_order e, k) () (mc_lru s),
     mc_expirations := bm_insert (ce_expires_at e, k) () (mc_expirations s),
     mc_bytes := mc_bytes s + mc_weight k e,
     mc_next_access_order := sat_add (mc_next_access_order s) 1\<rparr>"

lemma mc_link_fields [simp]:
  "mc_entries (mc_link k e s) = hm_insert k e (mc_entries s)"
  "mc_lru (mc_link k e s) = bm_insert (ce_access_order e, k) () (mc_lru s)"
  "mc_bytes (mc_link k e s) = mc_bytes s + mc_weight k e"
  "mc_next_access_order (mc_link k e s) = sat_add (mc_next_access_order s) 1"
  "mc_options (mc_link k e s) = mc_options s" "mc_stats (mc_link k e s) = mc_stats s"
  by (simp_all add: mc_link_def)

lemma mc_link_core:
  assumes "mc_core s" "hm_get (mc_entries s) k = None" "mc_bytes s + mc_weight k e \<le> usize_max"
  shows "mc_core (mc_link k e s)"
  using assms by (simp add: mc_core_def mc_link_def mc_indexed_insert hm_total_insert)

lemma bm_insert_end: "(\<And>x. x \<in> set m \<Longrightarrow> fst x < k) \<Longrightarrow> bm_insert k v m = m @ [(k, v)]"
  by (induction m) auto

lemma mc_link_abs:
  assumes "mc_core s" "hm_get (mc_entries s) k = None" "mc_fresh s" "ce_access_order e = mc_next_access_order s"
  shows "mc_abs (mc_link k e s) = mc_abs s @ [(k, ce_value e, ce_expires_at e)]"
proof -
  have ix: "mc_indexed ce_access_order (mc_entries s) (mc_lru s)"
    using assms(1) by (simp add: mc_core_def)
  have "mc_lru (mc_link k e s) = mc_lru s @ [((ce_access_order e, k), ())]"
    unfolding mc_link_fields using assms(3,4)
    by (intro bm_insert_end) (simp add: mc_fresh_def less_prod_def')
  moreover have "snd (fst x) \<noteq> k" if "x \<in> set (mc_lru s)" for x
    using that assms(2) mc_indexed_mem [OF ix, of x] by auto
  ultimately show ?thesis
    by (auto simp: mc_abs_def mc_row_def)
qed

lemma set_bm_insert_fst: "x \<in> set (bm_insert k v m) \<Longrightarrow> fst x = k \<or> x \<in> set m"
  using set_bm_insert_sub [of k v m] by auto

lemma mc_link_fresh:
  assumes "mc_fresh s" "ce_access_order e = mc_next_access_order s" "mc_next_access_order s < usize_max"
  shows "mc_fresh (mc_link k e s)"
  using assms by (auto simp: mc_fresh_def dest!: set_bm_insert_fst intro: less_SucI)

lemma mc_fresh_sub:
  assumes "mc_fresh s" "set (mc_lru s') \<subseteq> set (mc_lru s)" "mc_next_access_order s' = mc_next_access_order s"
  shows "mc_fresh s'"
  using assms by (auto simp: mc_fresh_def)

lemma mc_unlink_fresh [simp]: "mc_fresh s \<Longrightarrow> mc_fresh (mc_unlink k e s)"
  by (rule mc_fresh_sub) (simp_all add: bm_remove_def)

lemma mc_count_fresh [simp]:
  "mc_fresh (mc_count f s) = mc_fresh s" "mc_fresh (refresh_current_stats s) = mc_fresh s"
  by (simp_all add: mc_fresh_def)

lemma fold_expire_key_fresh: "mc_fresh s \<Longrightarrow> mc_fresh (fold expire_key ks s)"
  by (induction ks arbitrary: s) (simp_all add: expire_key_def split: option.split)

lemma remove_expired_fresh [simp]: "mc_fresh s \<Longrightarrow> mc_fresh (remove_expired now s)"
  by (simp add: remove_expired_def Let_def fold_expire_key_fresh)

text \<open>The eviction loop returns, within both bounds, having dropped the front of the list.\<close>

definition mc_within :: "cache_state \<Rightarrow> bool" where
  "mc_within s \<longleftrightarrow> length (mc_entries s) \<le> co_max_entries (mc_options s)
     \<and> mc_bytes s \<le> co_max_bytes (mc_options s)"

lemma mc_evict_within: "mc_within s \<Longrightarrow> mc_evict s = Some s"
  by (subst mc_evict.simps) (simp add: mc_within_def)

lemma mc_evict_over:
  assumes "\<not> mc_within s" "mc_lru s = ((a, k), u) # lru" "hm_get (mc_entries s) k = Some e"
  shows "mc_evict s = mc_evict (evict_entry k e s)"
  by (subst mc_evict.simps) (use assms in \<open>auto simp: mc_within_def\<close>)

lemma mc_abs_Cons:
  assumes "mc_core s" "mc_lru s = ((a, k), u) # lru"
  obtains e where "hm_get (mc_entries s) k = Some e"
    "mc_abs s = (k, ce_value e, ce_expires_at e) # lru_without k (mc_abs s)"
proof -
  have ix: "mc_indexed ce_access_order (mc_entries s) (mc_lru s)"
    using assms(1) by (simp add: mc_core_def)
  obtain e where e: "hm_get (mc_entries s) k = Some e"
    using mc_indexed_mem [OF ix, of "((a, k), u)"] assms(2) by auto
  moreover have "mc_abs s = (k, ce_value e, ce_expires_at e) # lru_without k (mc_abs s)"
    using mc_abs_distinct [OF assms(1)] e assms(2)
    by (auto simp: mc_abs_def lru_without_def mc_row_def image_iff intro!: filter_True [symmetric])
  ultimately show ?thesis by (rule that)
qed

lemma lru_evict_over:
  "xs = x # ys \<Longrightarrow> length xs > co_max_entries opt \<or> lru_bytes xs > co_max_bytes opt \<Longrightarrow>
     lru_evict opt xs = lru_evict opt ys"
  by auto

lemma mc_evict_refines:
  assumes "mc_core s"
  shows "\<exists>s'. mc_evict s = Some s' \<and> mc_core s' \<and> mc_within s'
    \<and> mc_abs s' = lru_evict (mc_options s) (mc_abs s) \<and> set (mc_lru s') \<subseteq> set (mc_lru s)
    \<and> mc_options s' = mc_options s \<and> mc_next_access_order s' = mc_next_access_order s"
  using assms
proof (induction "length (mc_entries s)" arbitrary: s rule: less_induct)
  case less
  note size = mc_abs_size [OF less.prems]
  show ?case
  proof (cases "mc_within s")
    case True
    moreover have "lru_evict (mc_options s) (mc_abs s) = mc_abs s"
      using True size by (cases "mc_abs s") (auto simp: mc_within_def simp del: length_Cons)
    ultimately show ?thesis
      using less.prems by (simp add: mc_evict_within)
  next
    case over: False
    show ?thesis
    proof (cases "mc_lru s")
      case Nil
      then have "length (mc_entries s) = 0" "mc_bytes s = 0"
        using size by (simp_all add: mc_abs_def lru_bytes_def)
      then show ?thesis
        using over by (simp add: mc_within_def)
    next
      case (Cons x lru)
      obtain a k u where x: "x = ((a, k), u)" by (metis surj_pair)
      obtain e where e: "hm_get (mc_entries s) k = Some e"
        "mc_abs s = (k, ce_value e, ce_expires_at e) # lru_without k (mc_abs s)"
        using less.prems Cons [unfolded x] by (rule mc_abs_Cons)
      let ?t = "evict_entry k e s"
      have core: "mc_core ?t" and abs: "mc_abs ?t = lru_without k (mc_abs s)"
        using mc_unlink_core [OF less.prems e(1)] mc_unlink_abs [OF less.prems e(1)]
        by (simp_all add: evict_entry_def)
      have "length (mc_entries ?t) < length (mc_entries s)"
        using mc_abs_size(1) [OF core] size(1) arg_cong [OF e(2), of length] by (simp add: abs)
      then obtain s' where s': "mc_evict ?t = Some s' \<and> mc_core s' \<and> mc_within s'
        \<and> mc_abs s' = lru_evict (mc_options ?t) (mc_abs ?t) \<and> set (mc_lru s') \<subseteq> set (mc_lru ?t)
        \<and> mc_options s' = mc_options ?t \<and> mc_next_access_order s' = mc_next_access_order ?t"
        using less.hyps [OF _ core] by blast
      have "lru_evict (mc_options s) (mc_abs s) = lru_evict (mc_options s) (lru_without k (mc_abs s))"
        using over size by (intro lru_evict_over [OF e(2)]) (auto simp: mc_within_def)
      moreover have "mc_options ?t = mc_options s" "mc_next_access_order ?t = mc_next_access_order s"
        "set (mc_lru ?t) \<subseteq> set (mc_lru s)"
        by (simp_all add: evict_entry_def bm_remove_def)
      ultimately show ?thesis
        using s' mc_evict_over [OF over Cons [unfolded x] e(1)] abs by auto
    qed
  qed
qed

section \<open>The invariant of the cache\<close>

definition mc_inv :: "cache_state \<Rightarrow> bool" where
  "mc_inv s \<longleftrightarrow> mc_core s \<and> mc_within s \<and> 2 * co_max_bytes (mc_options s) \<le> usize_max
     \<and> cs_current_entries (mc_stats s) = length (mc_entries s) \<and> cs_current_bytes (mc_stats s) = mc_bytes s"

lemma mc_invD:
  assumes "mc_inv s"
  shows "mc_core s" "mc_within s" "2 * co_max_bytes (mc_options s) \<le> usize_max"
  using assms by (simp_all add: mc_inv_def)

lemma mc_inv_refresh:
  "mc_core s \<Longrightarrow> mc_within s \<Longrightarrow> 2 * co_max_bytes (mc_options s) \<le> usize_max \<Longrightarrow> mc_inv (refresh_current_stats s)"
  by (simp add: mc_inv_def mc_within_def) (simp add: refresh_current_stats_def)

lemma mc_within_count [simp]:
  "mc_within (mc_count f s) = mc_within s" "mc_within (refresh_current_stats s) = mc_within s"
  by (simp_all add: mc_within_def)

lemma lru_bytes_filter: "lru_bytes (filter P xs) \<le> lru_bytes xs"
  by (induction xs) (auto simp: lru_bytes_def)

lemma lru_without_length: "length (lru_without k xs) \<le> length xs" "lru_bytes (lru_without k xs) \<le> lru_bytes xs"
  by (simp_all add: lru_without_def lru_bytes_filter)

lemma lru_live_length: "length (lru_live now xs) \<le> length xs" "lru_bytes (lru_live now xs) \<le> lru_bytes xs"
  by (simp_all add: lru_live_def lru_bytes_filter)

lemma mc_within_abs:
  assumes "mc_core s" "mc_core s'" "mc_within s" "mc_options s' = mc_options s"
    "length (mc_abs s') \<le> length (mc_abs s)" "lru_bytes (mc_abs s') \<le> lru_bytes (mc_abs s)"
  shows "mc_within s'"
  using assms mc_abs_size [OF assms(1)] mc_abs_size [OF assms(2)] by (simp add: mc_within_def)

lemma mc_unlink_within:
  assumes "mc_core s" "mc_within s" "hm_get (mc_entries s) k = Some e"
  shows "mc_within (mc_unlink k e s)"
  by (rule mc_within_abs [of s]) (use assms in \<open>simp_all add: mc_unlink_core mc_unlink_abs lru_without_length\<close>)

lemma remove_expired_inv: "mc_inv s \<Longrightarrow> mc_inv (remove_expired now s)"
proof -
  assume inv: "mc_inv s"
  note D = mc_invD [OF inv]
  have "mc_within (remove_expired now s)"
    by (rule mc_within_abs [of s]) (use D in \<open>simp_all add: remove_expired_refines lru_live_length\<close>)
  then have "mc_inv (refresh_current_stats (remove_expired now s))"
    using D by (intro mc_inv_refresh) (simp_all add: remove_expired_refines)
  then show ?thesis
    by (simp add: remove_expired_def Let_def refresh_current_stats_def)
qed

subsection \<open>Reading\<close>

lemma mc_get_hit:
  assumes "mc_core s" "hm_get (mc_entries s) k = Some e" "\<not> ce_expires_at e \<le> now" "k \<noteq> []"
  shows "mc_get now k s = (Ok (Some (ce_value e)),
    mc_count (\<lambda>st. st\<lparr>cs_hits := sat_add (cs_hits st) 1\<rparr>)
      (mc_link k (e\<lparr>ce_access_order := mc_next_access_order s\<rparr>) (mc_unlink k e s)))"
proof -
  have "mc_weight k (e\<lparr>ce_access_order := n\<rparr>) = mc_weight k e" for n
    by (simp add: mc_weight_def)
  moreover have "mc_bytes (mc_unlink k e s) + mc_weight k e = mc_bytes s"
    using mc_core_weight(1,2) [OF assms(1,2)] by (simp add: mc_unlink_def)
  ultimately show ?thesis
    using assms(2-4)
    by (simp add: mc_get_def cache_validate_key_def mc_link_def mc_unlink_def remove_indexes_def
        insert_indexes_def next_access_order_def Let_def mc_count_def)
qed

lemma mc_get_cases [consumes 1, case_names empty miss expired hit]:
  assumes "mc_core s"
  obtains "k = []" "mc_get now k s = (Err ''ThingDB cache keys must be non-empty'', s)"
  | "k \<noteq> []" "hm_get (mc_entries s) k = None" "mc_get now k s = (Ok None, mc_count count_miss s)"
  | e where "k \<noteq> []" "hm_get (mc_entries s) k = Some e" "ce_expires_at e \<le> now"
      "mc_get now k s = (Ok None, refresh_current_stats
         (mc_count (\<lambda>st. count_miss (count_expiration st)) (mc_unlink k e s)))"
  | e where "k \<noteq> []" "hm_get (mc_entries s) k = Some e" "\<not> ce_expires_at e \<le> now"
      "mc_get now k s = (Ok (Some (ce_value e)), mc_count (\<lambda>st. st\<lparr>cs_hits := sat_add (cs_hits st) 1\<rparr>)
         (mc_link k (e\<lparr>ce_access_order := mc_next_access_order s\<rparr>) (mc_unlink k e s)))"
proof (cases "k = []")
  case False
  then show ?thesis
  proof (cases "hm_get (mc_entries s) k")
    case None
    with False show ?thesis
      by (intro that(2)) (simp_all add: mc_get_def cache_validate_key_def)
  next
    case (Some e)
    show ?thesis
    proof (cases "ce_expires_at e \<le> now")
      case True
      with False Some show ?thesis
        by (intro that(3)) (simp_all add: mc_get_def cache_validate_key_def)
    next
      case live: False
      show ?thesis
        by (rule that(4) [OF False Some live mc_get_hit [OF assms Some live False]])
    qed
  qed
qed (simp add: that(1) mc_get_def cache_validate_key_def)

lemma mc_relink:
  assumes "mc_core s" "hm_get (mc_entries s) k = Some e"
  defines "t \<equiv> mc_link k (e\<lparr>ce_access_order := mc_next_access_order s\<rparr>) (mc_unlink k e s)"
  shows "mc_core t" "length (mc_entries t) = length (mc_entries s)" "mc_bytes t = mc_bytes s"
proof -
  let ?e = "e\<lparr>ce_access_order := mc_next_access_order s\<rparr>"
  have w: "mc_bytes (mc_unlink k e s) + mc_weight k ?e = mc_bytes s"
    using mc_core_weight(1,2) [OF assms(1,2)] by (simp add: mc_unlink_def mc_weight_def)
  moreover have "mc_bytes s \<le> usize_max"
    using assms(1) by (simp add: mc_core_def)
  ultimately show core: "mc_core t"
    unfolding t_def using mc_unlink_core [OF assms(1,2)] by (intro mc_link_core) simp_all
  show "mc_bytes t = mc_bytes s"
    unfolding t_def using w by simp
  have "length (hm_remove k (mc_entries s)) = length (mc_entries s) - 1 \<and> 1 \<le> length (mc_entries s)"
    using assms(1,2) hm_total_remove [of "mc_entries s" k e "\<lambda>_ _. 1"]
    by (simp add: mc_core_def hm_total_def sum_list_triv)
  then have "Suc (length (hm_remove k (mc_entries s))) = length (mc_entries s)"
    by linarith
  then show "length (mc_entries t) = length (mc_entries s)"
    by (simp add: t_def hm_insert_def hm_remove_def)
qed

lemma mc_get_inv:
  assumes "mc_inv s"
  shows "mc_inv (snd (mc_get now k s))"
  using mc_invD(1) [OF assms]
proof (cases rule: mc_get_cases [where k = k and now = now])
  case empty
  then show ?thesis using assms by simp
next
  case miss
  then show ?thesis using assms by (simp add: mc_inv_def count_miss_def)
next
  case (expired e)
  then show ?thesis
    using mc_invD [OF assms] by (simp add: mc_inv_refresh mc_unlink_core mc_unlink_within)
next
  case (hit e)
  then show ?thesis
    using assms mc_relink [OF mc_invD(1) [OF assms] hit(2)] by (simp add: mc_inv_def mc_within_def)
qed

lemma mc_get_refines:
  assumes "mc_core s" "mc_fresh s" "mc_next_access_order s < usize_max" "k \<noteq> []"
  shows "fst (mc_get now k s) = Ok (fst (lru_get now k (mc_abs s)))
    \<and> mc_abs (snd (mc_get now k s)) = snd (lru_get now k (mc_abs s)) \<and> mc_fresh (snd (mc_get now k s))"
  using assms(1)
proof (cases rule: mc_get_cases [where k = k and now = now])
  case (expired e)
  then show ?thesis
    using assms by (simp add: lru_get_def mc_abs_map_of mc_unlink_abs)
next
  case (hit e)
  let ?e = "e\<lparr>ce_access_order := mc_next_access_order s\<rparr>"
  have "mc_abs (mc_link k ?e (mc_unlink k e s)) = mc_abs (mc_unlink k e s) @ [(k, ce_value ?e, ce_expires_at ?e)]"
    using assms hit mc_unlink_core [OF assms(1) hit(2)] by (intro mc_link_abs) simp_all
  moreover have "mc_fresh (mc_link k ?e (mc_unlink k e s))"
    using assms by (intro mc_link_fresh) simp_all
  ultimately show ?thesis
    using assms hit by (simp add: lru_get_def mc_abs_map_of mc_unlink_abs)
qed (use assms in \<open>simp_all add: lru_get_def mc_abs_map_of\<close>)

lemma mc_get_order:
  "mc_next_access_order (snd (mc_get now k s)) \<le> sat_add (mc_next_access_order s) 1
     \<or> mc_next_access_order (snd (mc_get now k s)) = mc_next_access_order s"
  "mc_options (snd (mc_get now k s)) = mc_options s"
  by (cases "k = []"; simp add: mc_get_def cache_validate_key_def next_access_order_def insert_indexes_def
      remove_indexes_def Let_def split: option.split)+

subsection \<open>Writing\<close>

definition mc_forget :: "bytes \<Rightarrow> cache_state \<Rightarrow> cache_state" where
  "mc_forget k s = (case hm_get (mc_entries s) k of None \<Rightarrow> s | Some e \<Rightarrow> mc_unlink k e s)"

lemma mc_forget:
  assumes "mc_core s"
  shows "mc_core (mc_forget k s)" "mc_abs (mc_forget k s) = lru_without k (mc_abs s)"
    "hm_get (mc_entries (mc_forget k s)) k = None" "mc_fresh s \<Longrightarrow> mc_fresh (mc_forget k s)"
    "mc_within s \<Longrightarrow> mc_within (mc_forget k s)" "mc_options (mc_forget k s) = mc_options s"
    "mc_next_access_order (mc_forget k s) = mc_next_access_order s"
  using assms
  by (auto simp: mc_forget_def mc_unlink_core mc_unlink_abs mc_unlink_within lru_without_absent mc_abs_map_of
      split: option.split)

lemma mc_replace_link:
  assumes "mc_core s" "length k + length v + mc_bytes (mc_forget k s) \<le> usize_max"
  shows "mc_replace k v t s = mc_count (\<lambda>st. st\<lparr>cs_inserts := sat_add (cs_inserts st) 1\<rparr>)
    (mc_link k \<lparr>ce_value = v, ce_expires_at = t, ce_access_order = mc_next_access_order s\<rparr> (mc_forget k s))"
proof -
  have "mc_next_access_order (mc_forget k s) = mc_next_access_order s"
    by (rule mc_forget [OF assms(1)])
  then show ?thesis
    using assms(2)
    by (simp add: mc_replace_def mc_link_def mc_forget_def [symmetric] next_access_order_def insert_indexes_def
        Let_def mc_count_def mc_weight_def cache_entry_size_def add.commute)
qed

lemma mc_replace_refines:
  assumes "mc_inv s" "cache_entry_size k v \<le> co_max_bytes (mc_options s)"
  shows "mc_core (mc_replace k v t s)" "mc_options (mc_replace k v t s) = mc_options s"
    "mc_next_access_order (mc_replace k v t s) = sat_add (mc_next_access_order s) 1"
    "mc_fresh s \<Longrightarrow> mc_next_access_order s < usize_max \<Longrightarrow>
       mc_abs (mc_replace k v t s) = lru_without k (mc_abs s) @ [(k, v, t)] \<and> mc_fresh (mc_replace k v t s)"
proof -
  note D = mc_invD [OF assms(1)]
  note F = mc_forget [OF D(1), of k]
  let ?e = "\<lparr>ce_value = v, ce_expires_at = t, ce_access_order = mc_next_access_order s\<rparr>"
  have kv: "length k + length v \<le> co_max_bytes (mc_options s)"
    using assms(2) D(3) usize_max_pos by (simp add: cache_entry_size_def sat_add_def min_def split: if_splits)
  moreover have "mc_bytes (mc_forget k s) \<le> co_max_bytes (mc_options s)"
    using F(5) [OF D(2)] F(6) by (simp add: mc_within_def)
  ultimately have fits: "length k + length v + mc_bytes (mc_forget k s) \<le> usize_max"
    using D(3) by linarith
  note link = mc_replace_link [OF D(1) fits]
  show "mc_core (mc_replace k v t s)"
    unfolding link using F fits by (simp add: mc_link_core mc_weight_def add.commute)
  show "mc_options (mc_replace k v t s) = mc_options s"
    "mc_next_access_order (mc_replace k v t s) = sat_add (mc_next_access_order s) 1"
    unfolding link using F by simp_all
  assume fresh: "mc_fresh s" "mc_next_access_order s < usize_max"
  then have "mc_fresh (mc_link k ?e (mc_forget k s))"
    using F by (intro mc_link_fresh) simp_all
  then show "mc_abs (mc_replace k v t s) = lru_without k (mc_abs s) @ [(k, v, t)] \<and> mc_fresh (mc_replace k v t s)"
    unfolding link using F fresh mc_link_abs [OF F(1,3), of ?e] by simp
qed

lemma mc_insert_cases:
  assumes "mc_inv s"
  obtains (rejected) msg where "mc_insert_with_ttl now k v ttl s = Some (Err msg, s)"
    "k = [] \<or> cache_entry_size k v > co_max_bytes (mc_options s)"
  | (off) "mc_insert_with_ttl now k v ttl s = Some (Ok (), remove_expired now s)" "k \<noteq> []"
    "co_max_entries (mc_options s) = 0 \<or> co_max_bytes (mc_options s) = 0"
  | (stored) s' where "mc_insert_with_ttl now k v ttl s = Some (Ok (), refresh_current_stats s')" "k \<noteq> []"
    "cache_entry_size k v \<le> co_max_bytes (mc_options s)"
    "co_max_entries (mc_options s) \<noteq> 0" "co_max_bytes (mc_options s) \<noteq> 0"
    "mc_evict (mc_replace k v (cache_deadline now ttl) (remove_expired now s)) = Some s'"
    "mc_core s'" "mc_within s'" "mc_options s' = mc_options s"
proof -
  let ?r = "mc_replace k v (cache_deadline now ttl) (remove_expired now s)"
  consider "k = []" | "k \<noteq> []" "cache_entry_size k v > co_max_bytes (mc_options s)" "co_max_bytes (mc_options s) \<noteq> 0"
    | "k \<noteq> []" "co_max_entries (mc_options s) = 0 \<or> co_max_bytes (mc_options s) = 0"
        "\<not> (cache_entry_size k v > co_max_bytes (mc_options s) \<and> co_max_bytes (mc_options s) \<noteq> 0)"
    | "k \<noteq> []" "cache_entry_size k v \<le> co_max_bytes (mc_options s)"
        "co_max_entries (mc_options s) \<noteq> 0" "co_max_bytes (mc_options s) \<noteq> 0"
    by fastforce
  then show thesis
  proof cases
    case 4
    have r: "mc_core ?r" "mc_options ?r = mc_options s"
      using mc_replace_refines(1,2) [OF remove_expired_inv [OF assms], of k v now] 4(2) by simp_all
    obtain s' where s': "mc_evict ?r = Some s'" "mc_core s'" "mc_within s'" "mc_options s' = mc_options s"
      using mc_evict_refines [OF r(1)] r(2) by auto
    then show thesis
      using 4 by (intro stored [of s']) (simp_all add: mc_insert_with_ttl_def cache_validate_key_def Let_def)
  qed (auto simp: mc_insert_with_ttl_def cache_validate_key_def Let_def intro: rejected off)
qed

lemma mc_insert_inv:
  assumes "mc_inv s"
  shows "\<exists>r s'. mc_insert_with_ttl now k v ttl s = Some (r, s') \<and> mc_inv s' \<and> mc_options s' = mc_options s"
  using assms
proof (cases rule: mc_insert_cases [where now = now and k = k and v = v and ttl = ttl])
  case (stored s')
  then show ?thesis
    using mc_inv_refresh [of s'] mc_invD(3) [OF assms] by simp
qed (simp_all add: assms remove_expired_inv)

lemma mc_insert_refines:
  assumes "mc_inv s" "mc_fresh s" "mc_next_access_order s < usize_max" "k \<noteq> []"
    "cache_entry_size k v \<le> co_max_bytes (mc_options s)"
    "co_max_entries (mc_options s) \<noteq> 0" "co_max_bytes (mc_options s) \<noteq> 0"
  shows "\<exists>s'. mc_insert_with_ttl now k v ttl s = Some (Ok (), s') \<and> mc_fresh s'
    \<and> mc_abs s' = lru_insert (mc_options s) now k v (cache_deadline now ttl) (mc_abs s)
    \<and> mc_next_access_order s' = mc_next_access_order s + 1"
  using assms(1)
proof (cases rule: mc_insert_cases [where now = now and k = k and v = v and ttl = ttl])
  case (stored s')
  let ?r = "mc_replace k v (cache_deadline now ttl) (remove_expired now s)"
  note R = mc_replace_refines [OF remove_expired_inv [OF assms(1)], of k v now "cache_deadline now ttl"]
  have r: "mc_core ?r" "mc_options ?r = mc_options s" "mc_next_access_order ?r = mc_next_access_order s + 1"
    "mc_abs ?r = lru_without k (lru_live now (mc_abs s)) @ [(k, v, cache_deadline now ttl)]" "mc_fresh ?r"
    using R assms remove_expired_refines(2) [OF mc_invD(1) [OF assms(1)]] by simp_all
  have "mc_abs s' = lru_evict (mc_options ?r) (mc_abs ?r)" "set (mc_lru s') \<subseteq> set (mc_lru ?r)"
    "mc_next_access_order s' = mc_next_access_order ?r"
    using mc_evict_refines [OF r(1)] stored(6) by auto
  then show ?thesis
    using stored(1) r mc_fresh_sub [OF r(5), of s'] by (simp add: lru_insert_def)
qed (use assms in auto)

subsection \<open>Removal, clearing, statistics\<close>

lemma mc_remove_empty: "mc_remove [] s = (Err ''ThingDB cache keys must be non-empty'', s)"
  by (simp add: mc_remove_def cache_validate_key_def)

lemma mc_remove_inv:
  assumes "mc_inv s" "k \<noteq> []"
  shows "mc_inv (snd (mc_remove k s))" "mc_abs (snd (mc_remove k s)) = lru_without k (mc_abs s)"
    "mc_fresh s \<Longrightarrow> mc_fresh (snd (mc_remove k s))"
    "mc_options (snd (mc_remove k s)) = mc_options s"
    "mc_next_access_order (snd (mc_remove k s)) = mc_next_access_order s"
  using assms(2) mc_invD [OF assms(1)] assms(1)
  by (auto simp: mc_remove_def cache_validate_key_def mc_inv_refresh mc_unlink_core mc_unlink_within
      mc_unlink_abs lru_without_absent mc_abs_map_of split: option.split)

lemma mc_clear_inv:
  assumes "mc_inv s"
  shows "mc_inv (mc_clear s)" "mc_abs (mc_clear s) = []" "mc_fresh (mc_clear s)"
    "mc_options (mc_clear s) = mc_options s"
    "mc_next_access_order (mc_clear s) = mc_next_access_order s"
proof -
  show "mc_inv (mc_clear s)"
    unfolding mc_clear_def using mc_invD(3) [OF assms]
    by (intro mc_inv_refresh) (simp_all add: mc_core_def mc_within_def mc_indexed_def)
qed (simp_all add: mc_clear_def mc_abs_def mc_fresh_def)

lemma mc_stats_inv:
  assumes "mc_inv s"
  shows "mc_inv (snd (mc_stats_call now s))" "mc_abs (snd (mc_stats_call now s)) = lru_live now (mc_abs s)"
    "mc_fresh s \<Longrightarrow> mc_fresh (snd (mc_stats_call now s))"
    "mc_options (snd (mc_stats_call now s)) = mc_options s"
    "mc_next_access_order (snd (mc_stats_call now s)) = mc_next_access_order s"
proof -
  have "mc_inv (refresh_current_stats (remove_expired now s))"
    using mc_invD [OF remove_expired_inv [OF assms]] by (intro mc_inv_refresh) simp_all
  then show "mc_inv (snd (mc_stats_call now s))"
    by (simp add: mc_stats_call_def Let_def)
qed (simp_all add: mc_stats_call_def Let_def remove_expired_refines mc_invD [OF assms])

section \<open>Sequences of calls\<close>

definition mc_alive :: "nat \<Rightarrow> cache_state option \<Rightarrow> bool" where
  "mc_alive n so \<longleftrightarrow> (\<exists>s. so = Some s \<and> mc_inv s)"

definition mc_same_options :: "cache_state option \<Rightarrow> cache_state option \<Rightarrow> bool" where
  "mc_same_options so so' \<longleftrightarrow> map_option mc_options so = map_option mc_options so'"

lemma cache_step_alive:
  assumes "mc_inv s"
  shows "\<exists>s'. cache_step c (Some s) = Some s' \<and> mc_inv s' \<and> mc_options s' = mc_options s"
proof (cases c)
  case (CacheGet now k)
  then show ?thesis by (simp add: assms mc_get_inv mc_get_order)
next
  case (CacheInsert now k v)
  then show ?thesis
    using mc_insert_inv [OF assms, of now k v "co_default_ttl (mc_options s)"] by (auto simp: mc_insert_def)
next
  case (CacheInsertTtl now k v ttl)
  then show ?thesis
    using mc_insert_inv [OF assms, of now k v ttl] by auto
next
  case (CacheRemove k)
  then show ?thesis
    using mc_remove_inv [OF assms] by (cases "k = []") (simp_all add: mc_remove_empty assms)
qed (simp_all add: mc_clear_inv mc_stats_inv assms)

interpretation mcc: call_system cache_step "\<lambda>_. 0" mc_alive mc_same_options
proof
  show "mc_alive n (cache_step c so)" if "mc_alive (0 + n) so" for c n so
    using that cache_step_alive [of _ c] unfolding mc_alive_def by blast
  show "mc_same_options so (cache_step c so)" if "mc_alive (0 + n) so" for c n so
    using that cache_step_alive [of _ c] unfolding mc_alive_def mc_same_options_def by fastforce
qed (simp_all add: mc_same_options_def)

lemma mc_inv_new: "2 * co_max_bytes opt \<le> usize_max \<Longrightarrow> mc_inv (mc_with_clock opt)"
  by (simp add: mc_inv_def mc_within_def) (simp add: mc_with_clock_def)

text \<open>The specification's answer to a call.\<close>

definition lru_store :: "cache_options \<Rightarrow> nat \<Rightarrow> bytes \<Rightarrow> bytes \<Rightarrow> nat \<Rightarrow> lru_row list \<Rightarrow> lru_row list" where
  "lru_store opt now k v ttl xs =
     (if k = [] \<or> length k + length v > co_max_bytes opt \<and> co_max_bytes opt \<noteq> 0 then xs
      else if co_max_entries opt = 0 \<or> co_max_bytes opt = 0 then lru_live now xs
      else lru_insert opt now k v (cache_deadline now ttl) xs)"

fun lru_step :: "cache_options \<Rightarrow> cache_call \<Rightarrow> lru_row list \<Rightarrow> lru_row list" where
  "lru_step opt (CacheGet now k) xs = (if k = [] then xs else snd (lru_get now k xs))"
| "lru_step opt (CacheInsert now k v) xs = lru_store opt now k v (co_default_ttl opt) xs"
| "lru_step opt (CacheInsertTtl now k v ttl) xs = lru_store opt now k v ttl xs"
| "lru_step opt (CacheRemove k) xs = (if k = [] then xs else lru_without k xs)"
| "lru_step opt CacheClear xs = []"
| "lru_step opt (CacheStats now) xs = lru_live now xs"

text \<open>The simulation, with the access numbers left before the counter saturates.\<close>

definition mc_sim :: "cache_options \<Rightarrow> nat \<Rightarrow> cache_state option \<Rightarrow> lru_row list \<Rightarrow> bool" where
  "mc_sim opt n so xs \<longleftrightarrow> (\<exists>s. so = Some s \<and> mc_inv s \<and> mc_fresh s \<and> mc_options s = opt
     \<and> mc_next_access_order s + n \<le> usize_max \<and> mc_abs s = xs)"

lemma mc_sim_store:
  assumes "mc_inv s" "mc_fresh s" "mc_next_access_order s + Suc n \<le> usize_max"
  shows "mc_sim (mc_options s) n (map_option snd (mc_insert_with_ttl now k v ttl s))
    (lru_store (mc_options s) now k v ttl (mc_abs s))"
proof -
  have big: "cache_entry_size k v > co_max_bytes (mc_options s) \<longleftrightarrow> length k + length v > co_max_bytes (mc_options s)"
    using mc_invD(3) [OF assms(1)] usize_max_pos by (auto simp: cache_entry_size_def sat_add_def)
  show ?thesis
    using assms(1)
  proof (cases rule: mc_insert_cases [where now = now and k = k and v = v and ttl = ttl])
    case (rejected msg)
    then show ?thesis
      using assms big remove_expired_refines(2) [OF mc_invD(1) [OF assms(1)]]
      by (auto simp: lru_store_def mc_sim_def mc_insert_with_ttl_def cache_validate_key_def Let_def split: if_splits)
  next
    case off
    then show ?thesis
      using assms big remove_expired_inv [OF assms(1)] remove_expired_refines(2) [OF mc_invD(1) [OF assms(1)]]
      by (auto simp: lru_store_def mc_sim_def mc_insert_with_ttl_def cache_validate_key_def Let_def split: if_splits)
  next
    case (stored s')
    have "mc_next_access_order s < usize_max" using assms(3) by simp
    from mc_insert_refines [OF assms(1,2) this stored(2,3,4,5), of now ttl]
      mc_insert_inv [OF assms(1), of now k v ttl]
    show ?thesis
      using stored(2-5) big assms(3) by (auto simp: mc_sim_def lru_store_def)
  qed
qed

lemma mc_sim_step: "mc_sim opt (Suc n) so xs \<Longrightarrow> mc_sim opt n (cache_step c so) (lru_step opt c xs)"
proof -
  assume "mc_sim opt (Suc n) so xs"
  then obtain s where s: "so = Some s" "mc_inv s" "mc_fresh s" "mc_options s = opt"
    "mc_next_access_order s + Suc n \<le> usize_max" "mc_abs s = xs"
    by (auto simp: mc_sim_def)
  note core = mc_invD(1) [OF s(2)]
  show ?thesis
  proof (cases c)
    case (CacheGet now k)
    have "mc_next_access_order s < usize_max" using s(5) by simp
    then have "k \<noteq> [] \<longrightarrow> mc_sim opt n (Some (snd (mc_get now k s))) (snd (lru_get now k xs))"
      using mc_get_refines [OF core s(3), of k now] mc_get_inv [OF s(2), of now k] mc_get_order [of now k s] s
      by (auto simp: mc_sim_def)
    moreover have "snd (mc_get now [] s) = s"
      by (simp add: mc_get_def cache_validate_key_def)
    ultimately show ?thesis
      using s CacheGet by (auto simp: mc_sim_def)
  next
    case (CacheRemove k)
    then show ?thesis
      using s mc_remove_inv [OF s(2), of k] by (auto simp: mc_sim_def mc_remove_empty)
  next
    case CacheClear
    then show ?thesis
      using s mc_clear_inv [OF s(2)] by (auto simp: mc_sim_def)
  next
    case (CacheStats now)
    then show ?thesis
      using s mc_stats_inv [OF s(2), of now] by (auto simp: mc_sim_def)
  qed (use s mc_sim_store [OF s(2,3,5)] in \<open>simp_all add: mc_insert_def\<close>)
qed

lemma mc_sim_run: "mc_sim opt (length cs + n) so xs \<Longrightarrow>
    mc_sim opt n (run_calls cache_step cs so) (run_calls (lru_step opt) cs xs)"
  by (induction cs arbitrary: so xs) (simp_all add: mc_sim_step)

section \<open>Properties\<close>

text \<open>
  C15: every sequence of calls on a cache returns: no call panics on the index of the recency set,
  the eviction loop ends, and afterwards the cache is within both of its bounds, its byte count is
  the total of the keys and values it holds and its statistics report it.
\<close>

theorem memory_cache_returns:
  assumes "2 * co_max_bytes opt \<le> usize_max"
  shows "\<exists>s. run_calls cache_step calls (Some (mc_with_clock opt)) = Some s
    \<and> length (mc_entries s) \<le> co_max_entries opt \<and> mc_bytes s \<le> co_max_bytes opt
    \<and> mc_bytes s = hm_total (\<lambda>k e. length k + length (ce_value e)) (mc_entries s)
    \<and> cs_current_entries (mc_stats s) = length (mc_entries s) \<and> cs_current_bytes (mc_stats s) = mc_bytes s"
proof -
  have start: "mc_alive (total_cost (\<lambda>_. 0) calls + 0) (Some (mc_with_clock opt))"
    using mc_inv_new [OF assms] by (simp add: mc_alive_def)
  obtain s where s: "run_calls cache_step calls (Some (mc_with_clock opt)) = Some s" "mc_inv s"
    using mcc.run_inv [OF start] by (auto simp: mc_alive_def)
  have "mc_options s = opt"
    using mcc.run_later [OF start] s(1) by (simp add: mc_same_options_def mc_with_clock_def)
  moreover have "mc_weight = (\<lambda>k e. length k + length (ce_value e))"
    by (simp add: mc_weight_def fun_eq_iff)
  ultimately show ?thesis
    using s by (simp add: mc_inv_def mc_within_def mc_core_def)
qed

definition tiny_cache :: cache_options where
  "tiny_cache = \<lparr>co_max_entries = 1, co_max_bytes = 8, co_default_ttl = 5\<rparr>"

definition tiny_calls :: "cache_call list" where
  "tiny_calls = [CacheInsert 0 [1] [7], CacheInsert 1 [2] [8], CacheGet 2 [1], CacheGet 2 [2]]"

theorem memory_cache_returns_witness:
  "2 * co_max_bytes tiny_cache \<le> usize_max \<and> (\<exists>s. run_calls cache_step tiny_calls (Some (mc_with_clock tiny_cache)) = Some s
    \<and> length (mc_entries s) \<le> 1 \<and> mc_bytes s \<le> 8)"
  using memory_cache_returns [of tiny_cache tiny_calls]
  by (auto simp: tiny_cache_def usize_max_def)

text \<open>
  C16: as long as fewer than \<open>2 ^ 64 - 1\<close> calls have been made, the cache is a least recently used
  cache: its contents, in order of use, and the answer to a read are those of the specification
  \<open>lru_step\<close>, which keeps a list of live rows, moves a row to the end when it is read or written
  and drops rows from the front while a bound is exceeded.
\<close>

theorem memory_cache_refines_lru:
  assumes "2 * co_max_bytes opt \<le> usize_max" "length calls < usize_max" "key \<noteq> []"
  shows "\<exists>s. run_calls cache_step calls (Some (mc_with_clock opt)) = Some s
    \<and> mc_abs s = run_calls (lru_step opt) calls []
    \<and> fst (mc_get now key s) = Ok (fst (lru_get now key (run_calls (lru_step opt) calls [])))"
proof -
  have "mc_sim opt (length calls + 1) (Some (mc_with_clock opt)) []"
    using mc_inv_new [OF assms(1)] assms(2)
    by (simp add: mc_sim_def) (simp add: mc_with_clock_def mc_fresh_def mc_abs_def)
  from mc_sim_run [OF this] obtain s where s: "run_calls cache_step calls (Some (mc_with_clock opt)) = Some s"
    "mc_core s" "mc_fresh s" "mc_next_access_order s < usize_max"
    "mc_abs s = run_calls (lru_step opt) calls []"
    by (auto simp: mc_sim_def mc_inv_def)
  then show ?thesis
    using mc_get_refines [OF s(2,3,4) assms(3), of now] by simp
qed

theorem memory_cache_refines_lru_witness:
  "2 * co_max_bytes tiny_cache \<le> usize_max \<and> length tiny_calls < usize_max \<and> [2 :: byte] \<noteq> []
   \<and> (\<exists>s. run_calls cache_step tiny_calls (Some (mc_with_clock tiny_cache)) = Some s
      \<and> mc_abs s = [([2], [8], 6)] \<and> fst (mc_get 3 [2] s) = Ok (Some [8]))"
proof -
  have run: "run_calls (lru_step tiny_cache) tiny_calls [] = [([2], [8], 6)]"
    by (simp add: tiny_cache_def tiny_calls_def lru_store_def lru_insert_def lru_live_def lru_without_def
        lru_get_def cache_deadline_def instant_add_def instant_max_def lru_bytes_def)
  have get: "fst (lru_get 3 [2] [([2 :: byte], [8 :: byte], 6)]) = Some [8]"
    by (simp add: lru_get_def)
  have "2 * co_max_bytes tiny_cache \<le> usize_max" "length tiny_calls < usize_max"
    by (simp_all add: tiny_cache_def tiny_calls_def usize_max_def)
  then show ?thesis
    using memory_cache_refines_lru [of tiny_cache tiny_calls "[2]" 3] by (simp add: run get)
qed

text \<open>
  \<open>remove\<close> is documented to tell whether a live entry was removed; it answers \<open>true\<close> for an entry
  whose deadline has passed, which \<open>get\<close> no longer returns.
\<close>

lemma remove_reports_expired_entry:
  assumes "mc_core s" "hm_get (mc_entries s) key = Some e" "ce_expires_at e \<le> now" "key \<noteq> []"
  shows "fst (mc_get now key s) = Ok None \<and> fst (mc_remove key s) = Ok True"
  using assms by (simp add: mc_get_def mc_remove_def cache_validate_key_def)

end
