(* ===== verification/Ram_Store.thy ===== *)
theory Ram_Store
  imports Wal Keys
begin

text \<open>
  The RAM mode of ThingDB (\<open>Database::in_memory\<close> of \<open>crates/thingdb/src/lib.rs\<close>): one ordered map
  per keyspace, batches applied under one write lock, reads and scans under a read lock. The locks
  make every call atomic; the diagnostics counters are left out. \<open>BTreeMap::range\<close> panics when the
  lower bound lies above the upper one, or when both exclude the same key: a panic is \<open>None\<close>. (A
  map that never held an entry skips that check and yields nothing; the model reports the panic
  there as well.)
\<close>

type_synonym ram_keyspaces = "(bytes, (bytes, bytes) btree) hmap"

definition ram_in_memory :: ram_keyspaces where
  "ram_in_memory = []"

definition ram_entries :: "ram_keyspaces \<Rightarrow> bytes \<Rightarrow> (bytes, bytes) btree" where
  "ram_entries db name = (case hm_get db name of None \<Rightarrow> [] | Some entries \<Rightarrow> entries)"

section \<open>Batches\<close>

text \<open>\<open>BatchOperation\<close>; in RAM mode \<open>batch_key\<close> is the user key itself.\<close>

record batch_operation =
  bo_keyspace :: bytes
  bo_key :: bytes
  bo_value :: "bytes option"

definition ram_put :: "bytes \<Rightarrow> bytes \<Rightarrow> bytes \<Rightarrow> batch_operation" where
  "ram_put name key val = \<lparr>bo_keyspace = name, bo_key = key, bo_value = Some val\<rparr>"

definition ram_delete :: "bytes \<Rightarrow> bytes \<Rightarrow> batch_operation" where
  "ram_delete name key = \<lparr>bo_keyspace = name, bo_key = key, bo_value = None\<rparr>"

definition validate_memory_batch_operation :: "batch_operation \<Rightarrow> (string, unit) result" where
  "validate_memory_batch_operation op =
     reject_if (bo_keyspace op = [] \<or> 0 \<in> set (bo_keyspace op)) ''invalid ThingDB in-memory keyspace''"

definition apply_memory_batch_operation :: "batch_operation \<Rightarrow> ram_keyspaces \<Rightarrow> ram_keyspaces" where
  "apply_memory_batch_operation op db =
     (let entries = ram_entries db (bo_keyspace op)
      in hm_insert (bo_keyspace op)
           (case bo_value op of
              Some val \<Rightarrow> bm_insert (bo_key op) val entries
            | None \<Rightarrow> bm_remove (bo_key op) entries) db)"

fun validate_memory_batch :: "batch_operation list \<Rightarrow> (string, unit) result" where
  "validate_memory_batch [] = Ok ()"
| "validate_memory_batch (op # ops) =
     and_then (validate_memory_batch_operation op) (\<lambda>_. validate_memory_batch ops)"

definition ram_commit_batch :: "batch_operation list \<Rightarrow> (ram_keyspaces, string, unit) proc" where
  "ram_commit_batch batch db =
     (if batch = [] then (Ok (), db)
      else case validate_memory_batch batch of
        Inl e \<Rightarrow> (Err e, db)
      | Inr _ \<Rightarrow> (Ok (), fold apply_memory_batch_operation batch db))"

section \<open>Reads and scans\<close>

definition ram_get :: "ram_keyspaces \<Rightarrow> bytes \<Rightarrow> bytes \<Rightarrow> bytes option" where
  "ram_get db name key = bm_get (ram_entries db name) key"

definition ram_count :: "ram_keyspaces \<Rightarrow> bytes \<Rightarrow> nat" where
  "ram_count db name = length (ram_entries db name)"

definition count_memory_prefix :: "(bytes, bytes) btree \<Rightarrow> bytes \<Rightarrow> nat" where
  "count_memory_prefix entries p =
     length (takeWhile (\<lambda>e. prefix p (fst e)) (bm_range (Included p) Unbounded entries))"

definition ram_count_prefix :: "ram_keyspaces \<Rightarrow> bytes \<Rightarrow> bytes \<Rightarrow> nat" where
  "ram_count_prefix db name p = count_memory_prefix (ram_entries db name) p"

record scan_bounds =
  sb_prefix :: "bytes option"
  sb_start :: "(bytes \<times> bool) option"
  sb_end :: "(bytes \<times> bool) option"
  sb_offset :: nat
  sb_limit :: "nat option"

definition key_bound :: "bytes \<times> bool \<Rightarrow> bytes bound" where
  "key_bound b = (if snd b then Included (fst b) else Excluded (fst b))"

definition scan_lower :: "scan_bounds \<Rightarrow> bytes bound" where
  "scan_lower b =
     (case (sb_start b, sb_prefix b) of
        (Some start, Some p) \<Rightarrow> if p \<le> fst start then key_bound start else Included p
      | (None, Some p) \<Rightarrow> Included p
      | (Some start, None) \<Rightarrow> key_bound start
      | (None, None) \<Rightarrow> Unbounded)"

definition scan_upper :: "scan_bounds \<Rightarrow> bytes bound" where
  "scan_upper b =
     (case (sb_end b, Option.bind (sb_prefix b) successor) of
        (Some end', Some upper) \<Rightarrow> if fst end' \<le> upper then key_bound end' else Excluded upper
      | (Some end', None) \<Rightarrow> key_bound end'
      | (None, Some upper) \<Rightarrow> Excluded upper
      | (None, None) \<Rightarrow> Unbounded)"

text \<open>The two cases in which \<open>BTreeMap::range\<close> panics.\<close>

fun range_panics :: "bytes bound \<Rightarrow> bytes bound \<Rightarrow> bool" where
  "range_panics (Excluded a) (Excluded b) = (b \<le> a)"
| "range_panics (Excluded a) (Included b) = (b < a)"
| "range_panics (Included a) (Excluded b) = (b < a)"
| "range_panics (Included a) (Included b) = (b < a)"
| "range_panics _ _ = False"

text \<open>
  The loop over the range: it stops at the first key without the prefix, skips \<open>offset\<close> entries
  and stops when \<open>limit\<close> entries are collected, so that a limit of zero still collects one; the
  callers return early for that limit.
\<close>

definition memory_scan :: "scan_bounds \<Rightarrow> (bytes, bytes) btree \<Rightarrow> (bytes \<times> bytes) list" where
  "memory_scan b entries =
     (let found = (case sb_prefix b of
                     None \<Rightarrow> entries
                   | Some p \<Rightarrow> takeWhile (\<lambda>e. prefix p (fst e)) entries);
          found = drop (sb_offset b) found
      in case sb_limit b of None \<Rightarrow> found | Some n \<Rightarrow> take (max 1 n) found)"

definition iter_memory_bounds :: "ram_keyspaces \<Rightarrow> bytes \<Rightarrow> scan_bounds \<Rightarrow> (bytes \<times> bytes) list option" where
  "iter_memory_bounds db name b =
     (case hm_get db name of
        None \<Rightarrow> Some []
      | Some entries \<Rightarrow>
          if range_panics (scan_lower b) (scan_upper b) then None
          else Some (memory_scan b (bm_range (scan_lower b) (scan_upper b) entries)))"

definition ram_iter_bounds_paginated :: "ram_keyspaces \<Rightarrow> bytes \<Rightarrow> scan_bounds \<Rightarrow> (bytes \<times> bytes) list option" where
  "ram_iter_bounds_paginated db name b =
     (if sb_limit b = Some 0 then Some [] else iter_memory_bounds db name b)"

definition ram_iter :: "ram_keyspaces \<Rightarrow> bytes \<Rightarrow> (bytes \<times> bytes) list option" where
  "ram_iter db name = ram_iter_bounds_paginated db name
     \<lparr>sb_prefix = None, sb_start = None, sb_end = None, sb_offset = 0, sb_limit = None\<rparr>"

definition ram_prefix :: "ram_keyspaces \<Rightarrow> bytes \<Rightarrow> bytes \<Rightarrow> (bytes \<times> bytes) list option" where
  "ram_prefix db name p = ram_iter_bounds_paginated db name
     \<lparr>sb_prefix = Some p, sb_start = None, sb_end = None, sb_offset = 0, sb_limit = None\<rparr>"

definition ram_prefix_page :: "ram_keyspaces \<Rightarrow> bytes \<Rightarrow> bytes \<Rightarrow> nat \<Rightarrow> nat \<Rightarrow> (bytes \<times> bytes) list option" where
  "ram_prefix_page db name p offset limit = ram_iter_bounds_paginated db name
     \<lparr>sb_prefix = Some p, sb_start = None, sb_end = None, sb_offset = offset, sb_limit = Some limit\<rparr>"

definition ram_prefix_page_after ::
    "ram_keyspaces \<Rightarrow> bytes \<Rightarrow> bytes \<Rightarrow> bytes option \<Rightarrow> nat \<Rightarrow> (bytes \<times> bytes) list option" where
  "ram_prefix_page_after db name p after limit = ram_iter_bounds_paginated db name
     \<lparr>sb_prefix = Some p, sb_start = map_option (\<lambda>key. (key, False)) after, sb_end = None, sb_offset = 0,
      sb_limit = Some limit\<rparr>"

definition ram_first_prefix_after ::
    "ram_keyspaces \<Rightarrow> bytes \<Rightarrow> bytes \<Rightarrow> bytes option \<Rightarrow> (bytes \<times> bytes) option option" where
  "ram_first_prefix_after db name p after =
     map_option (\<lambda>entries. case entries of [] \<Rightarrow> None | e # _ \<Rightarrow> Some e)
       (ram_iter_bounds_paginated db name
          \<lparr>sb_prefix = Some p, sb_start = map_option (\<lambda>key. (key, False)) after, sb_end = None, sb_offset = 0,
           sb_limit = Some 1\<rparr>)"

definition ram_range_bounds ::
    "ram_keyspaces \<Rightarrow> bytes \<Rightarrow> (bytes \<times> bool) option \<Rightarrow> (bytes \<times> bool) option \<Rightarrow> (bytes \<times> bytes) list option" where
  "ram_range_bounds db name start end' = ram_iter_bounds_paginated db name
     \<lparr>sb_prefix = None, sb_start = start, sb_end = end', sb_offset = 0, sb_limit = None\<rparr>"

text \<open>A snapshot of all keyspaces under their physical keys, and a read from it.\<close>

definition ram_snapshot :: "ram_keyspaces \<Rightarrow> kv_state" where
  "ram_snapshot db =
     fold (\<lambda>ks. fold (\<lambda>e. bm_insert (physical_key (fst ks) (fst e)) (snd e)) (snd ks)) db []"

definition snapshot_get :: "kv_state \<Rightarrow> bytes \<Rightarrow> bytes \<Rightarrow> bytes option" where
  "snapshot_get state name key = bm_get state (physical_key name key)"

section \<open>Well-formed stores\<close>

definition ram_ok :: "ram_keyspaces \<Rightarrow> bool" where
  "ram_ok db \<longleftrightarrow> hm_ok db \<and> (\<forall>name entries. hm_get db name = Some entries \<longrightarrow> valid_keyspace name \<and> bm_ok entries)"

lemma ram_ok_empty [simp]: "ram_ok ram_in_memory"
  by (simp add: ram_ok_def ram_in_memory_def)

lemma ram_ok_entries [simp]: "ram_ok db \<Longrightarrow> bm_ok (ram_entries db name)"
  by (auto simp: ram_ok_def ram_entries_def split: option.split)

lemma validate_memory_batch_ok:
  "validate_memory_batch ops = Ok u \<longleftrightarrow> (\<forall>op \<in> set ops. valid_keyspace (bo_keyspace op))"
  by (induction ops)
    (auto simp: validate_memory_batch_operation_def valid_keyspace_def and_then_eq_Ok reject_if_def)

lemma apply_memory_ok:
  "ram_ok db \<Longrightarrow> valid_keyspace (bo_keyspace op) \<Longrightarrow> ram_ok (apply_memory_batch_operation op db)"
  by (auto simp: ram_ok_def apply_memory_batch_operation_def ram_entries_def Let_def split: option.splits if_splits)

lemma ram_entries_apply:
  "ram_entries (apply_memory_batch_operation op db) name =
     (if name = bo_keyspace op then
        (case bo_value op of Some val \<Rightarrow> bm_insert (bo_key op) val (ram_entries db name)
         | None \<Rightarrow> bm_remove (bo_key op) (ram_entries db name))
      else ram_entries db name)"
  by (simp add: apply_memory_batch_operation_def ram_entries_def Let_def split: option.split)

lemma ram_get_apply:
  "ram_get (apply_memory_batch_operation op db) name key =
     (if name = bo_keyspace op \<and> key = bo_key op then bo_value op else ram_get db name key)"
  by (simp add: ram_get_def ram_entries_apply split: option.split)

lemma ram_commit_ok:
  assumes "ram_ok db" "\<And>op. op \<in> set ops \<Longrightarrow> valid_keyspace (bo_keyspace op)"
  shows "ram_commit_batch ops db = (Ok (), fold apply_memory_batch_operation ops db)"
    "ram_ok (fold apply_memory_batch_operation ops db)"
proof -
  have "validate_memory_batch ops = Ok ()"
    using assms(2) by (simp add: validate_memory_batch_ok)
  then show "ram_commit_batch ops db = (Ok (), fold apply_memory_batch_operation ops db)"
    by (simp add: ram_commit_batch_def)
  show "ram_ok (fold apply_memory_batch_operation ops db)"
    using assms by (induction ops arbitrary: db) (simp_all add: apply_memory_ok)
qed

section \<open>Prefix scans\<close>

lemma filter_takeWhile_all: "takeWhile (\<lambda>x. P x) (filter (\<lambda>x. P x \<and> Q x) xs) = filter (\<lambda>x. P x \<and> Q x) xs"
  by (subst takeWhile_eq_all_conv) simp

lemma ram_scan_prefix:
  fixes offset limit
  assumes "\<And>a. after = Some a \<Longrightarrow> prefix p a"
  defines "b \<equiv> \<lparr>sb_prefix = Some p, sb_start = map_option (\<lambda>key. (key, False)) after, sb_end = None,
    sb_offset = offset, sb_limit = limit\<rparr>"
  shows "\<not> range_panics (scan_lower b) (scan_upper b)"
    "above (scan_lower b) k \<and> below (scan_upper b) k \<longleftrightarrow> prefix p k \<and> (\<forall>a. after = Some a \<longrightarrow> a < k)"
proof -
  have after: "p \<le> a" "case successor p of Some q \<Rightarrow> a < q | None \<Rightarrow> True" if "after = Some a" for a
    using assms(1) [OF that] successor_bounds_prefix [of p a] by simp_all
  have self: "case successor p of Some q \<Rightarrow> p < q | None \<Rightarrow> True"
    using successor_bounds_prefix [of p p] by simp
  show "\<not> range_panics (scan_lower b) (scan_upper b)"
    using after self
    by (cases after; cases "successor p") (auto simp: b_def scan_lower_def scan_upper_def key_bound_def)
  show "above (scan_lower b) k \<and> below (scan_upper b) k \<longleftrightarrow> prefix p k \<and> (\<forall>a. after = Some a \<longrightarrow> a < k)"
    unfolding successor_bounds_prefix [of p k] using after
    by (cases after; cases "successor p")
      (auto simp: b_def scan_lower_def scan_upper_def key_bound_def dest: order.strict_trans1)
qed

lemma iter_memory_prefix:
  assumes "\<And>a. after = Some a \<Longrightarrow> prefix p a"
  shows "iter_memory_bounds db name \<lparr>sb_prefix = Some p, sb_start = map_option (\<lambda>key. (key, False)) after,
      sb_end = None, sb_offset = offset, sb_limit = limit\<rparr> =
    Some (let found = drop offset (filter (\<lambda>e. prefix p (fst e) \<and> (\<forall>a. after = Some a \<longrightarrow> a < fst e)) (ram_entries db name))
          in case limit of None \<Rightarrow> found | Some n \<Rightarrow> take (max 1 n) found)"
  using ram_scan_prefix [where after = after and p = p and offset = offset and limit = limit, OF assms]
  by (auto simp: iter_memory_bounds_def ram_entries_def memory_scan_def bm_range_def Let_def
      filter_takeWhile_all [of "\<lambda>e. prefix p (fst e)"] split: option.split)

lemma ram_prefix_page_after_eq:
  assumes "\<And>a. after = Some a \<Longrightarrow> prefix p a"
  shows "ram_prefix_page_after db name p after limit =
    Some (take limit (filter (\<lambda>e. prefix p (fst e) \<and> (\<forall>a. after = Some a \<longrightarrow> a < fst e)) (ram_entries db name)))"
  using iter_memory_prefix [where after = after and p = p, OF assms]
  by (simp add: ram_prefix_page_after_def ram_iter_bounds_paginated_def max_def)

lemma find_take: "find P xs = (case take (Suc 0) (filter P xs) of [] \<Rightarrow> None | e # _ \<Rightarrow> Some e)"
  by (induction xs) auto

lemma ram_first_prefix_after_eq:
  assumes "\<And>a. after = Some a \<Longrightarrow> prefix p a"
  shows "ram_first_prefix_after db name p after =
    Some (find (\<lambda>e. prefix p (fst e) \<and> (\<forall>a. after = Some a \<longrightarrow> a < fst e)) (ram_entries db name))"
  using iter_memory_prefix [where after = after and p = p, OF assms]
  by (simp add: ram_first_prefix_after_def ram_iter_bounds_paginated_def find_take)

lemma ram_prefix_eq:
  "ram_prefix db name p = Some (filter (\<lambda>e. prefix p (fst e)) (ram_entries db name))"
  using iter_memory_prefix [where after = None and p = p and offset = 0 and limit = None]
  by (simp add: ram_prefix_def ram_iter_bounds_paginated_def)

lemma filter_above_nth:
  assumes "bm_ok xs" "i < length xs"
  shows "filter (\<lambda>e. fst (xs ! i) < fst e) xs = drop (Suc i) xs"
proof -
  have split: "xs = take i xs @ xs ! i # drop (Suc i) xs"
    using assms(2) by (rule id_take_nth_drop)
  then have "bm_ok (take i xs @ xs ! i # drop (Suc i) xs)"
    using assms(1) by simp
  then have "\<forall>e \<in> set (take i xs). \<not> fst (xs ! i) < fst e" "\<forall>e \<in> set (drop (Suc i) xs). fst (xs ! i) < fst e"
    by (auto simp: bm_ok_append dest: order.asym)
  then have "filter (\<lambda>e. fst (xs ! i) < fst e) (take i xs @ xs ! i # drop (Suc i) xs) = drop (Suc i) xs"
    by (simp add: filter_empty_conv filter_id_conv)
  with split show ?thesis by simp
qed

section \<open>The snapshot\<close>

text \<open>The operation a durable database would log for the same entry of a batch.\<close>

definition durable_operation :: "batch_operation \<Rightarrow> operation" where
  "durable_operation op =
     (case bo_value op of
        Some val \<Rightarrow> Put (physical_key (bo_keyspace op) (bo_key op)) val
      | None \<Rightarrow> Delete (physical_key (bo_keyspace op) (bo_key op)))"

definition snapshot_rows :: "bytes \<Rightarrow> (bytes, bytes) btree \<Rightarrow> (bytes \<times> bytes) list" where
  "snapshot_rows name entries = map (\<lambda>e. (physical_key name (fst e), snd e)) entries"

lemma ram_snapshot_fold: "ram_snapshot db = fold (\<lambda>(k, v). bm_insert k v) (concat (map (\<lambda>ks. snapshot_rows (fst ks) (snd ks)) db)) []"
proof -
  have "fold (\<lambda>ks. fold (\<lambda>e. bm_insert (physical_key (fst ks) (fst e)) (snd e)) (snd ks)) db acc =
      fold (\<lambda>(k, v). bm_insert k v) (concat (map (\<lambda>ks. snapshot_rows (fst ks) (snd ks)) db)) acc" for acc
    by (induction db arbitrary: acc) (simp_all add: snapshot_rows_def fold_map comp_def)
  then show ?thesis
    by (simp add: ram_snapshot_def)
qed

lemma ram_snapshot_ok [simp]: "bm_ok (ram_snapshot db)"
  unfolding ram_snapshot_fold by (rule bm.ok_fold_ins) simp

lemma snapshot_rows_get:
  assumes "valid_keyspace name" "valid_keyspace n"
  shows "map_of (snapshot_rows name entries) (physical_key n k) = (if name = n then bm_get entries k else None)"
  using assms by (induction entries) (auto simp: snapshot_rows_def physical_key_injective)

lemma map_of_concat_rows:
  assumes "hm_ok db" "\<And>name entries. (name, entries) \<in> set db \<Longrightarrow> valid_keyspace name" "valid_keyspace n"
  shows "map_of (concat (map (\<lambda>ks. snapshot_rows (fst ks) (snd ks)) db)) (physical_key n k) = ram_get db n k"
  using assms
proof (induction db)
  case (Cons ks db)
  obtain name entries where ks: "ks = (name, entries)" by (cases ks)
  have "map_of (snapshot_rows name entries) (physical_key n k) = (if name = n then bm_get entries k else None)"
    using Cons.prems unfolding ks by (intro snapshot_rows_get) auto
  moreover have "ram_get db n k = None" if "name = n"
  proof -
    have "hm_get db n = None"
      using Cons.prems(1) that by (simp add: ks hm_ok_def hm_get_None_iff)
    then show ?thesis
      by (simp add: ram_get_def ram_entries_def)
  qed
  moreover have "ram_get (ks # db) n k = (if name = n then bm_get entries k else ram_get db n k)"
    by (simp add: ks ram_get_def ram_entries_def hm_get_def)
  moreover have "map_of (concat (map (\<lambda>ks. snapshot_rows (fst ks) (snd ks)) db)) (physical_key n k) = ram_get db n k"
    using Cons by (auto simp: hm_ok_def)
  ultimately show ?case
    by (simp add: ks map_add_def split: option.split)
qed (simp add: ram_get_def ram_entries_def)

lemma distinct_rows:
  assumes "hm_ok db" "\<And>name entries. (name, entries) \<in> set db \<Longrightarrow> valid_keyspace name \<and> bm_ok entries"
  shows "distinct (map fst (concat (map (\<lambda>ks. snapshot_rows (fst ks) (snd ks)) db)))"
  using assms
proof (induction db)
  case (Cons ks db)
  obtain name entries where ks: "ks = (name, entries)" by (cases ks)
  have "distinct (map fst (snapshot_rows name entries))"
  proof -
    have "distinct (map fst entries)"
      using Cons.prems ks by (intro bm_ok_distinct) auto
    moreover have "inj_on (physical_key name) (set (map fst entries))"
      by (simp add: inj_on_def physical_key_def physical_key_from_namespace_def)
    ultimately have "distinct (map (physical_key name) (map fst entries))"
      by (rule distinct_map [THEN iffD2, OF conjI])
    then show ?thesis
      by (simp add: snapshot_rows_def comp_def)
  qed
  moreover have "fst r \<noteq> fst r'"
    if "r \<in> set (snapshot_rows name entries)" "(n, es) \<in> set db" "r' \<in> set (snapshot_rows n es)" for r r' n es
  proof -
    have "name \<noteq> n" "valid_keyspace name" "valid_keyspace n"
      using Cons.prems that(2) by (auto simp: ks hm_ok_def image_iff)
    then show ?thesis
      using that by (auto simp: snapshot_rows_def physical_key_injective)
  qed
  ultimately show ?case
    using Cons by (fastforce simp: ks hm_ok_def image_iff)
qed simp

lemma map_of_rev_distinct: "distinct (map fst xs) \<Longrightarrow> map_of (rev xs) = map_of xs"
  by (subst map_of_inject_set) (simp_all flip: rev_map)

lemma snapshot_get_eq:
  assumes "ram_ok db" "valid_keyspace n"
  shows "bm_get (ram_snapshot db) (physical_key n k) = ram_get db n k"
proof -
  let ?rows = "concat (map (\<lambda>ks. snapshot_rows (fst ks) (snd ks)) db)"
  have ok: "hm_ok db" "valid_keyspace name \<and> bm_ok entries" if "(name, entries) \<in> set db" for name entries
    using assms(1) that hm_get_Some_iff [of db name entries] by (auto simp: ram_ok_def)
  have "hm_ok db"
    using assms(1) by (simp add: ram_ok_def)
  then have "distinct (map fst ?rows)" "map_of ?rows (physical_key n k) = ram_get db n k"
    using ok assms(2) by (blast intro: distinct_rows, blast intro: map_of_concat_rows)
  then show ?thesis
    unfolding ram_snapshot_fold by (subst bm.get_fold_ins) (simp_all add: map_of_rev_distinct bm.get_emp)
qed

lemma ram_snapshot_keys:
  assumes "ram_ok db" "bm_get (ram_snapshot db) x = Some v"
  obtains n k where "valid_keyspace n" "x = physical_key n k"
proof -
  let ?rows = "concat (map (\<lambda>ks. snapshot_rows (fst ks) (snd ks)) db)"
  have "map_of (rev ?rows) x = Some v"
    using assms(2) unfolding ram_snapshot_fold by (subst (asm) bm.get_fold_ins) (simp_all add: bm.get_emp)
  then have "(x, v) \<in> set ?rows"
    by (auto dest: map_of_SomeD)
  then obtain name entries k where "(name, entries) \<in> set db" "x = physical_key name k"
    by (auto simp: snapshot_rows_def)
  moreover from this have "valid_keyspace name"
    using assms(1) hm_get_Some_iff [of db name entries] by (auto simp: ram_ok_def)
  ultimately show ?thesis
    using that by blast
qed

lemma ram_snapshot_apply:
  assumes "ram_ok db" "valid_keyspace (bo_keyspace op)"
  shows "ram_snapshot (apply_memory_batch_operation op db) = apply_operation (durable_operation op) (ram_snapshot db)"
proof (rule bm.get_inj)
  let ?k = "physical_key (bo_keyspace op) (bo_key op)"
  have ok: "ram_ok (apply_memory_batch_operation op db)"
    using assms by (rule apply_memory_ok)
  show "bm_ok (apply_operation (durable_operation op) (ram_snapshot db))"
    by (auto simp: apply_operation_def durable_operation_def split: option.split)
  have rhs: "bm_get (apply_operation (durable_operation op) (ram_snapshot db)) x =
      (if x = ?k then bo_value op else bm_get (ram_snapshot db) x)" for x
    by (auto simp: apply_operation_def durable_operation_def split: option.split)
  have "bm_get (ram_snapshot (apply_memory_batch_operation op db)) x =
      (if x = ?k then bo_value op else bm_get (ram_snapshot db) x)" for x
  proof (cases "\<exists>n k. valid_keyspace n \<and> x = physical_key n k")
    case True
    then obtain n k where "valid_keyspace n" "x = physical_key n k" by blast
    then show ?thesis
      using assms ok by (simp add: snapshot_get_eq ram_get_apply physical_key_injective)
  next
    case False
    then have "bm_get (ram_snapshot d) x = None" if "ram_ok d" for d
      using that ram_snapshot_keys [of d x] by (metis option.exhaust)
    then show ?thesis
      using False assms ok by auto
  qed
  with rhs show "bm_get (ram_snapshot (apply_memory_batch_operation op db)) =
      bm_get (apply_operation (durable_operation op) (ram_snapshot db))"
    by (simp add: fun_eq_iff)
qed simp

lemma ram_snapshot_fold_apply:
  "ram_ok db \<Longrightarrow> (\<And>op. op \<in> set ops \<Longrightarrow> valid_keyspace (bo_keyspace op)) \<Longrightarrow>
     ram_snapshot (fold apply_memory_batch_operation ops db) = fold apply_operation (map durable_operation ops) (ram_snapshot db)"
  by (induction ops arbitrary: db) (simp_all add: ram_snapshot_apply apply_memory_ok)

section \<open>Properties\<close>

text \<open>
  C17: RAM mode and the durable engine mean the same by a batch. A batch on valid keyspaces is
  applied as a whole, and the snapshot afterwards is the one before with the operations that a
  durable database would log, in order; a batch that names an invalid keyspace changes nothing.
\<close>

theorem ram_batch_as_logged:
  assumes "ram_ok db"
  shows "if \<forall>op \<in> set ops. valid_keyspace (bo_keyspace op)
    then \<exists>db'. ram_commit_batch ops db = (Ok (), db') \<and> ram_ok db'
      \<and> ram_snapshot db' = fold apply_operation (map durable_operation ops) (ram_snapshot db)
      \<and> (\<forall>name key. valid_keyspace name \<longrightarrow> snapshot_get (ram_snapshot db') name key = ram_get db' name key)
    else ram_commit_batch ops db = (Err ''invalid ThingDB in-memory keyspace'', db)"
proof (cases "\<forall>op \<in> set ops. valid_keyspace (bo_keyspace op)")
  case True
  let ?db = "fold apply_memory_batch_operation ops db"
  have "ram_commit_batch ops db = (Ok (), ?db)" "ram_ok ?db"
    using True by (auto intro: ram_commit_ok [OF assms])
  moreover from this(2) have "\<forall>name key. valid_keyspace name \<longrightarrow> snapshot_get (ram_snapshot ?db) name key = ram_get ?db name key"
    by (simp add: snapshot_get_def snapshot_get_eq)
  ultimately show ?thesis
    using True ram_snapshot_fold_apply [OF assms, of ops] by auto
next
  case False
  have "validate_memory_batch ops = Err ''invalid ThingDB in-memory keyspace''"
    using False
    by (induction ops) (auto simp: validate_memory_batch_operation_def valid_keyspace_def reject_if_def)
  with False show ?thesis
    by (auto simp: ram_commit_batch_def)
qed

theorem ram_batch_as_logged_witness:
  "ram_ok ram_in_memory \<and> (\<exists>db'. ram_commit_batch [ram_put [97] [1] [7], ram_delete [97] [2]] ram_in_memory = (Ok (), db')
    \<and> snapshot_get (ram_snapshot db') [97] [1] = Some [7] \<and> ram_get db' [97] [1] = Some [7])"
proof -
  let ?ops = "[ram_put [97] [1] [7], ram_delete [97] [2]]"
  have "ram_commit_batch ?ops ram_in_memory = (Ok (), [([97], [([1], [7])])])"
    by code_simp
  then show ?thesis
    using ram_batch_as_logged [OF ram_ok_empty, of ?ops]
    by (auto simp: ram_put_def ram_delete_def valid_keyspace_def ram_get_def ram_entries_def hm_get_def)
qed

text \<open>
  C18: paging by cursor visits every entry of a prefix once and in order. Without a cursor a page
  holds the first entries; with the key of the entry at position \<open>i\<close> as the cursor it holds the ones
  from position \<open>i + 1\<close> on. No such scan panics.
\<close>

theorem ram_pages_in_order:
  assumes "ram_ok db" "rows = filter (\<lambda>e. prefix p (fst e)) (ram_entries db name)"
  shows "ram_prefix_page_after db name p None limit = Some (take limit rows)
    \<and> (\<forall>i < length rows. ram_prefix_page_after db name p (Some (fst (rows ! i))) limit = Some (take limit (drop (Suc i) rows)))"
proof (intro conjI allI impI)
  show "ram_prefix_page_after db name p None limit = Some (take limit rows)"
    by (subst ram_prefix_page_after_eq) (simp_all add: assms(2))
next
  fix i
  assume i: "i < length rows"
  then have "rows ! i \<in> set rows" by simp
  then have p: "prefix p (fst (rows ! i))"
    unfolding assms(2) by auto
  have "bm_ok rows"
    using assms(1) by (simp add: assms(2))
  then have "filter (\<lambda>e. fst (rows ! i) < fst e) rows = drop (Suc i) rows"
    using i by (rule filter_above_nth)
  then have "filter (\<lambda>e. prefix p (fst e) \<and> fst (rows ! i) < fst e) (ram_entries db name) = drop (Suc i) rows"
    by (simp add: assms(2) conj_commute)
  then show "ram_prefix_page_after db name p (Some (fst (rows ! i))) limit = Some (take limit (drop (Suc i) rows))"
    using p by (subst ram_prefix_page_after_eq) simp_all
qed

definition demo_ram :: ram_keyspaces where
  "demo_ram = [([97], [([1, 0], [5]), ([1, 1], [6]), ([1, 2], [7]), ([2], [8])])]"

theorem ram_pages_in_order_witness:
  "ram_ok demo_ram \<and> ram_prefix_page_after demo_ram [97] [1] (Some [1, 0]) 1 = Some [([1, 1], [6])]"
proof -
  have ok: "ram_ok demo_ram"
    by (auto simp: ram_ok_def demo_ram_def hm_ok_def hm_get_def valid_keyspace_def split: if_splits)
  have rows: "filter (\<lambda>e. prefix [1] (fst e)) (ram_entries demo_ram [97]) = [([1, 0], [5]), ([1, 1], [6]), ([1, 2], [7])]"
    by (simp add: demo_ram_def ram_entries_def hm_get_def)
  show ?thesis
    using ok ram_pages_in_order [OF ok rows [symmetric], of 1] by (auto dest: spec [of _ 0])
qed

text \<open>
  Where a durable scan answers with nothing, a range whose bounds are crossed panics in RAM mode.
\<close>

lemma ram_crossed_range_panics:
  "hm_get db name = Some entries \<Longrightarrow> hi < lo \<Longrightarrow> ram_range_bounds db name (Some (lo, True)) (Some (hi, True)) = None"
  by (simp add: ram_range_bounds_def ram_iter_bounds_paginated_def iter_memory_bounds_def scan_lower_def
      scan_upper_def key_bound_def)

end
