(* ===== verification/Persistent_Queue.thy ===== *)
theory Persistent_Queue
  imports Ram_Store Memory_Queue
begin

text \<open>
  The job queues of the persistent engine (\<open>impl QueueStore for PersistentEngine\<close>,
  \<open>crates/thingd/src/persistent.rs\<close>), unencrypted and over a RAM ThingDB database
  (\<open>PersistentEngine::open_in_memory_with_backend\<close>). A job is a record in the keyspace \<open>queue_jobs\<close>;
  a ready job has an entry in \<open>ready_jobs\<close> whose key sorts by priority, creation time and id, a
  leased job one in \<open>lease_jobs\<close> whose key sorts by the end of the lease. The engine caches, per
  queue, how many leases end when and the first entry of the ready index (the cursor).

  The JSON form of a record, the form of ids written by earlier versions and
  \<open>String::from_utf8_lossy\<close> are the parameters in \<open>queue_codec\<close>. A \<open>String\<close> is the list of its UTF-8
  bytes, on which \<open>String::from_utf8\<close> succeeds. A call returns an error or panics: the only panic is
  that of a range scan with crossed bounds. The diagnostics counters are left out.
\<close>

record queue_codec =
  qc_serialize :: "queue_job \<Rightarrow> bytes thingd_result"
  qc_deserialize :: "bytes \<Rightarrow> queue_job thingd_result"
  qc_deserialize_id :: "bytes \<Rightarrow> string thingd_result"
  qc_utf8_lossy :: "bytes \<Rightarrow> string"

datatype queue_failure = Returned thingd_error | Panicked

datatype queue_claim_mode = Claim | ClaimAndAck

type_synonym index_entry = "bytes \<times> bytes"

record persistent_queue =
  pq_db :: ram_keyspaces
  pq_lease_counts :: "(string, nat) hmap"
  pq_lease_expirations :: "(string, (int, nat) btree) hmap"
  pq_ready_cursors :: "(string, index_entry option) hmap"
  pq_claim_mode :: queue_claim_mode

type_synonym 'a pq = "(persistent_queue, queue_failure, 'a) proc"

definition QUEUE_JOBS :: bytes where
  "QUEUE_JOBS = ascii ''queue_jobs''"

definition READY_JOBS :: bytes where
  "READY_JOBS = ascii ''ready_jobs''"

definition LEASE_KEYSPACE :: bytes where
  "LEASE_KEYSPACE = ascii ''lease_jobs''"

definition pq_new :: persistent_queue where
  "pq_new = \<lparr>pq_db = ram_in_memory, pq_lease_counts = [], pq_lease_expirations = [], pq_ready_cursors = [],
     pq_claim_mode = Claim\<rparr>"

section \<open>Keys\<close>

definition encode_scoped_key :: "bytes \<Rightarrow> bytes \<Rightarrow> bytes" where
  "encode_scoped_key scope rest = scope @ [0] @ rest"

definition encode_scoped_prefix :: "bytes \<Rightarrow> bytes" where
  "encode_scoped_prefix scope = scope @ [0]"

definition make_queue_key :: "string \<Rightarrow> string \<Rightarrow> bytes" where
  "make_queue_key queue id' = encode_scoped_key (ascii queue) (ascii id')"

definition make_queue_prefix :: "string \<Rightarrow> bytes" where
  "make_queue_prefix queue = encode_scoped_prefix (ascii queue)"

text \<open>\<open>i32::MAX - priority\<close> wraps for negative priorities, as in a release build.\<close>

definition priority_rev :: "int \<Rightarrow> bytes" where
  "priority_rev priority = to_be 4 (unat (of_int (2147483647 - priority) :: u32))"

definition make_ready_key :: "string \<Rightarrow> int \<Rightarrow> string \<Rightarrow> string \<Rightarrow> bytes" where
  "make_ready_key queue priority created_at id' =
     ascii queue @ [0] @ priority_rev priority @ [0] @ ascii created_at @ [0] @ ascii id'"

definition make_ready_prefix :: "string \<Rightarrow> bytes" where
  "make_ready_prefix queue = ascii queue @ [0]"

definition make_lease_key :: "string \<Rightarrow> int \<Rightarrow> string \<Rightarrow> bytes" where
  "make_lease_key queue expires_at_ms id' =
     ascii queue @ [0] @ to_be 8 (if expires_at_ms < 0 then 0 else nat expires_at_ms) @ [0] @ ascii id'"

definition make_lease_prefix :: "string \<Rightarrow> bytes" where
  "make_lease_prefix queue = ascii queue @ [0]"

definition lease_expiration :: "string \<Rightarrow> bytes \<Rightarrow> (queue_failure, int) result" where
  "lease_expiration queue key =
     (let n = length (make_lease_prefix queue) in
      and_then (ok_or (Returned (Storage ''malformed queue lease index key'')) (subslice key n (sat_add n 8))) (\<lambda>bs.
      if int (from_be bs) > i64_max then Err (Returned (Storage ''queue lease expiration overflows i64''))
      else Ok (int (from_be bs))))"

section \<open>Index values\<close>

definition RAW_QUEUE_ID_PREFIX :: bytes where
  "RAW_QUEUE_ID_PREFIX = ascii ''TDBQID1'' @ [0]"

definition encode_queue_id :: "string \<Rightarrow> bytes" where
  "encode_queue_id id' = RAW_QUEUE_ID_PREFIX @ ascii id'"

definition from_utf8 :: "bytes \<Rightarrow> string" where
  "from_utf8 bs = map (\<lambda>b. char_of (unat b)) bs"

definition decode_queue_id :: "queue_codec \<Rightarrow> bytes \<Rightarrow> (queue_failure, string) result" where
  "decode_queue_id c val =
     (if prefix RAW_QUEUE_ID_PREFIX val then Ok (from_utf8 (drop (length RAW_QUEUE_ID_PREFIX) val))
      else case qc_deserialize_id c val of Inl e \<Rightarrow> Err (Returned e) | Inr id' \<Rightarrow> Ok id')"

text \<open>\<open>key_str.splitn(4, '\0')\<close>: the first \<open>n - 1\<close> pieces, then the rest.\<close>

fun splitn_nul :: "nat \<Rightarrow> string \<Rightarrow> string list" where
  "splitn_nul 0 s = []"
| "splitn_nul (Suc 0) s = [s]"
| "splitn_nul (Suc (Suc n)) s =
     (let piece = takeWhile (\<lambda>ch. ch \<noteq> CHR 0x00) s
      in case dropWhile (\<lambda>ch. ch \<noteq> CHR 0x00) s of
           [] \<Rightarrow> [piece]
         | _ # rest \<Rightarrow> piece # splitn_nul (Suc n) rest)"

text \<open>The id of an entry of the ready index; \<open>None\<close> for an old entry whose key does not hold one.\<close>

definition ready_entry_id :: "queue_codec \<Rightarrow> index_entry \<Rightarrow> (queue_failure, string option) result" where
  "ready_entry_id c entry =
     (if snd entry = [] then
        (let parts = splitn_nul 4 (qc_utf8_lossy c (fst entry))
         in Ok (if length parts \<ge> 4 then Some (parts ! 3) else None))
      else and_then (decode_queue_id c (snd entry)) (\<lambda>id'. Ok (Some id')))"

section \<open>Storage and serialization\<close>

definition pq_serialize :: "queue_codec \<Rightarrow> queue_job \<Rightarrow> (queue_failure, bytes) result" where
  "pq_serialize c job = (case qc_serialize c job of Inl e \<Rightarrow> Err (Returned e) | Inr data \<Rightarrow> Ok data)"

definition pq_deserialize :: "queue_codec \<Rightarrow> bytes \<Rightarrow> (queue_failure, queue_job) result" where
  "pq_deserialize c data = (case qc_deserialize c data of Inl e \<Rightarrow> Err (Returned e) | Inr job \<Rightarrow> Ok job)"

definition pq_commit :: "batch_operation list \<Rightarrow> unit pq" where
  "pq_commit batch s =
     (case ram_commit_batch batch (pq_db s) of
        (Inl e, db) \<Rightarrow> (Err (Returned (Storage e)), s\<lparr>pq_db := db\<rparr>)
      | (Inr _, db) \<Rightarrow> (Ok (), s\<lparr>pq_db := db\<rparr>))"

definition or_panic :: "'a option \<Rightarrow> (queue_failure, 'a) result" where
  "or_panic r = (case r of None \<Rightarrow> Err Panicked | Some x \<Rightarrow> Ok x)"

definition first_ready_after :: "string \<Rightarrow> bytes option \<Rightarrow> persistent_queue \<Rightarrow> (queue_failure, index_entry option) result" where
  "first_ready_after queue after s = or_panic (ram_first_prefix_after (pq_db s) READY_JOBS (make_ready_prefix queue) after)"

section \<open>Caches\<close>

definition queue_has_active_leases :: "string \<Rightarrow> persistent_queue \<Rightarrow> bool" where
  "queue_has_active_leases queue s = (case hm_get (pq_lease_counts s) queue of None \<Rightarrow> False | Some n \<Rightarrow> n > 0)"

definition queue_has_expired_leases :: "string \<Rightarrow> int \<Rightarrow> persistent_queue \<Rightarrow> bool" where
  "queue_has_expired_leases queue now s =
     (case hm_get (pq_lease_expirations s) queue of
        None \<Rightarrow> queue_has_active_leases queue s
      | Some [] \<Rightarrow> queue_has_active_leases queue s
      | Some ((expires_at_ms, _) # _) \<Rightarrow> expires_at_ms \<le> now)"

definition expirations_remove :: "int \<Rightarrow> (int, nat) btree \<Rightarrow> (int, nat) btree" where
  "expirations_remove t m =
     (case bm_get m t of
        None \<Rightarrow> m
      | Some n \<Rightarrow> if n - 1 = 0 then bm_remove t m else bm_insert t (n - 1) m)"

definition expirations_add :: "int \<Rightarrow> (int, nat) btree \<Rightarrow> (int, nat) btree" where
  "expirations_add t m = bm_insert t ((case bm_get m t of None \<Rightarrow> 0 | Some n \<Rightarrow> n) + 1) m"

definition apply_queue_lease_expiration_delta :: "string \<Rightarrow> int list \<Rightarrow> int list \<Rightarrow> persistent_queue \<Rightarrow> persistent_queue" where
  "apply_queue_lease_expiration_delta queue removed added s =
     (if removed = [] \<and> added = [] then s
      else
        let m = (case hm_get (pq_lease_expirations s) queue of None \<Rightarrow> [] | Some m \<Rightarrow> m);
            m = fold expirations_add added (fold expirations_remove removed m)
        in s\<lparr>pq_lease_expirations :=
               (if m = [] then hm_remove queue (pq_lease_expirations s)
                else hm_insert queue m (pq_lease_expirations s))\<rparr>)"

definition apply_queue_lease_delta :: "string \<Rightarrow> nat \<Rightarrow> nat \<Rightarrow> persistent_queue \<Rightarrow> persistent_queue" where
  "apply_queue_lease_delta queue removed added s =
     (if removed = 0 \<and> added = 0 then s
      else
        let current = (case hm_get (pq_lease_counts s) queue of None \<Rightarrow> 0 | Some n \<Rightarrow> n);
            updated = sat_add (current - removed) added
        in s\<lparr>pq_lease_counts :=
               (if updated = 0 then hm_remove queue (pq_lease_counts s)
                else hm_insert queue updated (pq_lease_counts s))\<rparr>)"

definition set_ready_cursor :: "string \<Rightarrow> index_entry option \<Rightarrow> persistent_queue \<Rightarrow> persistent_queue" where
  "set_ready_cursor queue cursor s = s\<lparr>pq_ready_cursors := hm_insert queue cursor (pq_ready_cursors s)\<rparr>"

definition first_queue_ready_entry :: "string \<Rightarrow> index_entry option pq" where
  "first_queue_ready_entry queue s =
     (case hm_get (pq_ready_cursors s) queue of
        Some cursor \<Rightarrow> (Ok cursor, s)
      | None \<Rightarrow>
          (case first_ready_after queue None s of
             Inl e \<Rightarrow> (Err e, s)
           | Inr entry \<Rightarrow> (Ok entry, set_ready_cursor queue entry s)))"

definition cache_queue_ready_min :: "string \<Rightarrow> index_entry \<Rightarrow> persistent_queue \<Rightarrow> persistent_queue" where
  "cache_queue_ready_min queue entry s =
     (case hm_get (pq_ready_cursors s) queue of
        None \<Rightarrow> s
      | Some None \<Rightarrow> set_ready_cursor queue (Some entry) s
      | Some (Some current) \<Rightarrow> if fst entry < fst current then set_ready_cursor queue (Some entry) s else s)"

section \<open>Pushing\<close>

definition stamp_created_at :: "string \<Rightarrow> queue_job \<Rightarrow> queue_job" where
  "stamp_created_at now_iso job = (if qj_created_at job = [] then job\<lparr>qj_created_at := now_iso\<rparr> else job)"

definition job_key :: "queue_job \<Rightarrow> bytes" where
  "job_key job = make_queue_key (qj_queue job) (qj_id job)"

definition ready_entry :: "queue_job \<Rightarrow> index_entry" where
  "ready_entry job =
     (make_ready_key (qj_queue job) (qj_priority job) (qj_created_at job) (qj_id job), encode_queue_id (qj_id job))"

definition put_ready :: "index_entry \<Rightarrow> batch_operation" where
  "put_ready entry = ram_put READY_JOBS (fst entry) (snd entry)"

definition pq_push_job :: "queue_codec \<Rightarrow> string \<Rightarrow> queue_job \<Rightarrow> queue_job pq" where
  "pq_push_job c now_iso job =
     (let job = stamp_created_at now_iso job in
      st_then (st_try (pq_serialize c job)) (\<lambda>data.
      let ready = (if qj_status job = Ready then [ready_entry job] else []) in
      st_then (pq_commit (ram_put QUEUE_JOBS (job_key job) data # map put_ready ready)) (\<lambda>_.
      st_then (st_do (fold (cache_queue_ready_min (qj_queue job)) ready)) (\<lambda>_.
      st_try (Ok job)))))"

text \<open>The loop of \<open>push_jobs_batch\<close>: the jobs, the writes and the ready entries; each job has its clock reading.\<close>

fun push_batch_writes :: "queue_codec \<Rightarrow> (string \<times> queue_job) list \<Rightarrow>
    (queue_failure, queue_job list \<times> batch_operation list \<times> (string \<times> index_entry) list) result" where
  "push_batch_writes c [] = Ok ([], [], [])"
| "push_batch_writes c ((now_iso, job) # jobs) =
     (let job = stamp_created_at now_iso job in
      and_then (pq_serialize c job) (\<lambda>data.
      let ready = (if qj_status job = Ready then [ready_entry job] else []) in
      and_then (push_batch_writes c jobs) (\<lambda>(pushed, writes, entries).
      Ok (job # pushed, ram_put QUEUE_JOBS (job_key job) data # map put_ready ready @ writes,
          map (\<lambda>entry. (qj_queue job, entry)) ready @ entries))))"

definition pq_push_jobs_batch :: "queue_codec \<Rightarrow> (string \<times> queue_job) list \<Rightarrow> queue_job list pq" where
  "pq_push_jobs_batch c jobs =
     st_then (st_try (push_batch_writes c jobs)) (\<lambda>(pushed, writes, entries).
     st_then (pq_commit writes) (\<lambda>_.
     st_then (st_do (fold (\<lambda>(queue, entry). cache_queue_ready_min queue entry) entries)) (\<lambda>_.
     st_try (Ok pushed))))"

section \<open>Claiming one job\<close>

text \<open>What the pass over the expired leases of a queue collects.\<close>

record expiry_pass =
  ep_writes :: "batch_operation list"
  ep_count :: nat
  ep_expirations :: "int list"
  ep_ready :: "index_entry list"

definition drop_lease :: "bytes \<Rightarrow> int \<Rightarrow> expiry_pass \<Rightarrow> expiry_pass" where
  "drop_lease lease_key expires_at_ms p =
     p\<lparr>ep_writes := ep_writes p @ [ram_delete LEASE_KEYSPACE lease_key], ep_count := sat_add (ep_count p) 1,
       ep_expirations := ep_expirations p @ [expires_at_ms]\<rparr>"

text \<open>One lease entry that has expired: its record, if any, becomes ready again.\<close>

definition expire_lease :: "queue_codec \<Rightarrow> ram_keyspaces \<Rightarrow> int \<Rightarrow> string \<Rightarrow> index_entry \<Rightarrow> int \<Rightarrow> expiry_pass \<Rightarrow>
    (queue_failure, expiry_pass) result" where
  "expire_lease c db now queue lease expires_at_ms p =
     and_then (decode_queue_id c (snd lease)) (\<lambda>job_id.
     let qkey = make_queue_key queue job_id in
     case ram_get db QUEUE_JOBS qkey of
       None \<Rightarrow> Ok (drop_lease (fst lease) expires_at_ms p)
     | Some job_data \<Rightarrow>
         and_then (pq_deserialize c job_data) (\<lambda>job.
         let p = drop_lease (fst lease) expires_at_ms p in
         if lease_expired now job then
           (let job = release_job now job in
            and_then (pq_serialize c job) (\<lambda>data.
            Ok (p\<lparr>ep_writes := ep_writes p @ [ram_put QUEUE_JOBS qkey data, put_ready (ready_entry job)],
                  ep_ready := ep_ready p @ [ready_entry job]\<rparr>)))
         else Ok p))"

text \<open>The entries of a prefix after a cursor: they bound the rounds of the loops below.\<close>

definition entries_after :: "bytes \<Rightarrow> bytes option \<Rightarrow> (bytes, bytes) btree \<Rightarrow> index_entry list" where
  "entries_after p after entries = filter (\<lambda>e. prefix p (fst e) \<and> (\<forall>a. after = Some a \<longrightarrow> a < fst e)) entries"

lemma memory_scan_sub:
  assumes "x \<in> set (memory_scan b xs)"
  shows "x \<in> set xs" "sb_prefix b = Some p \<Longrightarrow> prefix p (fst x)"
proof -
  let ?found = "case sb_prefix b of None \<Rightarrow> xs | Some p \<Rightarrow> takeWhile (\<lambda>e. prefix p (fst e)) xs"
  have found: "x \<in> set ?found"
    using assms by (auto simp: memory_scan_def Let_def split: option.splits dest!: in_set_takeD in_set_dropD)
  then show "x \<in> set xs"
    by (auto split: option.splits dest: set_takeWhileD)
  show "prefix p (fst x)" if "sb_prefix b = Some p"
    using found that by (auto dest: set_takeWhileD)
qed

lemma scan_after_sub:
  assumes "iter_memory_bounds db name \<lparr>sb_prefix = Some p, sb_start = map_option (\<lambda>key. (key, False)) after,
      sb_end = None, sb_offset = offset, sb_limit = limit\<rparr> = Some xs" "e \<in> set xs"
  shows "e \<in> set (entries_after p after (ram_entries db name))"
proof -
  let ?b = "\<lparr>sb_prefix = Some p, sb_start = map_option (\<lambda>key. (key, False)) after, sb_end = None,
    sb_offset = offset, sb_limit = limit\<rparr>"
  obtain entries where entries: "hm_get db name = Some entries"
    and scan: "e \<in> set (memory_scan ?b (bm_range (scan_lower ?b) (scan_upper ?b) entries))"
  proof (cases "hm_get db name")
    case None
    then show ?thesis
      using assms by (simp add: iter_memory_bounds_def)
  next
    case (Some entries)
    then show ?thesis
      using assms by (intro that [of entries]) (auto simp: iter_memory_bounds_def split: if_splits)
  qed
  have "e \<in> set entries" "above (scan_lower ?b) (fst e)" "prefix p (fst e)"
    using memory_scan_sub [OF scan] by (auto simp: bm_range_def)
  moreover have "a < fst e" if "after = Some a" for a
    using calculation(2,3) that prefix_le [OF calculation(3)]
    by (auto simp: scan_lower_def key_bound_def not_le split: if_splits)
  ultimately show ?thesis
    using entries by (simp add: entries_after_def ram_entries_def)
qed

lemma ram_first_prefix_after_progress:
  assumes "ram_first_prefix_after db name p after = Some (Some e)"
  shows "e \<in> set (entries_after p after (ram_entries db name))"
proof -
  let ?r = "iter_memory_bounds db name \<lparr>sb_prefix = Some p, sb_start = map_option (\<lambda>key. (key, False)) after,
      sb_end = None, sb_offset = 0, sb_limit = Some 1\<rparr>"
  have "map_option (\<lambda>entries. case entries of [] \<Rightarrow> None | e # _ \<Rightarrow> Some e) ?r = Some (Some e)"
    using assms by (simp add: ram_first_prefix_after_def ram_iter_bounds_paginated_def)
  then obtain xs where "?r = Some xs" "e \<in> set xs"
    by (cases ?r) (auto split: list.splits)
  then show ?thesis by (rule scan_after_sub)
qed

lemma ram_prefix_page_after_progress:
  assumes "ram_prefix_page_after db name p after limit = Some xs" "e \<in> set xs"
  shows "e \<in> set (entries_after p after (ram_entries db name))"
  using assms scan_after_sub [where db = db and name = name and p = p and after = after]
  by (auto simp: ram_prefix_page_after_def ram_iter_bounds_paginated_def split: if_splits)

lemma entries_after_less:
  assumes "e \<in> set (entries_after p after es)"
  shows "length (entries_after p (Some (fst e)) (filter P es)) < length (entries_after p after es)"
proof -
  have after: "a < fst e" if "after = Some a" for a
    using assms that by (simp add: entries_after_def)
  have "entries_after p (Some (fst e)) (filter P es) = filter (\<lambda>x. P x \<and> fst e < fst x) (entries_after p after es)"
    using after by (auto simp: entries_after_def intro!: filter_cong dest: order.strict_trans)
  then show ?thesis
    using assms by (simp add: length_filter_less)
qed

function expire_leases :: "queue_codec \<Rightarrow> ram_keyspaces \<Rightarrow> int \<Rightarrow> string \<Rightarrow> bytes option \<Rightarrow> expiry_pass \<Rightarrow>
    (queue_failure, expiry_pass) result" where
  "expire_leases c db now queue after p =
     (case ram_first_prefix_after db LEASE_KEYSPACE (make_lease_prefix queue) after of
        None \<Rightarrow> Err Panicked
      | Some None \<Rightarrow> Ok p
      | Some (Some lease) \<Rightarrow>
          and_then (lease_expiration queue (fst lease)) (\<lambda>expires_at_ms.
          if expires_at_ms > now then Ok p
          else and_then (expire_lease c db now queue lease expires_at_ms p) (\<lambda>p.
            expire_leases c db now queue (Some (fst lease)) p)))"
  by pat_completeness auto
termination
  by (relation "measure (\<lambda>(c, db, now, queue, after, p).
        length (entries_after (make_lease_prefix queue) after (ram_entries db LEASE_KEYSPACE)))")
    (auto dest!: ram_first_prefix_after_progress entries_after_less [where P = "\<lambda>_. True"])

declare expire_leases.simps [simp del]

text \<open>The first part of \<open>claim_job_with_options\<close>: release the expired leases in one batch.\<close>

definition pq_release_expired :: "queue_codec \<Rightarrow> int \<Rightarrow> string \<Rightarrow> unit pq" where
  "pq_release_expired c now queue s =
     (if \<not> queue_has_expired_leases queue now s then (Ok (), s)
      else
        st_then (st_try (expire_leases c (pq_db s) now queue None
            \<lparr>ep_writes = [], ep_count = 0, ep_expirations = [], ep_ready = []\<rparr>)) (\<lambda>p.
        if ep_writes p = [] then st_try (Ok ())
        else
          st_then (pq_commit (ep_writes p)) (\<lambda>_.
          st_do (\<lambda>s. fold (cache_queue_ready_min queue) (ep_ready p)
            (apply_queue_lease_expiration_delta queue (ep_expirations p) []
              (apply_queue_lease_delta queue (ep_count p) 0 s))))) s)"

text \<open>What becomes of one entry of the ready index.\<close>

datatype claim_outcome = Claimed queue_job | Skipped "index_entry option"

definition repair_ready :: "string \<Rightarrow> bytes \<Rightarrow> unit pq" where
  "repair_ready queue rkey s =
     st_then (st_try (first_ready_after queue (Some rkey) s)) (\<lambda>next_cursor.
     st_then (pq_commit [ram_delete READY_JOBS rkey]) (\<lambda>_.
     st_do (set_ready_cursor queue next_cursor))) s"

definition claimed_job :: "u64 \<Rightarrow> int \<Rightarrow> bool \<Rightarrow> queue_job \<Rightarrow> queue_job" where
  "claimed_job lease_ms now acknowledge job =
     (let job = lease_job lease_ms now (u32_sat_succ (qj_attempts job)) job
      in if acknowledge then complete_job now job else job)"

definition lease_entry :: "string \<Rightarrow> queue_job \<Rightarrow> index_entry" where
  "lease_entry queue job =
     (make_lease_key queue (case qj_lease_expires_at_ms job of None \<Rightarrow> 0 | Some t \<Rightarrow> t) (qj_id job),
      encode_queue_id (qj_id job))"

definition put_lease :: "index_entry \<Rightarrow> batch_operation" where
  "put_lease entry = ram_put LEASE_KEYSPACE (fst entry) (snd entry)"

definition lease_started :: "string \<Rightarrow> queue_job \<Rightarrow> persistent_queue \<Rightarrow> persistent_queue" where
  "lease_started queue job s =
     apply_queue_lease_expiration_delta queue [] [case qj_lease_expires_at_ms job of None \<Rightarrow> 0 | Some t \<Rightarrow> t]
       (apply_queue_lease_delta queue 0 1 s)"

definition claim_ready :: "queue_codec \<Rightarrow> u64 \<Rightarrow> int \<Rightarrow> bool \<Rightarrow> string \<Rightarrow> bytes \<Rightarrow> bytes \<Rightarrow> index_entry option \<Rightarrow>
    queue_job \<Rightarrow> claim_outcome pq" where
  "claim_ready c lease_ms now acknowledge queue rkey qkey delayed job s =
     (let job = claimed_job lease_ms now acknowledge job in
      st_then (st_try (pq_serialize c job)) (\<lambda>data.
      st_then (st_try (first_ready_after queue (Some rkey) s)) (\<lambda>next_cursor.
      st_then (pq_commit ([ram_delete READY_JOBS rkey, ram_put QUEUE_JOBS qkey data] @
          (if acknowledge then [] else [put_lease (lease_entry queue job)]))) (\<lambda>_.
      st_then (st_do (set_ready_cursor queue (case delayed of Some e \<Rightarrow> Some e | None \<Rightarrow> next_cursor))) (\<lambda>_.
      st_then (st_do (if acknowledge then (\<lambda>s. s) else lease_started queue job)) (\<lambda>_.
      st_try (Ok (Claimed job))))))) s)"

definition claim_entry :: "queue_codec \<Rightarrow> u64 \<Rightarrow> int \<Rightarrow> bool \<Rightarrow> string \<Rightarrow> index_entry \<Rightarrow> index_entry option \<Rightarrow>
    claim_outcome pq" where
  "claim_entry c lease_ms now acknowledge queue entry delayed =
     st_then (st_try (ready_entry_id c entry)) (\<lambda>found s.
     case found of
       None \<Rightarrow> (Ok (Skipped delayed), s)
     | Some job_id \<Rightarrow>
         let qkey = make_queue_key queue job_id in
         case ram_get (pq_db s) QUEUE_JOBS qkey of
           None \<Rightarrow> st_then (repair_ready queue (fst entry)) (\<lambda>_. st_try (Ok (Skipped delayed))) s
         | Some job_data \<Rightarrow>
             st_then (st_try (pq_deserialize c job_data)) (\<lambda>job.
             let job = release_job now job in
             if qj_status job \<noteq> Ready
             then st_then (repair_ready queue (fst entry)) (\<lambda>_. st_try (Ok (Skipped delayed)))
             else if qj_available_at_ms job > now
             then st_try (Ok (Skipped (case delayed of Some e \<Rightarrow> Some e | None \<Rightarrow> Some entry)))
             else claim_ready c lease_ms now acknowledge queue (fst entry) qkey delayed job) s)"

text \<open>Passing over entries only takes entries out of the ready index.\<close>

lemma keyspaces_valid [simp]:
  "valid_keyspace QUEUE_JOBS" "valid_keyspace READY_JOBS" "valid_keyspace LEASE_KEYSPACE"
  by (simp_all add: valid_keyspace_def QUEUE_JOBS_def READY_JOBS_def LEASE_KEYSPACE_def ascii_def)

lemma repair_ready_filter:
  assumes "repair_ready queue rkey s = (Ok u, s')"
  shows "\<exists>P. ram_entries (pq_db s') READY_JOBS = filter P (ram_entries (pq_db s) READY_JOBS)"
proof -
  have "pq_commit [ram_delete READY_JOBS rkey] s =
      (Ok (), s\<lparr>pq_db := apply_memory_batch_operation (ram_delete READY_JOBS rkey) (pq_db s)\<rparr>)"
    by (simp add: pq_commit_def ram_commit_batch_def validate_memory_batch_operation_def ram_delete_def
        reject_if_def READY_JOBS_def ascii_def)
  then have "ram_entries (pq_db s') READY_JOBS = bm_remove rkey (ram_entries (pq_db s) READY_JOBS)"
    using assms
    by (cases "first_ready_after queue (Some rkey) s")
      (auto simp: repair_ready_def set_ready_cursor_def ram_entries_apply ram_delete_def st_do_def)
  then show ?thesis
    by (auto simp: bm_remove_def)
qed

lemma claim_ready_not_skipped: "claim_ready c lease_ms now acknowledge queue rkey qkey delayed job s \<noteq> (Ok (Skipped d), s')"
  by (auto simp: claim_ready_def Let_def st_then_def st_try_def st_do_def split: sum.splits prod.splits)

lemma filter_same: "\<exists>P. xs = filter P xs"
  by (rule exI [of _ "\<lambda>_. True"]) simp

lemma claim_entry_filter:
  assumes "claim_entry c lease_ms now acknowledge queue entry delayed s = (Ok (Skipped d), s')"
  shows "\<exists>P. ram_entries (pq_db s') READY_JOBS = filter P (ram_entries (pq_db s) READY_JOBS)"
proof -
  have repair: "\<exists>P. ram_entries (pq_db s') READY_JOBS = filter P (ram_entries (pq_db s) READY_JOBS)"
    if "st_then (repair_ready queue (fst entry)) (\<lambda>_. st_try (Ok (Skipped delayed))) s = (Ok (Skipped d), s')"
    using that repair_ready_filter [of queue "fst entry" s]
    by (auto simp: st_then_def st_try_def split: sum.splits prod.splits)
  show ?thesis
    using assms repair filter_same claim_ready_not_skipped
    by (auto simp: claim_entry_def Let_def st_then_def [of "st_try _"] st_try_def
        split: sum.splits prod.splits option.splits if_splits)
qed

lemma first_ready_after_progress:
  "first_ready_after queue after s = Ok (Some e) \<Longrightarrow>
     e \<in> set (entries_after (make_ready_prefix queue) after (ram_entries (pq_db s) READY_JOBS))"
  by (rule ram_first_prefix_after_progress) (auto simp: first_ready_after_def or_panic_def split: option.splits)

lemma claim_round_less:
  assumes "first_ready_after queue after s = Ok (Some entry)"
    "claim_entry c lease_ms now acknowledge queue entry delayed s = (Ok (Skipped d), s')"
  shows "length (entries_after (make_ready_prefix queue) (Some (fst entry)) (ram_entries (pq_db s') READY_JOBS))
    < length (entries_after (make_ready_prefix queue) after (ram_entries (pq_db s) READY_JOBS))"
proof -
  obtain P where "ram_entries (pq_db s') READY_JOBS = filter P (ram_entries (pq_db s) READY_JOBS)"
    using claim_entry_filter [OF assms(2)] by blast
  then show ?thesis
    using entries_after_less [OF first_ready_after_progress [OF assms(1)]] by simp
qed

function claim_loop :: "queue_codec \<Rightarrow> u64 \<Rightarrow> int \<Rightarrow> bool \<Rightarrow> string \<Rightarrow> bytes option \<Rightarrow> index_entry option \<Rightarrow>
    persistent_queue \<Rightarrow> (queue_failure, queue_job option) result \<times> persistent_queue" where
  "claim_loop c lease_ms now acknowledge queue after delayed s =
     (case first_ready_after queue after s of
        Inl e \<Rightarrow> (Err e, s)
      | Inr None \<Rightarrow> (Ok None, set_ready_cursor queue delayed s)
      | Inr (Some entry) \<Rightarrow>
          (case claim_entry c lease_ms now acknowledge queue entry delayed s of
             (Inl e, s) \<Rightarrow> (Err e, s)
           | (Inr (Claimed job), s) \<Rightarrow> (Ok (Some job), s)
           | (Inr (Skipped delayed), s) \<Rightarrow>
               claim_loop c lease_ms now acknowledge queue (Some (fst entry)) delayed s))"
  by pat_completeness auto
termination
  by (relation "measure (\<lambda>(c, lease_ms, now, acknowledge, queue, after, delayed, s).
        length (entries_after (make_ready_prefix queue) after (ram_entries (pq_db s) READY_JOBS)))")
    (auto dest: claim_round_less [OF _ sym])

declare claim_loop.simps [simp del]

definition pq_claim_job_with_options :: "queue_codec \<Rightarrow> int \<Rightarrow> string \<Rightarrow> u64 \<Rightarrow> queue_job option pq" where
  "pq_claim_job_with_options c now queue lease_ms s =
     (let acknowledge = (pq_claim_mode s = ClaimAndAck) in
      st_then (pq_release_expired c now queue) (\<lambda>_.
      st_then (first_queue_ready_entry queue) (\<lambda>found.
      case found of
        None \<Rightarrow> st_then (st_do (set_ready_cursor queue None)) (\<lambda>_. st_try (Ok None))
      | Some entry \<Rightarrow>
          st_then (claim_entry c lease_ms now acknowledge queue entry None) (\<lambda>outcome.
          case outcome of
            Claimed job \<Rightarrow> st_try (Ok (Some job))
          | Skipped delayed \<Rightarrow> claim_loop c lease_ms now acknowledge queue (Some (fst entry)) delayed))) s)"

definition pq_claim_and_ack :: "queue_codec \<Rightarrow> int \<Rightarrow> string \<Rightarrow> u64 \<Rightarrow> queue_job option pq" where
  "pq_claim_and_ack c now queue lease_ms s =
     (case pq_claim_job_with_options c now queue lease_ms (s\<lparr>pq_claim_mode := ClaimAndAck\<rparr>) of
        (r, s) \<Rightarrow> (r, s\<lparr>pq_claim_mode := Claim\<rparr>))"

section \<open>Claiming a batch\<close>

type_synonym batch_candidate = "bytes \<times> bytes \<times> bytes option \<times> queue_job"

record batch_pass =
  bp_writes :: "batch_operation list"
  bp_count :: nat
  bp_expirations :: "int list"
  bp_expired :: "batch_candidate list"

definition collect_lease :: "queue_codec \<Rightarrow> ram_keyspaces \<Rightarrow> int \<Rightarrow> string \<Rightarrow> index_entry \<Rightarrow> int \<Rightarrow> batch_pass \<Rightarrow>
    (queue_failure, batch_pass) result" where
  "collect_lease c db now queue lease expires_at_ms p =
     and_then (decode_queue_id c (snd lease)) (\<lambda>job_id.
     let qkey = make_queue_key queue job_id;
         dropped = p\<lparr>bp_writes := bp_writes p @ [ram_delete LEASE_KEYSPACE (fst lease)], bp_count := sat_add (bp_count p) 1,
           bp_expirations := bp_expirations p @ [expires_at_ms]\<rparr>
     in case ram_get db QUEUE_JOBS qkey of
       None \<Rightarrow> Ok dropped
     | Some job_data \<Rightarrow>
         and_then (pq_deserialize c job_data) (\<lambda>job.
         if \<not> lease_expired now job then Ok dropped
         else Ok (p\<lparr>bp_expired := bp_expired p @
           [(make_ready_key queue (qj_priority job) (qj_created_at job) (qj_id job), qkey, Some (fst lease), job)]\<rparr>)))"

function collect_expired :: "queue_codec \<Rightarrow> ram_keyspaces \<Rightarrow> int \<Rightarrow> string \<Rightarrow> bytes option \<Rightarrow> batch_pass \<Rightarrow>
    (queue_failure, batch_pass) result" where
  "collect_expired c db now queue after p =
     (case ram_first_prefix_after db LEASE_KEYSPACE (make_lease_prefix queue) after of
        None \<Rightarrow> Err Panicked
      | Some None \<Rightarrow> Ok p
      | Some (Some lease) \<Rightarrow>
          and_then (lease_expiration queue (fst lease)) (\<lambda>expires_at_ms.
          if expires_at_ms > now then Ok p
          else and_then (collect_lease c db now queue lease expires_at_ms p) (\<lambda>p.
            collect_expired c db now queue (Some (fst lease)) p)))"
  by pat_completeness auto
termination
  by (relation "measure (\<lambda>(c, db, now, queue, after, p).
        length (entries_after (make_lease_prefix queue) after (ram_entries db LEASE_KEYSPACE)))")
    (auto dest!: ram_first_prefix_after_progress entries_after_less [where P = "\<lambda>_. True"])

declare collect_expired.simps [simp del]

text \<open>
  The scan of the ready index, page by page. \<open>scan_ready_page\<close> is the loop over a page; it returns
  \<open>True\<close> when it has as many candidates as asked for.
\<close>

record ready_scan =
  rs_candidates :: "batch_candidate list"
  rs_writes :: "batch_operation list"
  rs_delayed :: "index_entry option"
  rs_next :: "index_entry option"
  rs_after :: "bytes option"

fun page_ids :: "queue_codec \<Rightarrow> index_entry list \<Rightarrow> (queue_failure, (index_entry \<times> string option) list) result" where
  "page_ids c [] = Ok []"
| "page_ids c (entry # page) =
     and_then (ready_entry_id c entry) (\<lambda>job_id.
     and_then (page_ids c page) (\<lambda>rest. Ok ((entry, job_id) # rest)))"

fun scan_ready_page :: "queue_codec \<Rightarrow> ram_keyspaces \<Rightarrow> int \<Rightarrow> string \<Rightarrow> nat \<Rightarrow> (index_entry \<times> string option) list \<Rightarrow>
    ready_scan \<Rightarrow> (queue_failure, bool \<times> ready_scan) result" where
  "scan_ready_page c db now queue limit [] r = Ok (False, r)"
| "scan_ready_page c db now queue limit ((entry, job_id) # page) r =
     (let r = r\<lparr>rs_after := Some (fst entry)\<rparr>;
          stale = r\<lparr>rs_writes := rs_writes r @ [ram_delete READY_JOBS (fst entry)]\<rparr>
      in case job_id of
           None \<Rightarrow> scan_ready_page c db now queue limit page r
         | Some job_id \<Rightarrow>
             let qkey = make_queue_key queue job_id in
             case ram_get db QUEUE_JOBS qkey of
               None \<Rightarrow> scan_ready_page c db now queue limit page stale
             | Some job_data \<Rightarrow>
                 and_then (pq_deserialize c job_data) (\<lambda>job.
                 if qj_status job \<noteq> Ready then scan_ready_page c db now queue limit page stale
                 else if qj_available_at_ms job > now
                 then scan_ready_page c db now queue limit page
                        (if rs_delayed r = None then r\<lparr>rs_delayed := Some entry\<rparr> else r)
                 else
                   let r = r\<lparr>rs_candidates := rs_candidates r @ [(fst entry, qkey, None, job)]\<rparr>
                   in if length (rs_candidates r) \<ge> limit
                      then Ok (True, r\<lparr>rs_next := (case page of [] \<Rightarrow> None | (e, _) # _ \<Rightarrow> Some e)\<rparr>)
                      else scan_ready_page c db now queue limit page r))"

definition ready_page :: "ram_keyspaces \<Rightarrow> string \<Rightarrow> nat \<Rightarrow> index_entry option \<Rightarrow> bytes option \<Rightarrow>
    (queue_failure, index_entry list) result" where
  "ready_page db queue page_limit cached after =
     (case cached of
        Some entry \<Rightarrow>
          if page_limit > 1
          then and_then (or_panic (ram_prefix_page_after db READY_JOBS (make_ready_prefix queue) (Some (fst entry)) (page_limit - 1)))
                 (\<lambda>page. Ok (entry # page))
          else Ok [entry]
      | None \<Rightarrow> or_panic (ram_prefix_page_after db READY_JOBS (make_ready_prefix queue) after page_limit))"

lemma page_ids_fst: "page_ids c page = Ok ids \<Longrightarrow> map fst ids = page"
  by (induction page arbitrary: ids) (auto simp: and_then_eq_Ok)

lemma scan_ready_page_Cons:
  assumes "scan_ready_page c db now queue limit ((entry, job_id) # page) r = Ok (False, r')"
  shows "\<exists>r1. scan_ready_page c db now queue limit page r1 = Ok (False, r') \<and> rs_after r1 = Some (fst entry)"
proof (cases "\<exists>i data job. job_id = Some i \<and> ram_get db QUEUE_JOBS (make_queue_key queue i) = Some data
    \<and> pq_deserialize c data = Ok job")
  case True
  then obtain i data job where some: "job_id = Some i" "ram_get db QUEUE_JOBS (make_queue_key queue i) = Some data"
    "pq_deserialize c data = Ok job"
    by blast
  let ?r = "r\<lparr>rs_after := Some (fst entry)\<rparr>"
  consider "qj_status job \<noteq> Ready" | "qj_status job = Ready" "qj_available_at_ms job > now"
    | "qj_status job = Ready" "\<not> qj_available_at_ms job > now"
    by blast
  then show ?thesis
  proof cases
    case 1
    then show ?thesis
      using assms some
      by (intro exI [of _ "?r\<lparr>rs_writes := rs_writes r @ [ram_delete READY_JOBS (fst entry)]\<rparr>"]) (simp add: Let_def)
  next
    case 2
    then show ?thesis
      using assms some
      by (intro exI [of _ "if rs_delayed ?r = None then ?r\<lparr>rs_delayed := Some entry\<rparr> else ?r"]) (simp add: Let_def)
  next
    case 3
    then show ?thesis
      using assms some
      by (intro exI [of _ "?r\<lparr>rs_candidates := rs_candidates r @ [(fst entry, make_queue_key queue i, None, job)]\<rparr>"])
        (simp add: Let_def split: if_splits)
  qed
next
  case False
  then consider "job_id = None" | i where "job_id = Some i" "ram_get db QUEUE_JOBS (make_queue_key queue i) = None"
    | i data e where "job_id = Some i" "ram_get db QUEUE_JOBS (make_queue_key queue i) = Some data" "pq_deserialize c data = Err e"
    by (metis not_Some_eq sum.exhaust)
  then show ?thesis
  proof cases
    case 1
    then show ?thesis
      using assms by (intro exI [of _ "r\<lparr>rs_after := Some (fst entry)\<rparr>"]) (simp add: Let_def)
  next
    case 2
    then show ?thesis
      using assms
      by (intro exI [of _ "r\<lparr>rs_after := Some (fst entry),
          rs_writes := rs_writes r @ [ram_delete READY_JOBS (fst entry)]\<rparr>"]) (simp add: Let_def)
  next
    case 3
    then show ?thesis using assms by (simp add: Let_def)
  qed
qed

lemma scan_ready_page_after:
  "scan_ready_page c db now queue limit page r = Ok (False, r') \<Longrightarrow> page \<noteq> [] \<Longrightarrow>
     rs_after r' = Some (fst (fst (last page)))"
proof (induction page arbitrary: r)
  case (Cons x page)
  obtain entry job_id where x: "x = (entry, job_id)" by (cases x)
  obtain r1 where "scan_ready_page c db now queue limit page r1 = Ok (False, r')" "rs_after r1 = Some (fst entry)"
    using scan_ready_page_Cons Cons.prems(1) unfolding x by blast
  then show ?case
    using Cons.IH [of r1] by (cases "page = []") (simp_all add: x)
qed simp

lemma scan_ready_less:
  assumes "ready_page db queue page_limit None (rs_after r) = Ok page" "page \<noteq> []" "page_ids c page = Ok ids"
    "scan_ready_page c db now queue limit ids r = Ok (False, r')"
  shows "length (entries_after (make_ready_prefix queue) (rs_after r') (ram_entries db READY_JOBS))
    < length (entries_after (make_ready_prefix queue) (rs_after r) (ram_entries db READY_JOBS))"
proof -
  have ids: "map fst ids = page" "ids \<noteq> []"
    using page_ids_fst [OF assms(3)] assms(2) by auto
  then have "rs_after r' = Some (fst (last page))"
    using scan_ready_page_after [OF assms(4)] by (metis last_map)
  moreover have "last page \<in> set (entries_after (make_ready_prefix queue) (rs_after r) (ram_entries db READY_JOBS))"
    using assms(1,2)
    by (intro ram_prefix_page_after_progress [where xs = page])
      (auto simp: ready_page_def or_panic_def split: option.splits)
  ultimately show ?thesis
    using entries_after_less [where P = "\<lambda>_. True"] by simp
qed

function scan_ready :: "queue_codec \<Rightarrow> ram_keyspaces \<Rightarrow> int \<Rightarrow> string \<Rightarrow> nat \<Rightarrow> index_entry option \<Rightarrow> ready_scan \<Rightarrow>
    (queue_failure, bool \<times> ready_scan) result" where
  "scan_ready c db now queue limit cached r =
     and_then (ready_page db queue (sat_add limit 1) cached (rs_after r)) (\<lambda>page.
     if page = [] then Ok (True, r)
     else
       and_then (page_ids c page) (\<lambda>ids.
       and_then (scan_ready_page c db now queue limit ids r) (\<lambda>(full, r).
       if full then Ok (False, r) else scan_ready c db now queue limit None r)))"
  by pat_completeness auto
termination
  by (relation "measures [\<lambda>(c, db, now, queue, limit, cached, r). if cached = None then 0 else 1,
        \<lambda>(c, db, now, queue, limit, cached, r).
          length (entries_after (make_ready_prefix queue) (rs_after r) (ram_entries db READY_JOBS))]")
    (auto dest: scan_ready_less)

declare scan_ready.simps [simp del]

text \<open>The candidates in the order of their keys: the first \<open>limit\<close> are claimed, the other expired ones requeued.\<close>

record batch_claim =
  bc_jobs :: "queue_job list"
  bc_writes :: "batch_operation list"
  bc_removed :: nat
  bc_expirations_removed :: "int list"
  bc_expirations_added :: "int list"
  bc_requeued :: "index_entry list"

definition batch_claimed_job :: "u64 \<Rightarrow> int \<Rightarrow> bool \<Rightarrow> queue_job \<Rightarrow> queue_job" where
  "batch_claimed_job lease_ms now acknowledge job =
     (let job = lease_job lease_ms now (u32_sat_succ (qj_attempts job)) job
      in if acknowledge then complete_job now job else job\<lparr>qj_completed_at_ms := None\<rparr>)"

definition end_candidate_lease :: "bytes option \<Rightarrow> queue_job \<Rightarrow> batch_claim \<Rightarrow> batch_claim" where
  "end_candidate_lease lease_key job b =
     (case lease_key of
        None \<Rightarrow> b
      | Some key \<Rightarrow>
          b\<lparr>bc_removed := sat_add (bc_removed b) 1,
            bc_expirations_removed := bc_expirations_removed b @
              (case qj_lease_expires_at_ms job of None \<Rightarrow> [] | Some t \<Rightarrow> [t]),
            bc_writes := bc_writes b @ [ram_delete LEASE_KEYSPACE key]\<rparr>)"

fun complete_candidates :: "queue_codec \<Rightarrow> u64 \<Rightarrow> int \<Rightarrow> bool \<Rightarrow> string \<Rightarrow> nat \<Rightarrow> batch_candidate list \<Rightarrow> batch_claim \<Rightarrow>
    (queue_failure, batch_claim) result" where
  "complete_candidates c lease_ms now acknowledge queue limit [] b = Ok b"
| "complete_candidates c lease_ms now acknowledge queue limit ((rkey, qkey, lease_key, job) # candidates) b =
     (let b = end_candidate_lease lease_key job b in
      if length (bc_jobs b) < limit then
        (let job = batch_claimed_job lease_ms now acknowledge job in
         and_then (pq_serialize c job) (\<lambda>data.
         complete_candidates c lease_ms now acknowledge queue limit candidates
           (b\<lparr>bc_writes := bc_writes b @ [ram_delete READY_JOBS rkey, ram_put QUEUE_JOBS qkey data] @
                (if acknowledge then [] else [put_lease (lease_entry queue job)]),
              bc_expirations_added := bc_expirations_added b @
                (if acknowledge then [] else [case qj_lease_expires_at_ms job of None \<Rightarrow> 0 | Some t \<Rightarrow> t]),
              bc_jobs := bc_jobs b @ [job]\<rparr>)))
      else if lease_key \<noteq> None then
        (let job = job\<lparr>qj_status := Ready, qj_leased_at_ms := None, qj_lease_expires_at_ms := None\<rparr>;
             entry = (rkey, encode_queue_id (qj_id job)) in
         and_then (pq_serialize c job) (\<lambda>data.
         complete_candidates c lease_ms now acknowledge queue limit candidates
           (b\<lparr>bc_writes := bc_writes b @ [ram_put QUEUE_JOBS qkey data, put_ready entry],
              bc_requeued := bc_requeued b @ [entry]\<rparr>)))
      else complete_candidates c lease_ms now acknowledge queue limit candidates b)"

definition min_cursor :: "index_entry \<Rightarrow> index_entry option \<Rightarrow> index_entry option" where
  "min_cursor entry cursor =
     (case cursor of None \<Rightarrow> Some entry | Some current \<Rightarrow> if fst entry < fst current then Some entry else cursor)"

definition batch_commit :: "string \<Rightarrow> batch_claim \<Rightarrow> unit pq" where
  "batch_commit queue b =
     (if bc_writes b = [] then st_try (Ok ())
      else
        st_then (pq_commit (bc_writes b)) (\<lambda>_.
        st_do (\<lambda>s. apply_queue_lease_expiration_delta queue (bc_expirations_removed b) (bc_expirations_added b)
          (apply_queue_lease_delta queue (bc_removed b) (length (bc_expirations_added b)) s))))"

definition claim_batch_atomic :: "queue_codec \<Rightarrow> int \<Rightarrow> string \<Rightarrow> u64 \<Rightarrow> nat \<Rightarrow> bool \<Rightarrow> queue_job list pq" where
  "claim_batch_atomic c now queue lease_ms limit acknowledge s =
     (if limit > MAX_QUEUE_BATCH_ITEMS
      then (Err (Returned (InvalidInput (''queue batch exceeds the maximum of '' @ decimal MAX_QUEUE_BATCH_ITEMS @ '' jobs''))), s)
      else if limit = 0 then (Ok [], s)
      else
        st_then (st_try
          (if queue_has_expired_leases queue now s
           then collect_expired c (pq_db s) now queue None
                  \<lparr>bp_writes = [], bp_count = 0, bp_expirations = [], bp_expired = []\<rparr>
           else Ok \<lparr>bp_writes = [], bp_count = 0, bp_expirations = [], bp_expired = []\<rparr>)) (\<lambda>p.
        st_then (st_try
          (scan_ready c (pq_db s) now queue limit (Option.bind (hm_get (pq_ready_cursors s) queue) (\<lambda>cursor. cursor))
             \<lparr>rs_candidates = [], rs_writes = [], rs_delayed = None, rs_next = None, rs_after = None\<rparr>)) (\<lambda>(reached_end, r).
        st_then (st_try
          (if length (rs_candidates r) \<ge> limit \<and> rs_next r = None \<and> \<not> reached_end
           then first_ready_after queue (rs_after r) s else Ok (rs_next r))) (\<lambda>next_entry.
        st_then (st_try
          (complete_candidates c lease_ms now acknowledge queue limit (sort_key fst (rs_candidates r @ bp_expired p))
             \<lparr>bc_jobs = [], bc_writes = bp_writes p @ rs_writes r, bc_removed = bp_count p,
              bc_expirations_removed = bp_expirations p, bc_expirations_added = [], bc_requeued = []\<rparr>)) (\<lambda>b.
        st_then (batch_commit queue b) (\<lambda>_.
        st_then (st_do (set_ready_cursor queue (fold min_cursor (bc_requeued b)
            (case rs_delayed r of Some e \<Rightarrow> Some e | None \<Rightarrow> next_entry)))) (\<lambda>_.
        st_try (Ok (bc_jobs b)))))))) s)"

definition pq_claim_jobs_with_options :: "queue_codec \<Rightarrow> int \<Rightarrow> string \<Rightarrow> u64 \<Rightarrow> nat \<Rightarrow> queue_job list pq" where
  "pq_claim_jobs_with_options c now queue lease_ms limit = claim_batch_atomic c now queue lease_ms limit False"

definition pq_claim_and_ack_batch :: "queue_codec \<Rightarrow> int \<Rightarrow> string \<Rightarrow> u64 \<Rightarrow> nat \<Rightarrow> queue_job list pq" where
  "pq_claim_and_ack_batch c now queue lease_ms limit = claim_batch_atomic c now queue lease_ms limit True"

section \<open>Acknowledging and rejecting\<close>

definition lease_ended :: "string \<Rightarrow> int option \<Rightarrow> persistent_queue \<Rightarrow> persistent_queue" where
  "lease_ended queue expires s =
     (case expires of
        None \<Rightarrow> s
      | Some t \<Rightarrow> apply_queue_lease_expiration_delta queue [t] [] (apply_queue_lease_delta queue 1 0 s))"

definition delete_lease :: "string \<Rightarrow> string \<Rightarrow> int option \<Rightarrow> batch_operation list" where
  "delete_lease queue id' expires =
     (case expires of None \<Rightarrow> [] | Some t \<Rightarrow> [ram_delete LEASE_KEYSPACE (make_lease_key queue t id')])"

definition pq_ack_job :: "queue_codec \<Rightarrow> int \<Rightarrow> string \<Rightarrow> string \<Rightarrow> queue_job option pq" where
  "pq_ack_job c now queue id' s =
     (let key = make_queue_key queue id' in
      case ram_get (pq_db s) QUEUE_JOBS key of
        None \<Rightarrow> (Ok None, s)
      | Some data \<Rightarrow>
          st_then (st_try (pq_deserialize c data)) (\<lambda>job.
          if qj_status job \<noteq> Leased then st_try (Ok None)
          else
            let job = complete_job now job in
            st_then (st_try (pq_serialize c job)) (\<lambda>new_data.
            st_then (pq_commit (ram_put QUEUE_JOBS key new_data # delete_lease queue id' (qj_lease_expires_at_ms job))) (\<lambda>_.
            st_then (st_do (lease_ended queue (qj_lease_expires_at_ms job))) (\<lambda>_.
            st_try (Ok (Some job)))))) s)"

fun ack_batch_jobs :: "queue_codec \<Rightarrow> ram_keyspaces \<Rightarrow> int \<Rightarrow> string \<Rightarrow> string list \<Rightarrow>
    (queue_failure, queue_job list \<times> batch_operation list) result" where
  "ack_batch_jobs c db now queue [] = Ok ([], [])"
| "ack_batch_jobs c db now queue (id' # ids) =
     (let key = make_queue_key queue id' in
      case ram_get db QUEUE_JOBS key of
        None \<Rightarrow> Err (Returned (Conflict (''job '' @ id' @ '' was not found in queue '' @ [CHR 0x27] @ queue @ [CHR 0x27])))
      | Some data \<Rightarrow>
          and_then (pq_deserialize c data) (\<lambda>job.
          if qj_status job \<noteq> Leased
          then Err (Returned (Conflict (''job '' @ id' @ '' must be leased before batch ack'')))
          else
            let job = complete_job now job in
            and_then (pq_serialize c job) (\<lambda>new_data.
            and_then (ack_batch_jobs c db now queue ids) (\<lambda>(jobs, writes).
            Ok (job # jobs,
                ram_put QUEUE_JOBS key new_data # delete_lease queue id' (qj_lease_expires_at_ms job) @ writes)))))"

definition ended_leases :: "queue_job list \<Rightarrow> int list" where
  "ended_leases jobs = concat (map (\<lambda>job. case qj_lease_expires_at_ms job of None \<Rightarrow> [] | Some t \<Rightarrow> [t]) jobs)"

definition pq_ack_jobs :: "queue_codec \<Rightarrow> int \<Rightarrow> string \<Rightarrow> string list \<Rightarrow> queue_job list pq" where
  "pq_ack_jobs c now queue ids s =
     (if length ids > MAX_QUEUE_BATCH_ITEMS
      then (Err (Returned (InvalidInput (''queue ack batch exceeds the maximum of '' @ decimal MAX_QUEUE_BATCH_ITEMS @ '' jobs''))), s)
      else if \<not> distinct ids then (Err (Returned (InvalidInput ''queue ack batch contains duplicate job IDs'')), s)
      else if ids = [] then (Ok [], s)
      else
        st_then (st_try (ack_batch_jobs c (pq_db s) now queue ids)) (\<lambda>(jobs, writes).
        st_then (pq_commit writes) (\<lambda>_.
        st_then (st_do (\<lambda>s. apply_queue_lease_expiration_delta queue (ended_leases jobs) []
          (apply_queue_lease_delta queue (length (ended_leases jobs)) 0 s))) (\<lambda>_.
        st_try (Ok jobs)))) s)"

text \<open>\<open>unix_timestamp_millis() + options.delay_ms as i64\<close> wraps, as in a release build.\<close>

definition retry_at :: "int \<Rightarrow> u64 \<Rightarrow> int" where
  "retry_at now delay_ms = sint (of_int now + delay_ms :: u64)"

definition pq_rejected_job :: "int \<Rightarrow> queue_nack_options \<Rightarrow> queue_job \<Rightarrow> queue_job" where
  "pq_rejected_job now options job =
     (let job = job\<lparr>qj_last_error := qn_error options, qj_leased_at_ms := None, qj_lease_expires_at_ms := None\<rparr>
      in if qj_attempts job \<ge> qj_max_attempts job
         then job\<lparr>qj_status := Dead, qj_dead_at_ms := Some now\<rparr>
         else job\<lparr>qj_status := Ready, qj_available_at_ms := retry_at now (qn_delay_ms options)\<rparr>)"

definition pq_nack_job_with_options :: "queue_codec \<Rightarrow> int \<Rightarrow> string \<Rightarrow> string \<Rightarrow> queue_nack_options \<Rightarrow> queue_job option pq" where
  "pq_nack_job_with_options c now queue id' options s =
     (let key = make_queue_key queue id' in
      case ram_get (pq_db s) QUEUE_JOBS key of
        None \<Rightarrow> (Ok None, s)
      | Some data \<Rightarrow>
          st_then (st_try (pq_deserialize c data)) (\<lambda>job.
          if qj_status job \<noteq> Leased then st_try (Ok None)
          else
            let expires = qj_lease_expires_at_ms job;
                job = pq_rejected_job now options job;
                ready = (if qj_status job = Dead then [] else [ready_entry job]) in
            st_then (st_try (pq_serialize c job)) (\<lambda>new_data.
            st_then (pq_commit (ram_put QUEUE_JOBS key new_data # delete_lease queue id' expires @ map put_ready ready)) (\<lambda>_.
            st_then (st_do (lease_ended queue expires)) (\<lambda>_.
            st_then (st_do (fold (cache_queue_ready_min queue) ready)) (\<lambda>_.
            st_try (Ok (Some job))))))) s)"

section \<open>Listing and counting\<close>

fun read_jobs :: "queue_codec \<Rightarrow> index_entry list \<Rightarrow> (queue_failure, queue_job list) result" where
  "read_jobs c [] = Ok []"
| "read_jobs c (entry # entries) =
     and_then (pq_deserialize c (snd entry)) (\<lambda>job. and_then (read_jobs c entries) (\<lambda>jobs. Ok (job # jobs)))"

definition pq_list_jobs :: "queue_codec \<Rightarrow> string \<Rightarrow> persistent_queue \<Rightarrow> (queue_failure, queue_job list) result" where
  "pq_list_jobs c queue s =
     and_then (or_panic (ram_prefix (pq_db s) QUEUE_JOBS (make_queue_prefix queue))) (read_jobs c)"

definition pq_list_dead_jobs :: "queue_codec \<Rightarrow> string \<Rightarrow> persistent_queue \<Rightarrow> (queue_failure, queue_job list) result" where
  "pq_list_dead_jobs c queue s =
     and_then (pq_list_jobs c queue s) (\<lambda>jobs. Ok (filter (\<lambda>job. qj_status job = Dead) jobs))"

definition pq_all_jobs :: "queue_codec \<Rightarrow> persistent_queue \<Rightarrow> (queue_failure, queue_job list) result" where
  "pq_all_jobs c s = and_then (or_panic (ram_iter (pq_db s) QUEUE_JOBS)) (read_jobs c)"

definition pq_list_queues :: "queue_codec \<Rightarrow> persistent_queue \<Rightarrow> (queue_failure, string list) result" where
  "pq_list_queues c s =
     and_then (pq_all_jobs c s) (\<lambda>jobs.
     Ok (fold (\<lambda>job queues. if qj_queue job \<in> set queues then queues else queues @ [qj_queue job]) jobs []))"

definition pq_count_active_jobs :: "queue_codec \<Rightarrow> persistent_queue \<Rightarrow> (queue_failure, nat) result" where
  "pq_count_active_jobs c s =
     and_then (pq_all_jobs c s) (\<lambda>jobs. Ok (length (filter (\<lambda>job. qj_status job = Ready \<or> qj_status job = Leased) jobs)))"

definition pq_count_dead_jobs :: "queue_codec \<Rightarrow> persistent_queue \<Rightarrow> (queue_failure, nat) result" where
  "pq_count_dead_jobs c s =
     and_then (pq_all_jobs c s) (\<lambda>jobs. Ok (length (filter (\<lambda>job. qj_status job = Dead) jobs)))"

end
