(* ===== verification/Queue_Keys.thy ===== *)
theory Queue_Keys
  imports Persistent_Queue
begin

text \<open>
  The order of the index keys of the persistent queue. A key is compared byte by byte; the NUL
  after the queue and after the creation time, neither of which contains one, and the fixed width
  of the integers make that the lexicographic order of the parts.
\<close>

definition nul_free :: "string \<Rightarrow> bool" where
  "nul_free s \<longleftrightarrow> CHR 0x00 \<notin> set s"

definition i32_ok :: "int \<Rightarrow> bool" where
  "i32_ok p \<longleftrightarrow> - 2147483648 \<le> p \<and> p \<le> 2147483647"

section \<open>Strings as bytes\<close>

lemma unat_of_char [simp]: "unat (of_char c :: byte) = of_char c"
proof -
  have "(of_char c :: byte) = of_nat (of_char c)"
    by (simp add: of_nat_of_char)
  then show ?thesis
    by (simp add: unat_of_nat del: of_nat_of_char)
qed

lemma of_char_byte_eq: "(of_char c :: byte) = of_char d \<longleftrightarrow> c = d"
  by (metis char_of_char unat_of_char)

lemma of_char_byte_less: "(of_char c :: byte) < of_char d \<longleftrightarrow> c < d"
  by (simp add: word_less_nat_alt less_char_def)

lemma ascii_simps [simp]: "ascii [] = []" "ascii (c # s) = of_char c # ascii s"
  by (simp_all add: ascii_def)

lemma ascii_less: "ascii s < ascii t \<longleftrightarrow> s < t"
proof (induction s arbitrary: t)
  case (Cons c s)
  show ?case
    by (cases t) (auto simp: of_char_byte_less of_char_byte_eq Cons.IH)
next
  case Nil
  show ?case by (cases t) simp_all
qed

lemma ascii_eq [simp]: "ascii s = ascii t \<longleftrightarrow> s = t"
  using ascii_less [of s t] ascii_less [of t s] by (metis linorder_neq_iff)

lemma from_utf8_ascii [simp]: "from_utf8 (ascii s) = s"
  by (simp add: from_utf8_def ascii_def comp_def)

lemma nul_free_ascii: "nul_free s \<longleftrightarrow> 0 \<notin> set (ascii s)"
proof -
  have "(of_char c :: byte) = 0 \<longleftrightarrow> c = CHR 0x00" for c
    using of_char_byte_eq [of c "CHR 0x00"] by simp
  then show ?thesis
    by (induction s) (auto simp: nul_free_def)
qed

section \<open>Comparing concatenations\<close>

lemma append_less_same: "p @ x < p @ y \<longleftrightarrow> x < (y :: bytes)"
  by (induction p) simp_all

lemma append_less_length:
  "length a = length b \<Longrightarrow> a @ x < b @ y \<longleftrightarrow> a < b \<or> a = b \<and> x < (y :: bytes)"
  by (induction a b rule: list_induct2) auto

lemma nul_terminated_less:
  "0 \<notin> set a \<Longrightarrow> 0 \<notin> set b \<Longrightarrow> a @ 0 # x < b @ 0 # y \<longleftrightarrow> a < b \<or> a = b \<and> x < (y :: bytes)"
proof (induction a arbitrary: b)
  case Nil
  then show ?case
    by (cases b) (auto simp: word_neq_0_conv)
next
  case (Cons c a)
  then show ?case
    by (cases b) auto
qed

lemma nul_terminated_eq:
  "0 \<notin> set a \<Longrightarrow> 0 \<notin> set b \<Longrightarrow> a @ 0 # x = b @ 0 # y \<longleftrightarrow> a = b \<and> x = (y :: bytes)"
proof (induction a arbitrary: b)
  case Nil
  then show ?case by (cases b) auto
next
  case (Cons c a)
  then show ?case by (cases b) auto
qed

lemma nul_terminated_prefix:
  "0 \<notin> set a \<Longrightarrow> 0 \<notin> set b \<Longrightarrow> prefix (a @ [0]) (b @ 0 # (x :: bytes)) \<longleftrightarrow> a = b"
proof (induction a arbitrary: b)
  case Nil
  then show ?case by (cases b) auto
next
  case (Cons c a)
  then show ?case by (cases b) auto
qed

section \<open>Integers\<close>

lemma from_be_Cons: "from_be (b # bs) = unat b * 256 ^ length bs + from_be bs"
proof (induction bs rule: rev_induct)
  case (snoc c bs)
  have "from_be (b # bs @ [c]) = from_be ((b # bs) @ [c])"
    by simp
  also have "\<dots> = from_be (b # bs) * 256 + unat c"
    by (rule from_be_snoc)
  finally show ?case
    by (simp add: snoc.IH algebra_simps)
qed (simp add: from_be_def)

lemma digit_step: "(a :: nat) < b \<Longrightarrow> a * n + n \<le> b * n"
  using mult_le_mono1 [of "Suc a" b n] by simp

lemma from_be_bound: "from_be bs < 256 ^ length bs"
proof (induction bs)
  case (Cons b bs)
  have "unat b * 256 ^ length bs + 256 ^ length bs \<le> 256 * 256 ^ length bs"
    using unat_lt_byte by (rule digit_step)
  then show ?case
    unfolding from_be_Cons length_Cons power_Suc using Cons.IH by linarith
qed (simp add: from_be_def)

lemma from_be_less: "length a = length b \<Longrightarrow> a < b \<longleftrightarrow> from_be a < from_be b"
proof (induction a b rule: list_induct2)
  case (Cons x a y b)
  have bound: "from_be a < 256 ^ length b" "from_be b < 256 ^ length b"
    using from_be_bound [of a] from_be_bound [of b] Cons.hyps by simp_all
  have "unat x * 256 ^ length b + from_be a < unat y * 256 ^ length b + from_be b"
    if less: "unat x < unat y"
    using digit_step [OF less, of "256 ^ length b"] bound by linarith
  moreover have "\<not> unat x * 256 ^ length b + from_be a < unat y * 256 ^ length b + from_be b"
    if less: "unat y < unat x"
    using digit_step [OF less, of "256 ^ length b"] bound by linarith
  ultimately show ?case
    using Cons.IH Cons.hyps linorder_less_linear [of "unat x" "unat y"]
    by (auto simp: from_be_Cons word_less_nat_alt word_unat_eq_iff)
qed (simp add: from_be_def)

lemma to_be_less: "u < 256 ^ n \<Longrightarrow> v < 256 ^ n \<Longrightarrow> to_be n u < to_be n v \<longleftrightarrow> u < v"
  by (simp add: from_be_less from_be_to_be)

text \<open>The reversed priority: the wrap-around makes it right for negative priorities as well.\<close>

lemma unat_priority:
  assumes "i32_ok p"
  shows "int (unat (of_int (2147483647 - p) :: u32)) = 2147483647 - p"
proof -
  have "uint (of_int (2147483647 - p) :: u32) = (2147483647 - p) mod 2 ^ 32"
    by (rule trans [OF uint_word_of_int]) simp
  also have "\<dots> = 2147483647 - p"
    using assms by (simp add: i32_ok_def)
  finally show ?thesis
    unfolding uint_nat .
qed

lemma unat_u32_bound: "unat (w :: u32) < 256 ^ 4"
  using unsigned_less [of w] by simp

lemma priority_rev_less: "i32_ok p \<Longrightarrow> i32_ok p' \<Longrightarrow> priority_rev p < priority_rev p' \<longleftrightarrow> p' < p"
  unfolding priority_rev_def to_be_less [OF unat_u32_bound unat_u32_bound]
  using unat_priority [of p] unat_priority [of p'] by linarith

lemma priority_rev_eq: "i32_ok p \<Longrightarrow> i32_ok p' \<Longrightarrow> priority_rev p = priority_rev p' \<longleftrightarrow> p = p'"
  using priority_rev_less [of p p'] priority_rev_less [of p' p] by (metis linorder_neq_iff)

lemma length_priority_rev [simp]: "length (priority_rev p) = 4"
  by (simp add: priority_rev_def)

section \<open>Keys\<close>

lemma make_queue_key_eq:
  "nul_free q \<Longrightarrow> nul_free q' \<Longrightarrow> make_queue_key q i = make_queue_key q' i' \<longleftrightarrow> q = q' \<and> i = i'"
  by (simp add: make_queue_key_def encode_scoped_key_def nul_free_ascii nul_terminated_eq)

lemma make_ready_key_prefix:
  "nul_free q \<Longrightarrow> nul_free q' \<Longrightarrow> prefix (make_ready_prefix q) (make_ready_key q' p t i) \<longleftrightarrow> q = q'"
  by (simp add: make_ready_prefix_def make_ready_key_def nul_free_ascii nul_terminated_prefix)

lemma make_ready_key_less:
  assumes "i32_ok p" "i32_ok p'" "nul_free t" "nul_free t'"
  shows "make_ready_key q p t i < make_ready_key q p' t' i' \<longleftrightarrow> (- p, t, i) < (- p', t', i')"
proof -
  have "make_ready_key q p t i < make_ready_key q p' t' i' \<longleftrightarrow>
      priority_rev p @ 0 # ascii t @ 0 # ascii i < priority_rev p' @ 0 # ascii t' @ 0 # ascii i'"
    by (simp add: make_ready_key_def append_less_same)
  also have "\<dots> \<longleftrightarrow> (- p, t, i) < (- p', t', i')"
    using assms
    by (auto simp: append_less_length nul_terminated_less nul_free_ascii ascii_less priority_rev_less
        priority_rev_eq less_prod_def')
  finally show ?thesis .
qed

lemma make_ready_key_eq:
  assumes "i32_ok p" "i32_ok p'" "nul_free t" "nul_free t'" "nul_free q" "nul_free q'"
  shows "make_ready_key q p t i = make_ready_key q' p' t' i' \<longleftrightarrow> q = q' \<and> p = p' \<and> t = t' \<and> i = i'"
  using assms
  by (auto simp: make_ready_key_def nul_free_ascii nul_terminated_eq priority_rev_eq)

lemma lease_time_bound: "t \<le> i64_max \<Longrightarrow> nat t < 256 ^ 8"
  by (simp add: i64_max_def)

lemma lease_time_less:
  assumes "0 \<le> t" "0 \<le> t'" "t \<le> i64_max" "t' \<le> i64_max"
  shows "to_be 8 (nat t) < to_be 8 (nat t') \<longleftrightarrow> t < t'" "to_be 8 (nat t) = to_be 8 (nat t') \<longleftrightarrow> t = t'"
  using to_be_less [OF lease_time_bound lease_time_bound, of t t'] to_be_inject [OF lease_time_bound lease_time_bound, of t t']
    assms by auto

lemma make_lease_key_prefix:
  "nul_free q \<Longrightarrow> nul_free q' \<Longrightarrow> prefix (make_lease_prefix q) (make_lease_key q' t i) \<longleftrightarrow> q = q'"
  by (simp add: make_lease_prefix_def make_lease_key_def nul_free_ascii nul_terminated_prefix)

lemma make_lease_key_less:
  assumes "0 \<le> t" "0 \<le> t'" "t \<le> i64_max" "t' \<le> i64_max"
  shows "make_lease_key q t i < make_lease_key q t' i' \<longleftrightarrow> (t, i) < (t', i')"
  using assms
  by (auto simp: make_lease_key_def append_less_same append_less_length lease_time_less ascii_less less_prod_def')

lemma make_lease_key_eq:
  assumes "0 \<le> t" "0 \<le> t'" "t \<le> i64_max" "t' \<le> i64_max" "nul_free q" "nul_free q'"
  shows "make_lease_key q t i = make_lease_key q' t' i' \<longleftrightarrow> q = q' \<and> t = t' \<and> i = i'"
  using assms
  by (auto simp: make_lease_key_def nul_free_ascii nul_terminated_eq lease_time_less)

lemma lease_expiration_key:
  assumes "0 \<le> t" "t \<le> i64_max" "length q < usize_max - 8"
  shows "lease_expiration q (make_lease_key q t i) = Ok t"
proof -
  have "subslice (make_lease_key q t i) (length q + 1) (sat_add (length q + 1) 8) = Some (to_be 8 (nat t))"
    using assms(1,3) subslice_append [of "ascii q @ [0]" "to_be 8 (nat t)" "0 # ascii i"]
    by (simp add: make_lease_key_def ascii_def)
  moreover have "from_be (to_be 8 (nat t)) = nat t"
    using lease_time_bound [OF assms(2)] by (simp add: from_be_to_be)
  ultimately show ?thesis
    using assms(1,2) by (simp add: lease_expiration_def make_lease_prefix_def ascii_def Let_def)
qed

lemma decode_encode_queue_id [simp]: "decode_queue_id c (encode_queue_id i) = Ok i"
  by (simp add: decode_queue_id_def encode_queue_id_def)

lemma encode_queue_id_nonempty [simp]: "encode_queue_id i \<noteq> []"
  by (simp add: encode_queue_id_def RAW_QUEUE_ID_PREFIX_def)

lemma ready_entry_id_encoded [simp]: "ready_entry_id c (k, encode_queue_id i) = Ok (Some i)"
  by (simp add: ready_entry_id_def)

end
