(* ===== verification/Queue_Refinement.thy ===== *)
theory Queue_Refinement
  imports Queue_Keys
begin

text \<open>
  The persistent queue refines a table of jobs. The records of \<open>queue_jobs\<close> are the rows of the
  table; the ready index holds exactly the entries of its ready rows, the lease index those of its
  leased rows; for every queue the cached expirations count at least its leases, and the cached
  cursor, if there is one, is the first entry of its ready index. \<open>pq_rep\<close> says so, and the lemmas
  show for every operation what it does to the table.
\<close>

section \<open>The table\<close>

type_synonym job_table = "string \<times> string \<Rightarrow> queue_job option"

definition job_ref :: "queue_job \<Rightarrow> string \<times> string" where
  "job_ref j = (qj_queue j, qj_id j)"

definition stored :: "job_table \<Rightarrow> queue_job \<Rightarrow> bool" where
  "stored T j \<longleftrightarrow> T (job_ref j) = Some j"

text \<open>Names without NUL that fit into memory, priorities and times in range.\<close>

definition queue_name_ok :: "string \<Rightarrow> bool" where
  "queue_name_ok q \<longleftrightarrow> nul_free q \<and> length q < usize_max - 8"

definition wf_job :: "queue_job \<Rightarrow> bool" where
  "wf_job j \<longleftrightarrow> queue_name_ok (qj_queue j) \<and> nul_free (qj_created_at j) \<and> i32_ok (qj_priority j)
     \<and> (qj_status j = Leased \<longrightarrow> (\<exists>t. qj_lease_expires_at_ms j = Some t \<and> 0 \<le> t \<and> t \<le> i64_max))"

definition table_ok :: "job_table \<Rightarrow> bool" where
  "table_ok T \<longleftrightarrow> finite (dom T) \<and> (\<forall>r j. T r = Some j \<longrightarrow> job_ref j = r \<and> wf_job j)"

lemma table_okD: "table_ok T \<Longrightarrow> T r = Some j \<Longrightarrow> stored T j \<and> job_ref j = r \<and> wf_job j"
  unfolding table_ok_def stored_def by metis

lemma stored_wf: "table_ok T \<Longrightarrow> stored T j \<Longrightarrow> wf_job j"
  unfolding table_ok_def stored_def by metis

lemma wf_job_nul_free: "wf_job j \<Longrightarrow> nul_free (qj_queue j)"
  by (simp add: wf_job_def queue_name_ok_def)

lemma table_ok_update: "table_ok T \<Longrightarrow> wf_job j \<Longrightarrow> table_ok (T(job_ref j \<mapsto> j))"
  unfolding table_ok_def by (simp del: split_paired_All)

lemma stored_update:
  "table_ok T \<Longrightarrow> stored (T(job_ref j \<mapsto> j)) j' \<longleftrightarrow> j' = j \<or> stored T j' \<and> job_ref j' \<noteq> job_ref j"
  by (auto simp: stored_def)

section \<open>The codec of the records\<close>

definition codec_ok :: "queue_codec \<Rightarrow> bool" where
  "codec_ok c \<longleftrightarrow> (\<forall>j. \<exists>d. qc_serialize c j = Ok d \<and> qc_deserialize c d = Ok j)"

definition enc :: "queue_codec \<Rightarrow> queue_job \<Rightarrow> bytes" where
  "enc c j = (case qc_serialize c j of Inl e \<Rightarrow> [] | Inr d \<Rightarrow> d)"

lemma codec_enc:
  assumes "codec_ok c"
  shows "pq_serialize c j = Ok (enc c j)" "pq_deserialize c (enc c j) = Ok j"
proof -
  obtain d where "qc_serialize c j = Ok d" "qc_deserialize c d = Ok j"
    using assms unfolding codec_ok_def by blast
  then show "pq_serialize c j = Ok (enc c j)" "pq_deserialize c (enc c j) = Ok j"
    by (simp_all add: pq_serialize_def pq_deserialize_def enc_def)
qed

section \<open>Records and indexes\<close>

abbreviation records :: "persistent_queue \<Rightarrow> bytes \<Rightarrow> bytes option" where
  "records s \<equiv> ram_get (pq_db s) QUEUE_JOBS"

abbreviation ready_index :: "persistent_queue \<Rightarrow> bytes \<Rightarrow> bytes option" where
  "ready_index s \<equiv> ram_get (pq_db s) READY_JOBS"

abbreviation lease_index :: "persistent_queue \<Rightarrow> bytes \<Rightarrow> bytes option" where
  "lease_index s \<equiv> ram_get (pq_db s) LEASE_KEYSPACE"

definition record_rep :: "queue_codec \<Rightarrow> job_table \<Rightarrow> (bytes \<Rightarrow> bytes option) \<Rightarrow> bool" where
  "record_rep c T g \<longleftrightarrow> (\<forall>k d. g k = Some d \<longleftrightarrow> (\<exists>j. stored T j \<and> k = job_key j \<and> d = enc c j))"

text \<open>An index of the rows with a given status.\<close>

definition index_rep :: "queue_job_status \<Rightarrow> (queue_job \<Rightarrow> index_entry) \<Rightarrow> job_table \<Rightarrow> (bytes \<Rightarrow> bytes option) \<Rightarrow> bool" where
  "index_rep st entry T g \<longleftrightarrow> (\<forall>k v. g k = Some v \<longleftrightarrow> (\<exists>j. stored T j \<and> qj_status j = st \<and> (k, v) = entry j))"

definition own_lease :: "queue_job \<Rightarrow> index_entry" where
  "own_lease j = lease_entry (qj_queue j) j"

lemma job_key_eq: "wf_job j \<Longrightarrow> wf_job j' \<Longrightarrow> job_key j = job_key j' \<longleftrightarrow> job_ref j = job_ref j'"
  by (auto simp: job_key_def job_ref_def make_queue_key_eq wf_job_nul_free)

lemma ready_entry_eq: "wf_job j \<Longrightarrow> wf_job j' \<Longrightarrow> fst (ready_entry j) = fst (ready_entry j') \<Longrightarrow> job_ref j = job_ref j'"
  by (simp add: ready_entry_def job_ref_def wf_job_def queue_name_ok_def make_ready_key_eq)

lemma own_lease_eq:
  assumes "wf_job j" "wf_job j'" "qj_status j = Leased" "qj_status j' = Leased" "fst (own_lease j) = fst (own_lease j')"
  shows "job_ref j = job_ref j'"
proof -
  obtain t t' where "qj_lease_expires_at_ms j = Some t" "0 \<le> t" "t \<le> i64_max"
    "qj_lease_expires_at_ms j' = Some t'" "0 \<le> t'" "t' \<le> i64_max"
    using assms(1-4) unfolding wf_job_def by blast
  then show ?thesis
    using assms by (simp add: own_lease_def lease_entry_def job_ref_def wf_job_def queue_name_ok_def make_lease_key_eq)
qed

lemma record_rep_update:
  assumes "record_rep c T g" "table_ok T" "wf_job j"
  shows "record_rep c (T(job_ref j \<mapsto> j)) (g(job_key j \<mapsto> enc c j))"
  unfolding record_rep_def
proof (intro allI)
  fix k d
  have old: "g k = Some d \<longleftrightarrow> (\<exists>j. stored T j \<and> k = job_key j \<and> d = enc c j)"
    using assms(1) by (simp add: record_rep_def)
  have key: "job_key j' = job_key j \<longleftrightarrow> job_ref j' = job_ref j" if "stored T j'" for j'
    using stored_wf [OF assms(2) that] assms(3) by (rule job_key_eq)
  have "(g(job_key j \<mapsto> enc c j)) k = Some d \<longleftrightarrow> k = job_key j \<and> d = enc c j \<or> k \<noteq> job_key j \<and> g k = Some d"
    by auto
  also have "\<dots> \<longleftrightarrow> (\<exists>j'. stored (T(job_ref j \<mapsto> j)) j' \<and> k = job_key j' \<and> d = enc c j')"
    unfolding old stored_update [OF assms(2)] using key by metis
  finally show "(g(job_key j \<mapsto> enc c j)) k = Some d \<longleftrightarrow>
      (\<exists>j'. stored (T(job_ref j \<mapsto> j)) j' \<and> k = job_key j' \<and> d = enc c j')" .
qed

lemma index_rep_add:
  assumes "index_rep st entry T g" "table_ok T" "qj_status j = st"
    and "T (job_ref j) = None \<or> (\<exists>j0. T (job_ref j) = Some j0 \<and> qj_status j0 \<noteq> st)"
    and key: "\<And>j'. stored T j' \<Longrightarrow> qj_status j' = st \<Longrightarrow> fst (entry j') = fst (entry j) \<Longrightarrow> job_ref j' = job_ref j"
  shows "index_rep st entry (T(job_ref j \<mapsto> j)) (g(fst (entry j) \<mapsto> snd (entry j)))"
  unfolding index_rep_def
proof (intro allI)
  fix k v
  have old: "g k = Some v \<longleftrightarrow> (\<exists>j. stored T j \<and> qj_status j = st \<and> (k, v) = entry j)"
    using assms(1) by (simp add: index_rep_def)
  have other: "job_ref j' \<noteq> job_ref j" if "stored T j'" "qj_status j' = st" for j'
    using assms(4) that by (auto simp: stored_def)
  have "(g(fst (entry j) \<mapsto> snd (entry j))) k = Some v \<longleftrightarrow>
      (k, v) = entry j \<or> k \<noteq> fst (entry j) \<and> g k = Some v"
    by (auto simp: prod_eq_iff)
  also have "\<dots> \<longleftrightarrow> (\<exists>j'. stored (T(job_ref j \<mapsto> j)) j' \<and> qj_status j' = st \<and> (k, v) = entry j')"
    unfolding old stored_update [OF assms(2)] using assms(3) other key by (metis fst_conv)
  finally show "(g(fst (entry j) \<mapsto> snd (entry j))) k = Some v \<longleftrightarrow>
      (\<exists>j'. stored (T(job_ref j \<mapsto> j)) j' \<and> qj_status j' = st \<and> (k, v) = entry j')" .
qed

lemma index_rep_remove:
  assumes "index_rep st entry T g" "table_ok T" "qj_status j \<noteq> st" "T (job_ref j) = Some j0" "qj_status j0 = st"
    and key: "\<And>j'. stored T j' \<Longrightarrow> qj_status j' = st \<Longrightarrow> fst (entry j') = fst (entry j0) \<Longrightarrow> job_ref j' = job_ref j"
  shows "index_rep st entry (T(job_ref j \<mapsto> j)) (g(fst (entry j0) := None))"
  unfolding index_rep_def
proof (intro allI)
  fix k v
  have old: "g k = Some v \<longleftrightarrow> (\<exists>j. stored T j \<and> qj_status j = st \<and> (k, v) = entry j)"
    using assms(1) by (simp add: index_rep_def)
  have same: "j' = j0" if "stored T j'" "job_ref j' = job_ref j" for j'
    using assms(4) that by (simp add: stored_def)
  have "(g(fst (entry j0) := None)) k = Some v \<longleftrightarrow> k \<noteq> fst (entry j0) \<and> g k = Some v"
    by simp
  also have "\<dots> \<longleftrightarrow> (\<exists>j'. stored (T(job_ref j \<mapsto> j)) j' \<and> qj_status j' = st \<and> (k, v) = entry j')"
    unfolding old stored_update [OF assms(2)] using assms(3) same key by (metis fst_conv)
  finally show "(g(fst (entry j0) := None)) k = Some v \<longleftrightarrow>
      (\<exists>j'. stored (T(job_ref j \<mapsto> j)) j' \<and> qj_status j' = st \<and> (k, v) = entry j')" .
qed

lemma index_rep_same:
  assumes "index_rep st entry T g" "table_ok T" "qj_status j \<noteq> st"
    and "T (job_ref j) = None \<or> (\<exists>j0. T (job_ref j) = Some j0 \<and> qj_status j0 \<noteq> st)"
  shows "index_rep st entry (T(job_ref j \<mapsto> j)) g"
proof -
  have "(\<exists>j'. stored (T(job_ref j \<mapsto> j)) j' \<and> qj_status j' = st \<and> x = entry j') \<longleftrightarrow>
      (\<exists>j'. stored T j' \<and> qj_status j' = st \<and> x = entry j')" for x
    unfolding stored_update [OF assms(2)] using assms(3,4) by (auto simp: stored_def)
  then show ?thesis
    using assms(1) by (simp add: index_rep_def)
qed

section \<open>The store\<close>

definition store_rep :: "queue_codec \<Rightarrow> ram_keyspaces \<Rightarrow> job_table \<Rightarrow> bool" where
  "store_rep c db T \<longleftrightarrow> ram_ok db \<and> table_ok T \<and> record_rep c T (ram_get db QUEUE_JOBS)
     \<and> index_rep Ready ready_entry T (ram_get db READY_JOBS) \<and> index_rep Leased own_lease T (ram_get db LEASE_KEYSPACE)"

lemma store_repD:
  assumes "store_rep c db T"
  shows "ram_ok db" "table_ok T" "record_rep c T (ram_get db QUEUE_JOBS)"
    "index_rep Ready ready_entry T (ram_get db READY_JOBS)" "index_rep Leased own_lease T (ram_get db LEASE_KEYSPACE)"
  using assms by (simp_all add: store_rep_def)

lemma keyspace_names [simp]:
  "QUEUE_JOBS \<noteq> READY_JOBS" "READY_JOBS \<noteq> QUEUE_JOBS" "QUEUE_JOBS \<noteq> LEASE_KEYSPACE" "LEASE_KEYSPACE \<noteq> QUEUE_JOBS"
  "READY_JOBS \<noteq> LEASE_KEYSPACE" "LEASE_KEYSPACE \<noteq> READY_JOBS"
  by (simp_all add: QUEUE_JOBS_def READY_JOBS_def LEASE_KEYSPACE_def)

lemma store_get_record:
  assumes "store_rep c db T" "queue_name_ok q"
  shows "ram_get db QUEUE_JOBS (make_queue_key q i) = map_option (enc c) (T (q, i))"
proof -
  have "ram_get db QUEUE_JOBS (make_queue_key q i) = Some d \<longleftrightarrow> (\<exists>j. T (q, i) = Some j \<and> d = enc c j)" for d
  proof -
    have "make_queue_key q i = job_key j \<longleftrightarrow> job_ref j = (q, i)" if "stored T j" for j
      using stored_wf [OF store_repD(2) [OF assms(1)] that] assms(2)
      by (auto simp: job_key_def job_ref_def make_queue_key_eq wf_job_nul_free queue_name_ok_def)
    then have "ram_get db QUEUE_JOBS (make_queue_key q i) = Some d \<longleftrightarrow> (\<exists>j. stored T j \<and> job_ref j = (q, i) \<and> d = enc c j)"
      using store_repD(3) [OF assms(1)] unfolding record_rep_def by metis
    then show ?thesis
      using table_okD [OF store_repD(2) [OF assms(1)]] unfolding stored_def by metis
  qed
  then show ?thesis
    by (cases "T (q, i)") (metis not_Some_eq option.map(1), simp)
qed

lemma store_rep_update:
  assumes "store_rep c db T" "wf_job j" "ram_ok db'"
    and "ram_get db' QUEUE_JOBS = (ram_get db QUEUE_JOBS)(job_key j \<mapsto> enc c j)"
    and "index_rep Ready ready_entry (T(job_ref j \<mapsto> j)) (ram_get db' READY_JOBS)"
    and "index_rep Leased own_lease (T(job_ref j \<mapsto> j)) (ram_get db' LEASE_KEYSPACE)"
  shows "store_rep c db' (T(job_ref j \<mapsto> j))"
  using assms store_repD(2,3) [OF assms(1)] by (simp add: store_rep_def table_ok_update record_rep_update)

text \<open>How a change of one row shows in the two indexes.\<close>

lemma ready_index_add:
  assumes "store_rep c db T" "wf_job j" "qj_status j = Ready"
    and "T (job_ref j) = None \<or> (\<exists>j0. T (job_ref j) = Some j0 \<and> qj_status j0 \<noteq> Ready)"
  shows "index_rep Ready ready_entry (T(job_ref j \<mapsto> j)) ((ram_get db READY_JOBS)(fst (ready_entry j) \<mapsto> snd (ready_entry j)))"
  using store_repD [OF assms(1)] assms(2-) by (intro index_rep_add) (auto intro: ready_entry_eq stored_wf)

lemma ready_index_remove:
  assumes "store_rep c db T" "qj_status j \<noteq> Ready" "T (job_ref j) = Some j0" "qj_status j0 = Ready"
  shows "index_rep Ready ready_entry (T(job_ref j \<mapsto> j)) ((ram_get db READY_JOBS)(fst (ready_entry j0) := None))"
proof (rule index_rep_remove)
  have "stored T j0" "job_ref j0 = job_ref j" "wf_job j0"
    using table_okD [OF store_repD(2) [OF assms(1)] assms(3)] by simp_all
  then show "job_ref j' = job_ref j" if "stored T j'" "qj_status j' = Ready" "fst (ready_entry j') = fst (ready_entry j0)" for j'
    using ready_entry_eq [of j' j0] stored_wf [OF store_repD(2) [OF assms(1)] that(1)] that(3) by simp
qed (use assms store_repD [OF assms(1)] in simp_all)

lemma lease_index_add:
  assumes "store_rep c db T" "wf_job j" "qj_status j = Leased"
    and "T (job_ref j) = None \<or> (\<exists>j0. T (job_ref j) = Some j0 \<and> qj_status j0 \<noteq> Leased)"
  shows "index_rep Leased own_lease (T(job_ref j \<mapsto> j)) ((ram_get db LEASE_KEYSPACE)(fst (own_lease j) \<mapsto> snd (own_lease j)))"
  using store_repD [OF assms(1)] assms(2-) by (intro index_rep_add) (auto intro: own_lease_eq stored_wf)

lemma lease_index_remove:
  assumes "store_rep c db T" "qj_status j \<noteq> Leased" "T (job_ref j) = Some j0" "qj_status j0 = Leased"
  shows "index_rep Leased own_lease (T(job_ref j \<mapsto> j)) ((ram_get db LEASE_KEYSPACE)(fst (own_lease j0) := None))"
proof (rule index_rep_remove)
  have "stored T j0" "job_ref j0 = job_ref j" "wf_job j0"
    using table_okD [OF store_repD(2) [OF assms(1)] assms(3)] by simp_all
  then show "job_ref j' = job_ref j" if "stored T j'" "qj_status j' = Leased" "fst (own_lease j') = fst (own_lease j0)" for j'
    using own_lease_eq [of j' j0] stored_wf [OF store_repD(2) [OF assms(1)] that(1)] that(2,3) assms(4) by simp
qed (use assms store_repD [OF assms(1)] in simp_all)

lemmas index_unchanged = index_rep_same [OF store_repD(4) store_repD(2)] index_rep_same [OF store_repD(5) store_repD(2)]

lemma ram_get_put: "ram_get (apply_memory_batch_operation (ram_put n k v) db) name =
    (if name = n then (ram_get db name)(k \<mapsto> v) else ram_get db name)"
  by (auto simp: fun_eq_iff ram_get_apply ram_put_def)

lemma ram_get_delete: "ram_get (apply_memory_batch_operation (ram_delete n k) db) name =
    (if name = n then (ram_get db name)(k := None) else ram_get db name)"
  by (auto simp: fun_eq_iff ram_get_apply ram_delete_def)

lemma ram_ok_put [simp]: "ram_ok db \<Longrightarrow> valid_keyspace n \<Longrightarrow> ram_ok (apply_memory_batch_operation (ram_put n k v) db)"
  by (simp add: apply_memory_ok ram_put_def)

lemma ram_ok_delete [simp]: "ram_ok db \<Longrightarrow> valid_keyspace n \<Longrightarrow> ram_ok (apply_memory_batch_operation (ram_delete n k) db)"
  by (simp add: apply_memory_ok ram_delete_def)

lemmas batch_simps = ram_get_put ram_get_delete put_ready_def put_lease_def

lemma store_push:
  assumes "store_rep c db T" "wf_job j" "T (job_ref j) = None" "qj_status j = Ready"
  shows "store_rep c (fold apply_memory_batch_operation [ram_put QUEUE_JOBS (job_key j) (enc c j), put_ready (ready_entry j)] db)
    (T(job_ref j \<mapsto> j))"
  using assms ready_index_add [OF assms(1,2,4)] index_unchanged(2) [OF assms(1) assms(1), of j] store_repD(1) [OF assms(1)]
  by (intro store_rep_update [OF assms(1,2)]) (simp_all add: batch_simps)

lemma store_release:
  assumes "store_rep c db T" "wf_job j" "T (job_ref j) = Some j0" "qj_status j0 = Leased" "qj_status j = Ready"
  shows "store_rep c (fold apply_memory_batch_operation
      [ram_delete LEASE_KEYSPACE (fst (own_lease j0)), ram_put QUEUE_JOBS (job_key j) (enc c j), put_ready (ready_entry j)] db)
    (T(job_ref j \<mapsto> j))"
  using assms ready_index_add [OF assms(1,2,5)] lease_index_remove [OF assms(1) _ assms(3,4)] store_repD(1) [OF assms(1)]
  by (intro store_rep_update [OF assms(1,2)]) (simp_all add: batch_simps)

lemma store_claim:
  assumes "store_rep c db T" "wf_job j" "T (job_ref j) = Some j0" "qj_status j0 = Ready" "qj_status j = Leased"
  shows "store_rep c (fold apply_memory_batch_operation
      [ram_delete READY_JOBS (fst (ready_entry j0)), ram_put QUEUE_JOBS (job_key j) (enc c j), put_lease (own_lease j)] db)
    (T(job_ref j \<mapsto> j))"
  using assms lease_index_add [OF assms(1,2,5)] ready_index_remove [OF assms(1) _ assms(3,4)] store_repD(1) [OF assms(1)]
  by (intro store_rep_update [OF assms(1,2)]) (simp_all add: batch_simps)

lemma store_claim_and_ack:
  assumes "store_rep c db T" "wf_job j" "T (job_ref j) = Some j0" "qj_status j0 = Ready" "qj_status j = Completed"
  shows "store_rep c (fold apply_memory_batch_operation
      [ram_delete READY_JOBS (fst (ready_entry j0)), ram_put QUEUE_JOBS (job_key j) (enc c j)] db) (T(job_ref j \<mapsto> j))"
  using assms index_unchanged(2) [OF assms(1) assms(1), of j] ready_index_remove [OF assms(1) _ assms(3,4)] store_repD(1) [OF assms(1)]
  by (intro store_rep_update [OF assms(1,2)]) (simp_all add: batch_simps)

lemma store_end_lease:
  assumes "store_rep c db T" "wf_job j" "T (job_ref j) = Some j0" "qj_status j0 = Leased"
    "qj_status j \<noteq> Leased" "qj_status j \<noteq> Ready"
  shows "store_rep c (fold apply_memory_batch_operation
      [ram_put QUEUE_JOBS (job_key j) (enc c j), ram_delete LEASE_KEYSPACE (fst (own_lease j0))] db) (T(job_ref j \<mapsto> j))"
  using assms index_unchanged(1) [OF assms(1) assms(1), of j] lease_index_remove [OF assms(1) _ assms(3,4)] store_repD(1) [OF assms(1)]
  by (intro store_rep_update [OF assms(1,2)]) (simp_all add: batch_simps)

lemma store_retry:
  assumes "store_rep c db T" "wf_job j" "T (job_ref j) = Some j0" "qj_status j0 = Leased" "qj_status j = Ready"
  shows "store_rep c (fold apply_memory_batch_operation
      [ram_put QUEUE_JOBS (job_key j) (enc c j), ram_delete LEASE_KEYSPACE (fst (own_lease j0)), put_ready (ready_entry j)] db)
    (T(job_ref j \<mapsto> j))"
  using assms ready_index_add [OF assms(1,2,5)] lease_index_remove [OF assms(1) _ assms(3,4)] store_repD(1) [OF assms(1)]
  by (intro store_rep_update [OF assms(1,2)]) (simp_all add: batch_simps)

end
