(* ===== verification/Queue_Caches.thy ===== *)
theory Queue_Caches
  imports Queue_Refinement
begin

text \<open>
  What the engine caches per queue, against the table of jobs. The cached expirations count, for
  every time, at least the leases that end then, so that a scan of the lease index is left out only
  when no lease has expired. The cached cursor, if there is one, is the first entry of the ready
  index. \<open>pq_rep\<close> joins this to the representation of the store.
\<close>

section \<open>The expirations\<close>

definition leased_until :: "string \<Rightarrow> int \<Rightarrow> queue_job \<Rightarrow> bool" where
  "leased_until q t j \<longleftrightarrow> qj_status j = Leased \<and> qj_queue j = q \<and> qj_lease_expires_at_ms j = Some t"

definition lease_refs :: "job_table \<Rightarrow> string \<Rightarrow> int \<Rightarrow> (string \<times> string) set" where
  "lease_refs T q t = {r. \<exists>j. T r = Some j \<and> leased_until q t j}"

definition tally :: "(int, nat) btree \<Rightarrow> int \<Rightarrow> nat" where
  "tally m t = (case bm_get m t of None \<Rightarrow> 0 | Some n \<Rightarrow> n)"

definition exp_ok :: "job_table \<Rightarrow> string \<Rightarrow> (int, nat) btree \<Rightarrow> bool" where
  "exp_ok T q m \<longleftrightarrow> bm_ok m \<and> (\<forall>t. card (lease_refs T q t) \<le> tally m t)"

lemma tally_remove: "tally (expirations_remove t m) t' = (if t' = t then tally m t - 1 else tally m t')"
  by (auto simp: tally_def expirations_remove_def split: option.splits)

lemma tally_add: "tally (expirations_add t m) t' = (if t' = t then tally m t + 1 else tally m t')"
  by (simp add: tally_def expirations_add_def)

lemma expirations_ok [simp]:
  "bm_ok m \<Longrightarrow> bm_ok (expirations_remove t m)" "bm_ok m \<Longrightarrow> bm_ok (expirations_add t m)"
  by (auto simp: expirations_remove_def expirations_add_def split: option.splits)

lemma lease_refs_finite [simp]: "table_ok T \<Longrightarrow> finite (lease_refs T q t)"
  unfolding table_ok_def lease_refs_def by (rule finite_subset [of _ "dom T"]) auto

lemma lease_refs_update:
  "lease_refs (T(r \<mapsto> j)) q t = (if leased_until q t j then insert r (lease_refs T q t) else lease_refs T q t - {r})"
  by (auto simp: lease_refs_def)

lemma exp_ok_start:
  assumes "exp_ok T q m" "leased_until q t j"
  shows "exp_ok (T(r \<mapsto> j)) q (expirations_add t m)"
  unfolding exp_ok_def
proof (intro conjI allI)
  fix t'
  have "card (lease_refs T q t') \<le> tally m t'"
    using assms(1) by (simp add: exp_ok_def)
  moreover have "\<not> leased_until q t' j" if "t' \<noteq> t"
    using assms(2) that by (simp add: leased_until_def)
  ultimately show "card (lease_refs (T(r \<mapsto> j)) q t') \<le> tally (expirations_add t m) t'"
    using assms(2) card_insert_le_m1 [of "Suc (tally m t')" "lease_refs T q t'" r] card_Diff1_le [of "lease_refs T q t'" r]
    by (auto simp: lease_refs_update tally_add intro: le_trans)
qed (use assms in \<open>simp add: exp_ok_def\<close>)

lemma exp_ok_end:
  assumes "exp_ok T q m" "table_ok T" "T r = Some j0" "leased_until q t j0" "qj_status j \<noteq> Leased"
  shows "exp_ok (T(r \<mapsto> j)) q (expirations_remove t m)"
  unfolding exp_ok_def
proof (intro conjI allI)
  fix t'
  have le: "card (lease_refs T q t') \<le> tally m t'"
    using assms(1) by (simp add: exp_ok_def)
  have "\<not> leased_until q t' j"
    using assms(5) by (simp add: leased_until_def)
  moreover have "r \<in> lease_refs T q t"
    using assms(3,4) by (auto simp: lease_refs_def)
  ultimately show "card (lease_refs (T(r \<mapsto> j)) q t') \<le> tally (expirations_remove t m) t'"
    using le card_Diff1_le [of "lease_refs T q t'" r] assms(2) by (auto simp: lease_refs_update tally_remove intro: le_trans)
qed (use assms in \<open>simp add: exp_ok_def\<close>)

lemma exp_ok_same:
  assumes "exp_ok T q m" "qj_queue j \<noteq> q \<or> qj_status j \<noteq> Leased"
  shows "exp_ok (T(r \<mapsto> j)) q m"
  unfolding exp_ok_def
proof (intro conjI allI)
  fix t
  have "card (lease_refs T q t) \<le> tally m t" "\<not> leased_until q t j"
    using assms by (auto simp: exp_ok_def leased_until_def)
  then show "card (lease_refs (T(r \<mapsto> j)) q t) \<le> tally m t"
    using card_Diff1_le [of "lease_refs T q t" r] by (auto simp: lease_refs_update intro: le_trans)
qed (use assms in \<open>simp add: exp_ok_def\<close>)

lemma exp_ok_lease:
  assumes "exp_ok T q m" "table_ok T" "stored T j" "leased_until q t j"
  obtains n where "bm_get m t = Some n"
proof -
  have "job_ref j \<in> lease_refs T q t"
    using assms(3,4) by (auto simp: lease_refs_def stored_def)
  then have "card (lease_refs T q t) > 0"
    using assms(2) by (auto simp: card_gt_0_iff)
  then have "tally m t > 0"
    using assms(1) unfolding exp_ok_def by (metis le_zero_eq neq0_conv)
  then show ?thesis
    using that by (auto simp: tally_def split: option.splits)
qed

section \<open>The cursor\<close>

definition ready_in :: "job_table \<Rightarrow> string \<Rightarrow> queue_job \<Rightarrow> bool" where
  "ready_in T q j \<longleftrightarrow> stored T j \<and> qj_status j = Ready \<and> qj_queue j = q"

definition first_ready :: "job_table \<Rightarrow> string \<Rightarrow> index_entry option \<Rightarrow> bool" where
  "first_ready T q e \<longleftrightarrow>
     (case e of
        None \<Rightarrow> \<forall>j. \<not> ready_in T q j
      | Some x \<Rightarrow> (\<exists>j. ready_in T q j \<and> x = ready_entry j) \<and> (\<forall>j. ready_in T q j \<longrightarrow> fst x \<le> fst (ready_entry j)))"

lemma ready_in_update:
  assumes "table_ok T"
  shows "ready_in (T(job_ref j \<mapsto> j)) q j' \<longleftrightarrow>
    j' = j \<and> qj_status j = Ready \<and> qj_queue j = q \<or> ready_in T q j' \<and> job_ref j' \<noteq> job_ref j"
  by (auto simp: ready_in_def stored_update [OF assms])

lemma first_ready_add:
  assumes "first_ready T q e" "table_ok T" "qj_status j = Ready" "qj_queue j = q"
    and "T (job_ref j) = None \<or> (\<exists>j0. T (job_ref j) = Some j0 \<and> qj_status j0 \<noteq> Ready)"
  shows "first_ready (T(job_ref j \<mapsto> j)) q (min_cursor (ready_entry j) e)"
proof -
  have "job_ref j' \<noteq> job_ref j" if "ready_in T q j'" for j'
    using assms(5) that by (auto simp: ready_in_def stored_def)
  then have ready: "ready_in (T(job_ref j \<mapsto> j)) q j' \<longleftrightarrow> j' = j \<or> ready_in T q j'" for j'
    using assms(3,4) unfolding ready_in_update [OF assms(2)] by metis
  show ?thesis
  proof (cases e)
    case None
    then show ?thesis
      using assms(1) by (simp add: first_ready_def ready min_cursor_def)
  next
    case (Some x)
    then obtain k where x: "ready_in T q k" "x = ready_entry k"
      and least: "\<And>k'. ready_in T q k' \<Longrightarrow> fst x \<le> fst (ready_entry k')"
      using assms(1) by (auto simp: first_ready_def)
    have "fst (ready_entry j) \<le> fst (ready_entry k')" if "ready_in T q k'" "fst (ready_entry j) < fst x" for k'
      using least [OF that(1)] that(2) by simp
    then show ?thesis
      using x least by (auto simp: Some first_ready_def ready min_cursor_def not_less)
  qed
qed

lemma first_ready_same:
  assumes "first_ready T q e" "table_ok T" "qj_queue j \<noteq> q \<or> qj_status j \<noteq> Ready"
    and "\<And>j0. T (job_ref j) = Some j0 \<Longrightarrow> qj_queue j0 \<noteq> q \<or> qj_status j0 \<noteq> Ready"
  shows "first_ready (T(job_ref j \<mapsto> j)) q e"
proof -
  have "job_ref j' \<noteq> job_ref j" if "ready_in T q j'" for j'
    using assms(4) that by (auto simp: ready_in_def stored_def)
  then have "ready_in (T(job_ref j \<mapsto> j)) q j' \<longleftrightarrow> ready_in T q j'" for j'
    using assms(3) unfolding ready_in_update [OF assms(2)] by metis
  then show ?thesis
    using assms(1) by (cases e) (simp_all add: first_ready_def)
qed

section \<open>The caches of the engine\<close>

definition expirations :: "persistent_queue \<Rightarrow> string \<Rightarrow> (int, nat) btree" where
  "expirations s q = (case hm_get (pq_lease_expirations s) q of None \<Rightarrow> [] | Some m \<Rightarrow> m)"

abbreviation cursor :: "persistent_queue \<Rightarrow> string \<Rightarrow> index_entry option option" where
  "cursor s q \<equiv> hm_get (pq_ready_cursors s) q"

definition caches_rep :: "job_table \<Rightarrow> persistent_queue \<Rightarrow> bool" where
  "caches_rep T s \<longleftrightarrow> (\<forall>q. exp_ok T q (expirations s q)) \<and> (\<forall>q e. cursor s q = Some e \<longrightarrow> first_ready T q e)"

definition pq_rep :: "queue_codec \<Rightarrow> persistent_queue \<Rightarrow> job_table \<Rightarrow> bool" where
  "pq_rep c s T \<longleftrightarrow> store_rep c (pq_db s) T \<and> caches_rep T s"

lemma lease_delta_simps [simp]:
  "pq_db (apply_queue_lease_delta q n m s) = pq_db s"
  "pq_ready_cursors (apply_queue_lease_delta q n m s) = pq_ready_cursors s"
  "pq_claim_mode (apply_queue_lease_delta q n m s) = pq_claim_mode s"
  "expirations (apply_queue_lease_delta q n m s) q' = expirations s q'"
  by (simp_all add: apply_queue_lease_delta_def Let_def expirations_def)

lemma lease_expiration_delta_simps [simp]:
  "pq_db (apply_queue_lease_expiration_delta q rs as s) = pq_db s"
  "pq_ready_cursors (apply_queue_lease_expiration_delta q rs as s) = pq_ready_cursors s"
  "pq_claim_mode (apply_queue_lease_expiration_delta q rs as s) = pq_claim_mode s"
  "expirations (apply_queue_lease_expiration_delta q rs as s) q' =
     (if q' = q then fold expirations_add as (fold expirations_remove rs (expirations s q)) else expirations s q')"
  by (auto simp: apply_queue_lease_expiration_delta_def Let_def expirations_def)

lemma set_ready_cursor_simps [simp]:
  "pq_db (set_ready_cursor q e s) = pq_db s"
  "pq_claim_mode (set_ready_cursor q e s) = pq_claim_mode s"
  "expirations (set_ready_cursor q e s) q' = expirations s q'"
  "cursor (set_ready_cursor q e s) q' = (if q' = q then Some e else cursor s q')"
  by (simp_all add: set_ready_cursor_def expirations_def)

lemma cache_min_simps [simp]:
  "pq_db (cache_queue_ready_min q e s) = pq_db s"
  "pq_claim_mode (cache_queue_ready_min q e s) = pq_claim_mode s"
  "expirations (cache_queue_ready_min q e s) q' = expirations s q'"
  "cursor (cache_queue_ready_min q e s) q' = (if q' = q then map_option (min_cursor e) (cursor s q) else cursor s q')"
  by (auto simp: cache_queue_ready_min_def min_cursor_def split: option.splits)

lemma fold_cache_min_simps [simp]:
  "pq_db (fold (cache_queue_ready_min q) es s) = pq_db s"
  "pq_claim_mode (fold (cache_queue_ready_min q) es s) = pq_claim_mode s"
  "expirations (fold (cache_queue_ready_min q) es s) q' = expirations s q'"
  "cursor (fold (cache_queue_ready_min q) es s) q' =
     (if q' = q then map_option (fold min_cursor es) (cursor s q) else cursor s q')"
  by (induction es arbitrary: s) (simp_all add: option.map_comp comp_def option.map_id0)

lemma db_update_simps [simp]:
  "expirations (s\<lparr>pq_db := db\<rparr>) q = expirations s q" "expirations (s\<lparr>pq_claim_mode := mode\<rparr>) q = expirations s q"
  by (simp_all add: expirations_def)

text \<open>A commit to the three keyspaces of the queues.\<close>

lemma pq_commit_ok:
  assumes "ram_ok (pq_db s)" "\<forall>op \<in> set ops. bo_keyspace op \<in> {QUEUE_JOBS, READY_JOBS, LEASE_KEYSPACE}"
  shows "pq_commit ops s = (Ok (), s\<lparr>pq_db := fold apply_memory_batch_operation ops (pq_db s)\<rparr>)"
proof -
  have "valid_keyspace (bo_keyspace op)" if "op \<in> set ops" for op
    using assms(2) that by auto
  then show ?thesis
    using ram_commit_ok(1) [OF assms(1)] by (simp add: pq_commit_def)
qed

lemma pq_rep_new: "pq_rep c pq_new Map.empty"
  by (simp add: pq_rep_def caches_rep_def store_rep_def pq_new_def table_ok_def record_rep_def index_rep_def stored_def
      exp_ok_def lease_refs_def expirations_def ram_get_def ram_entries_def ram_in_memory_def ram_ok_def)

end
