(* ===== verification/Queue_Claims.thy ===== *)
theory Queue_Claims
  imports Queue_Caches
begin

text \<open>
  What the operations of the persistent queue do to the table of jobs. A claim first makes the jobs
  whose leases have expired ready again, in the order of the lease index, and then takes the first
  entry of the ready index whose job is available: in the table, the best job by priority, creation
  time and id.
\<close>

section \<open>Index entries in order\<close>

text \<open>The scans of an index walk through the entries of a prefix one by one.\<close>

lemma entries_after_step:
  assumes "bm_ok es" "entries_after p after es = x # xs"
  shows "entries_after p (Some (fst x)) es = xs"
proof -
  have "x \<in> set (entries_after p after es)"
    by (simp add: assms(2))
  then have after: "a < fst x" if "after = Some a" for a
    using that by (simp add: entries_after_def)
  have "bm_ok (entries_after p after es)"
    using assms(1) by (simp add: entries_after_def)
  then have ok: "bm_ok (x # xs)"
    by (simp only: assms(2))
  have "entries_after p (Some (fst x)) es = filter (\<lambda>e. fst x < fst e) (entries_after p after es)"
    using after by (auto simp: entries_after_def intro!: filter_cong dest: order.strict_trans)
  also have "\<dots> = xs"
    using ok by (simp add: assms(2))
  finally show ?thesis .
qed

lemma find_filter: "find P xs = (case filter P xs of [] \<Rightarrow> None | x # _ \<Rightarrow> Some x)"
  by (induction xs) auto

lemma first_entry_after:
  assumes "\<And>a. after = Some a \<Longrightarrow> prefix p a"
  shows "ram_first_prefix_after db name p after =
    Some (case entries_after p after (ram_entries db name) of [] \<Rightarrow> None | x # _ \<Rightarrow> Some x)"
  using assms by (simp add: ram_first_prefix_after_eq find_filter entries_after_def)

lemma entries_after_prefix:
  assumes "entries_after p after es = x # xs"
  shows "prefix p (fst x)"
proof -
  have "x \<in> set (entries_after p after es)"
    by (simp add: assms)
  then show ?thesis
    by (simp add: entries_after_def)
qed

text \<open>The entries of an index under the prefix of a queue are those of its jobs, in the order of the keys.\<close>

lemma index_jobs:
  assumes "ram_ok db" "index_rep st entry T (ram_get db name)"
    and "\<And>j. stored T j \<Longrightarrow> qj_status j = st \<Longrightarrow> prefix p (fst (entry j)) \<longleftrightarrow> qj_queue j = q"
    and key: "\<And>j j'. stored T j \<Longrightarrow> stored T j' \<Longrightarrow> qj_status j = st \<Longrightarrow> qj_status j' = st \<Longrightarrow> entry j = entry j' \<Longrightarrow> job_ref j = job_ref j'"
  obtains js where "entries_after p None (ram_entries db name) = map entry js"
    "sorted_wrt (\<lambda>j j'. fst (entry j) < fst (entry j')) js"
    "\<And>j. j \<in> set js \<longleftrightarrow> stored T j \<and> qj_status j = st \<and> qj_queue j = q"
proof -
  let ?es = "entries_after p None (ram_entries db name)"
  have ok: "bm_ok ?es"
    using assms(1) by (simp add: entries_after_def)
  have mem: "(k, v) \<in> set ?es \<longleftrightarrow> prefix p k \<and> (\<exists>j. stored T j \<and> qj_status j = st \<and> (k, v) = entry j)" for k v
    using assms(1,2) bm_get_Some_iff [OF ram_ok_entries [OF assms(1)], of name k v]
    by (auto simp: entries_after_def index_rep_def ram_get_def)
  have "\<forall>x \<in> set ?es. \<exists>j. stored T j \<and> qj_status j = st \<and> qj_queue j = q \<and> x = entry j"
    using mem assms(3) by (metis fst_conv surj_pair)
  then obtain f where f: "\<And>x. x \<in> set ?es \<Longrightarrow> stored T (f x) \<and> qj_status (f x) = st \<and> qj_queue (f x) = q \<and> x = entry (f x)"
    by metis
  show ?thesis
  proof (rule that [of "map f ?es"])
    show entries: "?es = map entry (map f ?es)"
      using f by (simp add: map_idI [symmetric])
    show "sorted_wrt (\<lambda>j j'. fst (entry j) < fst (entry j')) (map f ?es)"
      using ok f by (auto simp: bm_ok_def sorted_wrt_map elim!: sorted_wrt_mono_rel [rotated])
    have found: "j \<in> set (map f ?es)" if "stored T j" "qj_status j = st" "qj_queue j = q" for j
    proof -
      have e: "entry j \<in> set ?es"
        using mem [of "fst (entry j)" "snd (entry j)"] assms(3) that by auto
      then have "job_ref (f (entry j)) = job_ref j"
        using key [of "f (entry j)" j] f [OF e] that by metis
      then have "f (entry j) = j"
        using f [OF e] that(1) by (simp add: stored_def)
      then show ?thesis
        using e by (metis image_eqI set_map)
    qed
    show "j \<in> set (map f ?es) \<longleftrightarrow> stored T j \<and> qj_status j = st \<and> qj_queue j = q" for j
      using f found by auto
  qed
qed

lemma ready_jobs:
  assumes "store_rep c db T" "queue_name_ok q"
  obtains js where "entries_after (make_ready_prefix q) None (ram_entries db READY_JOBS) = map ready_entry js"
    "sorted_wrt (\<lambda>j j'. fst (ready_entry j) < fst (ready_entry j')) js" "\<And>j. j \<in> set js \<longleftrightarrow> ready_in T q j"
proof (rule index_jobs [where q = q and p = "make_ready_prefix q", OF store_repD(1,4) [OF assms(1)]])
  fix j
  assume "stored T j"
  then show "prefix (make_ready_prefix q) (fst (ready_entry j)) \<longleftrightarrow> qj_queue j = q"
    using stored_wf [OF store_repD(2) [OF assms(1)], of j] assms(2)
    by (auto simp: ready_entry_def make_ready_key_prefix queue_name_ok_def wf_job_def)
next
  fix j j'
  assume "stored T j" "stored T j'" "ready_entry j = ready_entry j'"
  then show "job_ref j = job_ref j'"
    using stored_wf [OF store_repD(2) [OF assms(1)]] by (intro ready_entry_eq) auto
qed (auto simp: ready_in_def intro: that)

lemma lease_jobs:
  assumes "store_rep c db T" "queue_name_ok q"
  obtains js where "entries_after (make_lease_prefix q) None (ram_entries db LEASE_KEYSPACE) = map own_lease js"
    "sorted_wrt (\<lambda>j j'. fst (own_lease j) < fst (own_lease j')) js"
    "\<And>j. j \<in> set js \<longleftrightarrow> stored T j \<and> qj_status j = Leased \<and> qj_queue j = q"
proof (rule index_jobs [where q = q and p = "make_lease_prefix q", OF store_repD(1,5) [OF assms(1)]])
  fix j
  assume "stored T j"
  then show "prefix (make_lease_prefix q) (fst (own_lease j)) \<longleftrightarrow> qj_queue j = q"
    using stored_wf [OF store_repD(2) [OF assms(1)], of j] assms(2)
    by (auto simp: own_lease_def lease_entry_def make_lease_key_prefix queue_name_ok_def wf_job_def)
next
  fix j j'
  assume "stored T j" "stored T j'" "qj_status j = Leased" "qj_status j' = Leased" "own_lease j = own_lease j'"
  then show "job_ref j = job_ref j'"
    using stored_wf [OF store_repD(2) [OF assms(1)]] by (intro own_lease_eq) auto
qed (auto intro: that)

section \<open>Releasing expired leases\<close>

definition expiry :: "queue_job \<Rightarrow> int" where
  "expiry j = (case qj_lease_expires_at_ms j of None \<Rightarrow> 0 | Some t \<Rightarrow> t)"

lemma expiry_leased:
  assumes "wf_job j" "qj_status j = Leased"
  shows "qj_lease_expires_at_ms j = Some (expiry j)" "0 \<le> expiry j" "expiry j \<le> i64_max" "leased_until (qj_queue j) (expiry j) j"
    "lease_expired now j \<longleftrightarrow> expiry j \<le> now"
  using assms by (auto simp: wf_job_def expiry_def leased_until_def lease_expired_def)

lemma own_lease_expiry: "own_lease j = (make_lease_key (qj_queue j) (expiry j) (qj_id j), encode_queue_id (qj_id j))"
  by (simp add: own_lease_def lease_entry_def expiry_def)

lemma release_job_simps [simp]:
  "job_ref (release_job now j) = job_ref j" "qj_queue (release_job now j) = qj_queue j" "job_key (release_job now j) = job_key j"
  "ready_entry (release_job now j) = ready_entry j" "wf_job j \<Longrightarrow> wf_job (release_job now j)"
  "lease_expired now j \<Longrightarrow> qj_status (release_job now j) = Ready" "\<not> lease_expired now j \<Longrightarrow> release_job now j = j"
  by (auto simp: release_job_def job_ref_def job_key_def ready_entry_def wf_job_def)

definition release_writes :: "queue_codec \<Rightarrow> int \<Rightarrow> queue_job \<Rightarrow> batch_operation list" where
  "release_writes c now j = [ram_delete LEASE_KEYSPACE (fst (own_lease j)),
     ram_put QUEUE_JOBS (job_key j) (enc c (release_job now j)), put_ready (ready_entry j)]"

lemma get_stored:
  assumes "store_rep c db T" "stored T j"
  shows "ram_get db QUEUE_JOBS (make_queue_key (qj_queue j) (qj_id j)) = Some (enc c j)"
  using store_get_record [OF assms(1), of "qj_queue j" "qj_id j"] stored_wf [OF store_repD(2) [OF assms(1)] assms(2)] assms(2)
  by (simp add: stored_def job_ref_def wf_job_def)

lemma expire_lease_stored:
  assumes "store_rep c db T" "codec_ok c" "stored T j" "lease_expired now j"
  shows "expire_lease c db now (qj_queue j) (own_lease j) t p =
    Ok (p\<lparr>ep_writes := ep_writes p @ release_writes c now j, ep_count := sat_add (ep_count p) 1,
        ep_expirations := ep_expirations p @ [t], ep_ready := ep_ready p @ [ready_entry j]\<rparr>)"
  using get_stored [OF assms(1,3)] assms(4)
  by (simp add: expire_lease_def own_lease_expiry codec_enc [OF assms(2)] drop_lease_def release_writes_def job_key_def)

lemma expire_leases_walk:
  assumes "store_rep c db T" "codec_ok c" "queue_name_ok q"
  shows "entries_after (make_lease_prefix q) after (ram_entries db LEASE_KEYSPACE) = map own_lease js \<Longrightarrow>
    (\<And>a. after = Some a \<Longrightarrow> prefix (make_lease_prefix q) a) \<Longrightarrow>
    (\<And>j. j \<in> set js \<Longrightarrow> stored T j \<and> qj_status j = Leased \<and> qj_queue j = q) \<Longrightarrow>
    \<exists>r. expire_leases c db now q after p = Ok r
      \<and> ep_writes r = ep_writes p @ concat (map (release_writes c now) (takeWhile (\<lambda>j. expiry j \<le> now) js))
      \<and> ep_expirations r = ep_expirations p @ map expiry (takeWhile (\<lambda>j. expiry j \<le> now) js)
      \<and> ep_ready r = ep_ready p @ map ready_entry (takeWhile (\<lambda>j. expiry j \<le> now) js)"
proof (induction js arbitrary: after p)
  case Nil
  then show ?case
    by (simp add: expire_leases.simps [of c db now q after p] first_entry_after)
next
  case (Cons j js)
  have j: "stored T j" "qj_status j = Leased" "qj_queue j = q"
    using Cons.prems(3) [of j] by simp_all
  have wf: "wf_job j"
    using stored_wf [OF store_repD(2) [OF assms(1)] j(1)] .
  have first: "ram_first_prefix_after db LEASE_KEYSPACE (make_lease_prefix q) after = Some (Some (own_lease j))"
    using first_entry_after [of after "make_lease_prefix q" db LEASE_KEYSPACE] Cons.prems(1,2) by simp
  have time: "lease_expiration q (fst (own_lease j)) = Ok (expiry j)"
    using expiry_leased(2,3) [OF wf j(2)] assms(3) j(3)
    by (simp add: own_lease_expiry lease_expiration_key queue_name_ok_def)
  show ?case
  proof (cases "expiry j \<le> now")
    case False
    then show ?thesis
      by (simp add: expire_leases.simps [of c db now q after p] first time)
  next
    case True
    let ?p = "p\<lparr>ep_writes := ep_writes p @ release_writes c now j, ep_count := sat_add (ep_count p) 1,
        ep_expirations := ep_expirations p @ [expiry j], ep_ready := ep_ready p @ [ready_entry j]\<rparr>"
    have "expire_leases c db now q after p = expire_leases c db now q (Some (fst (own_lease j))) ?p"
      using True expire_lease_stored [OF assms(1,2) j(1), of now] expiry_leased(5) [OF wf j(2)] j(3)
      by (simp add: expire_leases.simps [of c db now q after p] first time)
    moreover have "entries_after (make_lease_prefix q) (Some (fst (own_lease j))) (ram_entries db LEASE_KEYSPACE) = map own_lease js"
      using entries_after_step [OF _ Cons.prems(1) [unfolded list.map]] store_repD(1) [OF assms(1)] by simp
    moreover have "prefix (make_lease_prefix q) (fst (own_lease j))"
      using entries_after_prefix [OF Cons.prems(1) [unfolded list.map]] .
    ultimately show ?thesis
      using Cons.IH [of "Some (fst (own_lease j))" ?p] Cons.prems(3) True by auto
  qed
qed

text \<open>The effect on the table: the rows of the queue whose lease has expired become ready.\<close>

definition release_row :: "int \<Rightarrow> queue_job \<Rightarrow> job_table \<Rightarrow> job_table" where
  "release_row now j T = T(job_ref j \<mapsto> release_job now j)"

definition release_table :: "int \<Rightarrow> string \<Rightarrow> job_table \<Rightarrow> job_table" where
  "release_table now q T = (\<lambda>r. map_option (\<lambda>j. if qj_queue j = q then release_job now j else j) (T r))"

definition released_rows :: "int \<Rightarrow> string \<Rightarrow> job_table \<Rightarrow> queue_job list \<Rightarrow> bool" where
  "released_rows now q T js \<longleftrightarrow> distinct (map job_ref js) \<and> (\<forall>j \<in> set js. stored T j \<and> lease_expired now j \<and> qj_queue j = q)"

lemma released_rows_Cons:
  assumes "released_rows now q T (j # js)"
  shows "stored T j" "T (job_ref j) = Some j" "lease_expired now j" "qj_status j = Leased" "qj_queue j = q"
    "released_rows now q (release_row now j T) js"
proof -
  have rows: "distinct (map job_ref js)" "job_ref j \<notin> job_ref ` set js"
      "\<forall>j \<in> set js. stored T j \<and> lease_expired now j \<and> qj_queue j = q"
    and j: "stored T j" "lease_expired now j" "qj_queue j = q"
    using assms by (simp_all add: released_rows_def)
  show "stored T j" "T (job_ref j) = Some j" "lease_expired now j" "qj_status j = Leased" "qj_queue j = q"
    using j by (simp_all add: stored_def lease_expired_def)
  have "stored (release_row now j T) j'" if "j' \<in> set js" for j'
  proof -
    have "job_ref j' \<noteq> job_ref j"
      using rows(2) that by (metis imageI)
    then show ?thesis
      using rows(3) that by (simp add: stored_def release_row_def)
  qed
  then show "released_rows now q (release_row now j T) js"
    using rows by (simp add: released_rows_def)
qed

lemma release_row_ok: "table_ok T \<Longrightarrow> stored T j \<Longrightarrow> table_ok (release_row now j T)"
  using table_ok_update [of T "release_job now j"] stored_wf [of T j] by (simp add: release_row_def)

lemma released_store:
  "store_rep c db T \<Longrightarrow> released_rows now q T js \<Longrightarrow>
     store_rep c (fold apply_memory_batch_operation (concat (map (release_writes c now) js)) db) (fold (release_row now) js T)"
proof (induction js arbitrary: db T)
  case (Cons j js)
  note j = released_rows_Cons [OF Cons.prems(2)]
  have "wf_job j"
    using stored_wf [OF store_repD(2) [OF Cons.prems(1)] j(1)] .
  then have "store_rep c (fold apply_memory_batch_operation (release_writes c now j) db) (release_row now j T)"
    using store_release [OF Cons.prems(1), of "release_job now j" j] j(2-4)
    by (simp add: release_writes_def release_row_def)
  then show ?case
    using Cons.IH j(6) by simp
qed simp

lemma released_expirations:
  "table_ok T \<Longrightarrow> exp_ok T q' m \<Longrightarrow> released_rows now q T js \<Longrightarrow>
     exp_ok (fold (release_row now) js T) q' (if q' = q then fold expirations_remove (map expiry js) m else m)"
proof (induction js arbitrary: T m)
  case (Cons j js)
  note j = released_rows_Cons [OF Cons.prems(3)]
  have "leased_until q (expiry j) j"
    using expiry_leased(4) [OF stored_wf [OF Cons.prems(1) j(1)] j(4)] j(5) by simp
  then have "exp_ok (release_row now j T) q' (if q' = q then expirations_remove (expiry j) m else m)"
    using exp_ok_end [OF Cons.prems(2,1) j(2), of "expiry j" "release_job now j"]
      exp_ok_same [OF Cons.prems(2), of "release_job now j" "job_ref j"] j(3)
    by (cases "q' = q") (simp_all add: release_row_def)
  then show ?case
    using Cons.IH [OF release_row_ok [OF Cons.prems(1) j(1)] _ j(6)] by (simp split: if_splits)
qed auto

lemma released_cursor:
  "table_ok T \<Longrightarrow> first_ready T q' e \<Longrightarrow> released_rows now q T js \<Longrightarrow>
     first_ready (fold (release_row now) js T) q' (if q' = q then fold min_cursor (map ready_entry js) e else e)"
proof (induction js arbitrary: T e)
  case (Cons j js)
  note j = released_rows_Cons [OF Cons.prems(3)]
  have "first_ready (release_row now j T) q' (if q' = q then min_cursor (ready_entry j) e else e)"
    using first_ready_add [OF Cons.prems(2,1), of "release_job now j"] first_ready_same [OF Cons.prems(2,1), of "release_job now j"] j(2-5)
    by (cases "q' = q") (simp_all add: release_row_def)
  then show ?case
    using Cons.IH [OF release_row_ok [OF Cons.prems(1) j(1)] _ j(6)] by (simp split: if_splits)
qed auto

lemma released_table:
  "released_rows now q T js \<Longrightarrow>
     fold (release_row now) js T = (\<lambda>r. if r \<in> job_ref ` set js then map_option (release_job now) (T r) else T r)"
proof (induction js arbitrary: T)
  case (Cons j js)
  note j = released_rows_Cons [OF Cons.prems]
  have "job_ref j \<notin> job_ref ` set js"
    using Cons.prems by (simp add: released_rows_def)
  then show ?case
    using Cons.IH [OF j(6)] j(2) by (auto simp: fun_eq_iff release_row_def)
qed simp

lemma takeWhile_filter_sorted:
  "sorted_wrt R xs \<Longrightarrow> (\<And>x y. x \<in> set xs \<Longrightarrow> y \<in> set xs \<Longrightarrow> R x y \<Longrightarrow> P y \<Longrightarrow> P x) \<Longrightarrow> takeWhile P xs = filter P xs"
proof (induction xs)
  case (Cons x xs)
  have "filter P xs = []" if "\<not> P x"
    using Cons.prems(2) [of x] Cons.prems(1) that by (auto simp: filter_empty_conv)
  moreover have "takeWhile P xs = filter P xs"
    using Cons.prems by (intro Cons.IH) auto
  ultimately show ?case by simp
qed simp

text \<open>The leases that a pass finds expired are those of the table.\<close>

lemma expired_leases:
  assumes "store_rep c db T" "codec_ok c" "queue_name_ok q"
  obtains js r where "released_rows now q T js" "fold (release_row now) js T = release_table now q T"
    "expire_leases c db now q None \<lparr>ep_writes = [], ep_count = 0, ep_expirations = [], ep_ready = []\<rparr> = Ok r"
    "ep_writes r = concat (map (release_writes c now) js)" "ep_expirations r = map expiry js" "ep_ready r = map ready_entry js"
proof -
  obtain js where js: "entries_after (make_lease_prefix q) None (ram_entries db LEASE_KEYSPACE) = map own_lease js"
    "sorted_wrt (\<lambda>j j'. fst (own_lease j) < fst (own_lease j')) js"
    "\<And>j. j \<in> set js \<longleftrightarrow> stored T j \<and> qj_status j = Leased \<and> qj_queue j = q"
    using lease_jobs [OF assms(1,3)] by blast
  have wf: "wf_job j" if "j \<in> set js" for j
    using stored_wf [OF store_repD(2) [OF assms(1)]] js(3) that by blast
  have sorted: "takeWhile (\<lambda>j. expiry j \<le> now) js = filter (\<lambda>j. expiry j \<le> now) js" (is "_ = ?js")
  proof (rule takeWhile_filter_sorted [OF js(2)])
    fix j j'
    assume jj: "j \<in> set js" "j' \<in> set js" and less: "fst (own_lease j) < fst (own_lease j')" "expiry j' \<le> now"
    have "expiry j \<le> expiry j'"
      using less(1) expiry_leased(2,3) [OF wf [OF jj(1)]] expiry_leased(2,3) [OF wf [OF jj(2)]] jj js(3)
      by (auto simp: own_lease_expiry make_lease_key_less less_prod_def')
    then show "expiry j \<le> now"
      using less(2) by simp
  qed
  have mem: "j \<in> set ?js \<longleftrightarrow> stored T j \<and> lease_expired now j \<and> qj_queue j = q" for j
    using js(3) [of j] expiry_leased(5) [OF wf [of j], of now] by (auto simp: lease_expired_def)
  have "distinct js"
    using js(2) by (induction js) auto
  moreover have "inj_on job_ref (set js)"
    using js(3) by (auto simp: inj_on_def stored_def)
  ultimately have rows: "released_rows now q T ?js"
    using mem by (auto simp: released_rows_def distinct_map inj_on_def)
  have "fold (release_row now) ?js T = release_table now q T"
  proof
    fix r
    show "fold (release_row now) ?js T r = release_table now q T r"
    proof (cases "T r")
      case (Some j)
      note row = table_okD [OF store_repD(2) [OF assms(1)] Some]
      have "j' = j" if "j' \<in> set ?js" "job_ref j' = r" for j'
        using mem [of j'] that Some by (simp add: stored_def)
      then have "r \<in> job_ref ` set ?js \<longleftrightarrow> j \<in> set ?js"
        using row by blast
      then show ?thesis
        using mem [of j] row Some by (cases "lease_expired now j") (simp_all add: released_table [OF rows] release_table_def)
    qed (simp add: released_table [OF rows] release_table_def)
  qed
  then show ?thesis
    using expire_leases_walk [OF assms js(1), of now "\<lparr>ep_writes = [], ep_count = 0, ep_expirations = [], ep_ready = []\<rparr>"]
      js(3) rows that unfolding sorted by auto
qed

lemma no_expired_leases:
  assumes "pq_rep c s T" "\<not> queue_has_expired_leases q now s"
  shows "release_table now q T = T"
proof
  fix r
  have table: "table_ok T" and exp: "exp_ok T q (expirations s q)"
    using assms(1) by (simp_all add: pq_rep_def store_rep_def caches_rep_def)
  have "\<not> lease_expired now j" if j: "T r = Some j" "qj_queue j = q" for j
  proof
    assume expired: "lease_expired now j"
    have st: "stored T j" "wf_job j" "qj_status j = Leased"
      using table_okD [OF table j(1)] expired by (auto simp: lease_expired_def)
    have t: "leased_until q (expiry j) j" "expiry j \<le> now"
      using expiry_leased(4,5) [OF st(2,3)] j(2) expired by auto
    obtain n where "bm_get (expirations s q) (expiry j) = Some n"
      using exp_ok_lease [OF exp table st(1) t(1)] .
    moreover have "bm_ok (expirations s q)"
      using exp by (simp add: exp_ok_def)
    ultimately show False
      using assms(2) t(2)
      by (fastforce simp: queue_has_expired_leases_def expirations_def dest!: bm_get_SomeD split: option.splits list.splits)
  qed
  then show "release_table now q T r = T r"
    by (cases "T r") (auto simp: release_table_def)
qed

lemma release_writes_keyspaces:
  "op \<in> set (concat (map (release_writes c now) js)) \<Longrightarrow> bo_keyspace op \<in> {QUEUE_JOBS, READY_JOBS, LEASE_KEYSPACE}"
  by (auto simp: release_writes_def ram_put_def ram_delete_def put_ready_def)

lemma release_refines:
  assumes "pq_rep c s T" "codec_ok c" "queue_name_ok q"
  shows "\<exists>s'. pq_release_expired c now q s = (Ok (), s') \<and> pq_rep c s' (release_table now q T) \<and> pq_claim_mode s' = pq_claim_mode s"
proof (cases "queue_has_expired_leases q now s")
  case False
  then show ?thesis
    using assms(1) no_expired_leases [OF assms(1) False] by (simp add: pq_release_expired_def)
next
  case True
  have store: "store_rep c (pq_db s) T" and caches: "caches_rep T s"
    using assms(1) by (simp_all add: pq_rep_def)
  obtain js r where js: "released_rows now q T js" "fold (release_row now) js T = release_table now q T"
    "expire_leases c (pq_db s) now q None \<lparr>ep_writes = [], ep_count = 0, ep_expirations = [], ep_ready = []\<rparr> = Ok r"
    "ep_writes r = concat (map (release_writes c now) js)" "ep_expirations r = map expiry js" "ep_ready r = map ready_entry js"
    using expired_leases [OF store assms(2,3)] by blast
  show ?thesis
  proof (cases "js = []")
    case True
    then show ?thesis
      using assms(1) js(2-4) \<open>queue_has_expired_leases q now s\<close>
      by (simp add: pq_release_expired_def st_try_def)
  next
    case False
    then have ne: "concat (map (release_writes c now) js) \<noteq> []"
      by (cases js) (simp_all add: release_writes_def)
    let ?db = "fold apply_memory_batch_operation (concat (map (release_writes c now) js)) (pq_db s)"
    let ?s = "fold (cache_queue_ready_min q) (map ready_entry js) (apply_queue_lease_expiration_delta q (map expiry js) []
      (apply_queue_lease_delta q (ep_count r) 0 (s\<lparr>pq_db := ?db\<rparr>)))"
    have "pq_commit (concat (map (release_writes c now) js)) s = (Ok (), s\<lparr>pq_db := ?db\<rparr>)"
      using release_writes_keyspaces by (intro pq_commit_ok [OF store_repD(1) [OF store]]) blast
    then have "pq_release_expired c now q s = (Ok (), ?s)"
      using True ne js(3-6) by (simp add: pq_release_expired_def st_do_def del: concat_eq_Nil_conv)
    moreover have "caches_rep (release_table now q T) ?s"
      unfolding caches_rep_def
    proof (intro conjI allI impI)
      show "exp_ok (release_table now q T) q' (expirations ?s q')" for q'
        using caches released_expirations [OF store_repD(2) [OF store] _ js(1), of q' "expirations s q'"] js(2)
        by (cases "q' = q") (simp_all add: caches_rep_def)
    next
      fix q' e'
      assume "cursor ?s q' = Some e'"
      then obtain e where "cursor s q' = Some e" "e' = (if q' = q then fold min_cursor (map ready_entry js) e else e)"
        by (cases "q' = q") auto
      then show "first_ready (release_table now q T) q' e'"
        using caches released_cursor [OF store_repD(2) [OF store] _ js(1), of q' e] js(2) by (simp add: caches_rep_def)
    qed
    ultimately show ?thesis
      using released_store [OF store js(1)] js(2) by (simp add: pq_rep_def)
  qed
qed

section \<open>Claiming\<close>

definition rank :: "queue_job \<Rightarrow> int \<times> string \<times> string" where
  "rank j = (- qj_priority j, qj_created_at j, qj_id j)"

definition first_of :: "queue_job list \<Rightarrow> index_entry option" where
  "first_of js = (case js of [] \<Rightarrow> None | j # _ \<Rightarrow> Some (ready_entry j))"

definition or_else :: "'a option \<Rightarrow> 'a option \<Rightarrow> 'a option" where
  "or_else d e = (case d of Some x \<Rightarrow> Some x | None \<Rightarrow> e)"

lemma or_else_simps [simp]: "or_else None e = e" "or_else (Some x) e = Some x" "or_else (or_else a b) e = or_else a (or_else b e)"
  by (auto simp: or_else_def split: option.splits)

lemma first_of_append: "first_of (xs @ ys) = or_else (first_of xs) (first_of ys)"
  by (cases xs) (simp_all add: first_of_def)

lemma first_of_simps [simp]: "first_of [] = None" "first_of (j # js) = Some (ready_entry j)"
  by (simp_all add: first_of_def)

lemma ready_entry_less:
  "wf_job j \<Longrightarrow> wf_job j' \<Longrightarrow> qj_queue j = qj_queue j' \<Longrightarrow> fst (ready_entry j) < fst (ready_entry j') \<longleftrightarrow> rank j < rank j'"
  by (simp add: ready_entry_def rank_def wf_job_def make_ready_key_less)

lemma first_ready_sorted:
  assumes "sorted_wrt (\<lambda>j j'. fst (ready_entry j) < fst (ready_entry j')) js" "\<And>j. j \<in> set js \<longleftrightarrow> ready_in T q j"
  shows "first_ready T q (first_of js)"
proof (cases js)
  case Nil
  then show ?thesis
    using assms(2) by (simp add: first_ready_def)
next
  case (Cons j rest)
  then show ?thesis
    using assms by (auto simp: first_ready_def simp flip: assms(2) intro: less_imp_le)
qed

lemma first_ready_unique:
  assumes "sorted_wrt (\<lambda>j j'. fst (ready_entry j) < fst (ready_entry j')) js" "\<And>j. j \<in> set js \<longleftrightarrow> ready_in T q j"
    "first_ready T q e"
  shows "e = first_of js"
proof (cases js)
  case Nil
  then show ?thesis
    using assms(2,3) by (auto simp: first_ready_def split: option.splits)
next
  case (Cons j rest)
  then have "ready_in T q j"
    using assms(2) [of j] by simp
  then obtain k where k: "k \<in> set js" "e = Some (ready_entry k)" "fst (ready_entry k) \<le> fst (ready_entry j)"
    using assms(3) unfolding first_ready_def assms(2) by (cases e) auto
  then have "k = j"
    using assms(1) Cons by auto
  then show ?thesis
    using Cons k(2) by simp
qed

text \<open>The job after a claim.\<close>

lemma claim_time:
  "0 \<le> now \<Longrightarrow> 0 \<le> i64_sat_add now (u64_to_i64 lease_ms) \<and> i64_sat_add now (u64_to_i64 lease_ms) \<le> i64_max"
  by (auto simp: i64_sat_add_def u64_to_i64_def i64_max_def i64_min_def le_max_iff_disj)

lemma claimed_job_simps [simp]:
  "job_ref (claimed_job lease_ms now ack j) = job_ref j" "qj_queue (claimed_job lease_ms now ack j) = qj_queue j"
  "qj_id (claimed_job lease_ms now ack j) = qj_id j" "job_key (claimed_job lease_ms now ack j) = job_key j"
  "qj_status (claimed_job lease_ms now ack j) = (if ack then Completed else Leased)"
  by (auto simp: claimed_job_def lease_job_def complete_job_def job_ref_def job_key_def Let_def)

lemma claimed_job_wf: "wf_job j \<Longrightarrow> 0 \<le> now \<Longrightarrow> wf_job (claimed_job lease_ms now ack j)"
  using claim_time [of now lease_ms] by (auto simp: claimed_job_def lease_job_def complete_job_def wf_job_def Let_def)

text \<open>The state after a claim, with the cursor it leaves.\<close>

definition claimed_writes :: "queue_codec \<Rightarrow> bool \<Rightarrow> queue_job \<Rightarrow> queue_job \<Rightarrow> batch_operation list" where
  "claimed_writes c ack j j' = [ram_delete READY_JOBS (fst (ready_entry j)), ram_put QUEUE_JOBS (job_key j') (enc c j')] @
     (if ack then [] else [put_lease (own_lease j')])"

definition claimed_state :: "queue_codec \<Rightarrow> bool \<Rightarrow> queue_job \<Rightarrow> queue_job \<Rightarrow> index_entry option \<Rightarrow> persistent_queue \<Rightarrow> persistent_queue" where
  "claimed_state c ack j j' e s =
     (if ack then (\<lambda>s. s) else lease_started (qj_queue j) j')
       (set_ready_cursor (qj_queue j) e (s\<lparr>pq_db := fold apply_memory_batch_operation (claimed_writes c ack j j') (pq_db s)\<rparr>))"

lemma claimed_state_simps [simp]: "pq_claim_mode (claimed_state c ack j j' e s) = pq_claim_mode s"
  by (simp add: claimed_state_def lease_started_def)

lemma claimed_rep:
  assumes "pq_rep c s T" "ready_in T q j" "0 \<le> now" "j' = claimed_job lease_ms now ack j"
    "first_ready (T(job_ref j \<mapsto> j')) q e"
  shows "pq_rep c (claimed_state c ack j j' e s) (T(job_ref j \<mapsto> j'))"
proof -
  have store: "store_rep c (pq_db s) T" and caches: "caches_rep T s"
    using assms(1) by (simp_all add: pq_rep_def)
  note table = store_repD(2) [OF store]
  have j: "T (job_ref j) = Some j" "qj_status j = Ready" "qj_queue j = q" "wf_job j"
    using assms(2) stored_wf [OF table] by (auto simp: ready_in_def stored_def)
  have j': "wf_job j'" "job_ref j' = job_ref j" "qj_status j' = (if ack then Completed else Leased)" "qj_queue j' = q"
    using claimed_job_wf [OF j(4) assms(3)] by (simp_all add: assms(4) j(3))
  have "store_rep c (pq_db (claimed_state c ack j j' e s)) (T(job_ref j \<mapsto> j'))"
    using store_claim [OF store j'(1), of j] store_claim_and_ack [OF store j'(1), of j] j j'(2,3)
    by (simp add: claimed_state_def claimed_writes_def lease_started_def)
  moreover have "exp_ok (T(job_ref j \<mapsto> j')) q' (expirations (claimed_state c ack j j' e s) q')" for q'
  proof -
    have exp: "exp_ok T q' (expirations s q')"
      using caches by (simp add: caches_rep_def)
    show ?thesis
    proof (cases "ack \<or> q' \<noteq> q")
      case True
      then show ?thesis
        using exp_ok_same [OF exp, of j' "job_ref j"] j'(3,4) j(3) by (auto simp: claimed_state_def lease_started_def)
    next
      case False
      then show ?thesis
        using exp_ok_start [OF exp, of "expiry j'" j' "job_ref j"] expiry_leased(4) [OF j'(1)] j'(3,4) j(3)
        by (simp add: claimed_state_def lease_started_def flip: expiry_def)
    qed
  qed
  moreover have "first_ready (T(job_ref j \<mapsto> j')) q' e'" if "cursor (claimed_state c ack j j' e s) q' = Some e'" for q' e'
  proof (cases "q' = q")
    case True
    then show ?thesis
      using that assms(5) j(3) by (simp add: claimed_state_def lease_started_def split: if_splits)
  next
    case False
    then have "first_ready T q' e'"
      using that caches j(3) by (simp add: claimed_state_def lease_started_def caches_rep_def split: if_splits)
    then show ?thesis
      using first_ready_same [OF _ table, of q' e' j'] False j(1,3) j'(2,4) by simp
  qed
  ultimately show ?thesis
    by (simp add: pq_rep_def caches_rep_def)
qed

end
