(* ===== verification/Queue_Simulation.thy ===== *)
theory Queue_Simulation
  imports Queue_Claims
begin

text \<open>
  Every operation of the persistent queue on single jobs, as a step on the table of jobs, and the
  sequences of operations from an empty database.
\<close>

section \<open>A claim\<close>

lemma claim_entry_ready:
  assumes "store_rep c (pq_db s) T" "codec_ok c" "ready_in T q j"
  shows "claim_entry c lease_ms now ack q (ready_entry j) d s =
    (if qj_available_at_ms j > now then (Ok (Skipped (or_else d (Some (ready_entry j)))), s)
     else claim_ready c lease_ms now ack q (fst (ready_entry j)) (job_key j) d j s)"
proof -
  have j: "stored T j" "qj_status j = Ready" "qj_queue j = q"
    using assms(3) by (simp_all add: ready_in_def)
  have "\<not> lease_expired now j"
    using j(2) by (simp add: lease_expired_def)
  moreover have "ready_entry_id c (ready_entry j) = Ok (Some (qj_id j))"
    by (simp add: ready_entry_def)
  ultimately show ?thesis
    using get_stored [OF assms(1) j(1)] j(2,3)
    by (simp add: claim_entry_def codec_enc [OF assms(2)] job_key_def or_else_def st_try_def)
qed

lemma claim_ready_stored:
  assumes "store_rep c (pq_db s) T" "codec_ok c" "ready_in T q j"
    "first_ready_after q (Some (fst (ready_entry j))) s = Ok nxt" "j' = claimed_job lease_ms now ack j"
  shows "claim_ready c lease_ms now ack q (fst (ready_entry j)) (job_key j) d j s =
    (Ok (Claimed j'), claimed_state c ack j j' (or_else d nxt) s)"
proof -
  have q: "qj_queue j = q"
    using assms(3) by (simp add: ready_in_def)
  have "pq_commit (claimed_writes c ack j j') s =
      (Ok (), s\<lparr>pq_db := fold apply_memory_batch_operation (claimed_writes c ack j j') (pq_db s)\<rparr>)"
    by (rule pq_commit_ok [OF store_repD(1) [OF assms(1)]])
      (simp add: claimed_writes_def ram_put_def ram_delete_def put_lease_def)
  then show ?thesis
    using assms(4,5) q
    by (cases ack) (simp_all add: claim_ready_def Let_def codec_enc [OF assms(2)] claimed_state_def claimed_writes_def own_lease_def
        or_else_def st_do_def st_try_def)
qed

lemma first_ready_after_eq:
  assumes "entries_after (make_ready_prefix q) after (ram_entries (pq_db s) READY_JOBS) = map ready_entry js"
    "\<And>a. after = Some a \<Longrightarrow> prefix (make_ready_prefix q) a"
  shows "first_ready_after q after s = Ok (first_of js)"
  using first_entry_after [where db = "pq_db s" and name = READY_JOBS, OF assms(2)] assms(1)
  by (cases js) (simp_all add: first_ready_after_def or_panic_def)

lemma claim_loop_walk:
  assumes "store_rep c (pq_db s) T" "codec_ok c"
  shows "entries_after (make_ready_prefix q) after (ram_entries (pq_db s) READY_JOBS) = map ready_entry js \<Longrightarrow>
    (\<And>a. after = Some a \<Longrightarrow> prefix (make_ready_prefix q) a) \<Longrightarrow> (\<And>j. j \<in> set js \<Longrightarrow> ready_in T q j) \<Longrightarrow>
    claim_loop c lease_ms now ack q after d s =
      (case dropWhile (\<lambda>j. qj_available_at_ms j > now) js of
         [] \<Rightarrow> (Ok None, set_ready_cursor q (or_else d (first_of js)) s)
       | j # rest \<Rightarrow> (Ok (Some (claimed_job lease_ms now ack j)),
           claimed_state c ack j (claimed_job lease_ms now ack j)
             (or_else d (first_of (takeWhile (\<lambda>j. qj_available_at_ms j > now) js @ rest))) s))"
proof (induction js arbitrary: after d)
  case Nil
  then show ?case
    using first_ready_after_eq [of q after s "[]"] by (simp add: claim_loop.simps [of c lease_ms now ack q after d s] or_else_def split: option.split)
next
  case (Cons j js)
  have j: "ready_in T q j"
    using Cons.prems(3) by simp
  have first: "first_ready_after q after s = Ok (Some (ready_entry j))"
    using first_ready_after_eq [OF Cons.prems(1,2)] by simp
  have rest: "entries_after (make_ready_prefix q) (Some (fst (ready_entry j))) (ram_entries (pq_db s) READY_JOBS) = map ready_entry js"
    using entries_after_step [OF _ Cons.prems(1) [unfolded list.map]] store_repD(1) [OF assms(1)] by simp
  have pre: "prefix (make_ready_prefix q) (fst (ready_entry j))"
    using entries_after_prefix [OF Cons.prems(1) [unfolded list.map]] .
  show ?case
  proof (cases "qj_available_at_ms j > now")
    case True
    then show ?thesis
      using Cons.IH [OF rest, of "or_else d (Some (ready_entry j))"] pre Cons.prems(3)
      by (cases "dropWhile (\<lambda>j. qj_available_at_ms j > now) js")
        (simp_all add: claim_loop.simps [of c lease_ms now ack q after d s] first claim_entry_ready [OF assms j]
          del: dropWhile_eq_Nil_conv)
  next
    case False
    then show ?thesis
      using claim_ready_stored [OF assms j first_ready_after_eq [OF rest]] pre
      by (simp add: claim_loop.simps [of c lease_ms now ack q after d s] first claim_entry_ready [OF assms j])
  qed
qed

text \<open>With the cursor, the claim is the loop from the start of the index.\<close>

lemma first_queue_ready_entry_rep:
  assumes "pq_rep c s T" "queue_name_ok q"
  obtains js s' where "first_queue_ready_entry q s = (Ok (first_of js), s')" "pq_rep c s' T"
    "pq_db s' = pq_db s" "pq_claim_mode s' = pq_claim_mode s"
    "entries_after (make_ready_prefix q) None (ram_entries (pq_db s) READY_JOBS) = map ready_entry js"
    "sorted_wrt (\<lambda>j j'. fst (ready_entry j) < fst (ready_entry j')) js" "\<And>j. j \<in> set js \<longleftrightarrow> ready_in T q j"
proof -
  have store: "store_rep c (pq_db s) T" and caches: "caches_rep T s"
    using assms(1) by (simp_all add: pq_rep_def)
  obtain js where js: "entries_after (make_ready_prefix q) None (ram_entries (pq_db s) READY_JOBS) = map ready_entry js"
    "sorted_wrt (\<lambda>j j'. fst (ready_entry j) < fst (ready_entry j')) js" "\<And>j. j \<in> set js \<longleftrightarrow> ready_in T q j"
    using ready_jobs [OF store assms(2)] by blast
  show ?thesis
  proof (cases "cursor s q")
    case None
    let ?s = "set_ready_cursor q (first_of js) s"
    have "first_queue_ready_entry q s = (Ok (first_of js), ?s)"
      using first_ready_after_eq [OF js(1)] None by (simp add: first_queue_ready_entry_def)
    moreover have "pq_rep c ?s T"
      using first_ready_sorted [OF js(2,3)] assms(1) by (simp add: pq_rep_def caches_rep_def)
    ultimately show ?thesis
      using js by (intro that [of js ?s]) simp_all
  next
    case (Some e)
    then have "e = first_of js"
      using caches first_ready_unique [OF js(2,3)] by (simp add: caches_rep_def)
    then show ?thesis
      using js Some assms(1) by (intro that [of js s]) (simp_all add: first_queue_ready_entry_def)
  qed
qed

lemma claim_job_loop:
  assumes "pq_release_expired c now q s = (Ok (), s1)" "first_queue_ready_entry q s1 = (Ok (first_of js), s2)"
    "entries_after (make_ready_prefix q) None (ram_entries (pq_db s2) READY_JOBS) = map ready_entry js"
  shows "pq_claim_job_with_options c now q lease_ms s = claim_loop c lease_ms now (pq_claim_mode s = ClaimAndAck) q None None s2"
proof -
  have "first_ready_after q None s2 = Ok (first_of js)"
    using first_ready_after_eq [OF assms(3)] by simp
  then show ?thesis
    using assms(1,2)
    by (cases js) (auto simp: pq_claim_job_with_options_def claim_loop.simps [of _ _ _ _ _ None] st_then_def st_do_def st_try_def
        split: sum.splits prod.splits claim_outcome.splits)
qed

text \<open>
  A claim on the table: the expired leases of the queue end; then the best job that is ready and
  available, if there is one, is claimed.
\<close>

definition best_claimable :: "int \<Rightarrow> string \<Rightarrow> job_table \<Rightarrow> queue_job \<Rightarrow> bool" where
  "best_claimable now q T j \<longleftrightarrow> stored T j \<and> qj_queue j = q \<and> claimable now j
     \<and> (\<forall>j'. stored T j' \<and> qj_queue j' = q \<and> claimable now j' \<longrightarrow> rank j \<le> rank j')"

definition claim_rows :: "u64 \<Rightarrow> int \<Rightarrow> bool \<Rightarrow> string \<Rightarrow> job_table \<Rightarrow> queue_job option \<Rightarrow> job_table \<Rightarrow> bool" where
  "claim_rows lease_ms now ack q T r T' \<longleftrightarrow>
     (case r of
        None \<Rightarrow> (\<forall>j. stored T j \<and> qj_queue j = q \<longrightarrow> \<not> claimable now j) \<and> T' = T
      | Some j' \<Rightarrow> \<exists>j. best_claimable now q T j \<and> j' = claimed_job lease_ms now ack j \<and> T' = T(job_ref j \<mapsto> j'))"

lemma split_delayed:
  assumes "dropWhile P js = j # rest"
  shows "js = takeWhile P js @ j # rest" "\<not> P j"
  using takeWhile_dropWhile_id [of P js] hd_dropWhile [of P js] assms by auto

lemma cursor_after_claim:
  assumes "table_ok T" "sorted_wrt (\<lambda>j j'. fst (ready_entry j) < fst (ready_entry j')) (xs @ j # ys)"
    "\<And>k. k \<in> set (xs @ j # ys) \<longleftrightarrow> ready_in T q k" "job_ref j' = job_ref j" "qj_status j' \<noteq> Ready"
  shows "first_ready (T(job_ref j \<mapsto> j')) q (first_of (xs @ ys))"
proof (rule first_ready_sorted)
  show "sorted_wrt (\<lambda>j j'. fst (ready_entry j) < fst (ready_entry j')) (xs @ ys)"
    using assms(2) by (auto simp: sorted_wrt_append)
  fix k
  have "j \<notin> set (xs @ ys)"
    using assms(2) by (auto simp: sorted_wrt_append)
  moreover have "job_ref k = job_ref j \<longleftrightarrow> k = j" if "ready_in T q k"
  proof -
    have "T (job_ref k) = Some k" "T (job_ref j) = Some j"
      using that assms(3) [of j] by (simp_all add: ready_in_def stored_def)
    then show ?thesis
      by (metis option.inject)
  qed
  ultimately show "k \<in> set (xs @ ys) \<longleftrightarrow> ready_in (T(job_ref j \<mapsto> j')) q k"
    using ready_in_update [OF assms(1), of j' q k] assms(3) [of k] assms(4,5) by auto
qed

lemma best_in_order:
  assumes "table_ok T" "sorted_wrt (\<lambda>j j'. fst (ready_entry j) < fst (ready_entry j')) js"
    "\<And>k. k \<in> set js \<longleftrightarrow> ready_in T q k" "dropWhile (\<lambda>j. qj_available_at_ms j > now) js = j # rest"
  shows "best_claimable now q T j"
proof -
  let ?delayed = "takeWhile (\<lambda>j. qj_available_at_ms j > now) js"
  note js = split_delayed [OF assms(4)]
  have mem: "k \<in> set ?delayed \<or> k = j \<or> k \<in> set rest \<longleftrightarrow> ready_in T q k" for k
    using assms(3) [of k] by (subst (asm) js(1)) auto
  have j: "stored T j" "qj_queue j = q" "claimable now j"
    using mem [of j] js(2) by (auto simp: ready_in_def claimable_def)
  have "rank j \<le> rank k" if k: "stored T k" "qj_queue k = q" "claimable now k" for k
  proof (cases "k = j")
    case False
    have "k \<notin> set ?delayed"
      using k(3) by (auto simp: claimable_def dest: set_takeWhileD)
    then have "k \<in> set rest"
      using mem [of k] k False by (simp add: ready_in_def claimable_def)
    then have "fst (ready_entry j) < fst (ready_entry k)"
      using assms(2) by (subst (asm) js(1)) (simp add: sorted_wrt_append)
    then show ?thesis
      using ready_entry_less [OF stored_wf [OF assms(1) j(1)] stored_wf [OF assms(1) k(1)]] j(2) k(2) by simp
  qed simp
  then show ?thesis
    using j by (simp add: best_claimable_def)
qed

lemma claim_loop_refines:
  assumes "pq_rep c s T" "codec_ok c" "0 \<le> now"
    "entries_after (make_ready_prefix q) None (ram_entries (pq_db s) READY_JOBS) = map ready_entry js"
    "sorted_wrt (\<lambda>j j'. fst (ready_entry j) < fst (ready_entry j')) js" "\<And>j. j \<in> set js \<longleftrightarrow> ready_in T q j"
  shows "\<exists>r s' T'. claim_loop c lease_ms now ack q None None s = (Ok r, s') \<and> claim_rows lease_ms now ack q T r T'
    \<and> pq_rep c s' T' \<and> pq_claim_mode s' = pq_claim_mode s"
proof -
  have store: "store_rep c (pq_db s) T" and table: "table_ok T"
    using assms(1) by (simp_all add: pq_rep_def store_rep_def)
  have walk: "claim_loop c lease_ms now ack q None None s =
      (case dropWhile (\<lambda>j. qj_available_at_ms j > now) js of
         [] \<Rightarrow> (Ok None, set_ready_cursor q (first_of js) s)
       | j # rest \<Rightarrow> (Ok (Some (claimed_job lease_ms now ack j)),
           claimed_state c ack j (claimed_job lease_ms now ack j)
             (first_of (takeWhile (\<lambda>j. qj_available_at_ms j > now) js @ rest)) s))"
    using claim_loop_walk [OF store assms(2,4), of lease_ms now ack None] assms(6) unfolding or_else_simps by simp
  show ?thesis
  proof (cases "dropWhile (\<lambda>j. qj_available_at_ms j > now) js")
    case Nil
    then have "\<forall>j \<in> set js. qj_available_at_ms j > now"
      by simp
    then have "\<not> claimable now j" if "stored T j" "qj_queue j = q" for j
      using that assms(6) [of j] by (auto simp: claimable_def ready_in_def)
    then have "claim_rows lease_ms now ack q T None T"
      by (simp add: claim_rows_def)
    moreover have "pq_rep c (set_ready_cursor q (first_of js) s) T"
      using first_ready_sorted [OF assms(5,6)] assms(1) by (simp add: pq_rep_def caches_rep_def)
    ultimately show ?thesis
      using walk unfolding Nil by (intro exI [of _ "None"] exI [of _ "set_ready_cursor q (first_of js) s"] exI [of _ T]) simp
  next
    case (Cons j rest)
    let ?j = "claimed_job lease_ms now ack j"
    let ?js = "takeWhile (\<lambda>j. qj_available_at_ms j > now) js @ rest"
    note js = split_delayed [OF Cons]
    have ready: "ready_in T q j"
      using assms(6) [of j] by (subst (asm) js(1)) simp
    have "first_ready (T(job_ref j \<mapsto> ?j)) q (first_of ?js)"
      using assms(5,6) by (intro cursor_after_claim [OF table]) (simp_all flip: js(1))
    then have "pq_rep c (claimed_state c ack j ?j (first_of ?js) s) (T(job_ref j \<mapsto> ?j))"
      by (rule claimed_rep [OF assms(1) ready assms(3) refl])
    moreover have "claim_rows lease_ms now ack q T (Some ?j) (T(job_ref j \<mapsto> ?j))"
      using best_in_order [OF table assms(5,6) Cons] by (auto simp: claim_rows_def)
    ultimately show ?thesis
      using walk unfolding Cons
      by (intro exI [of _ "Some ?j"] exI [of _ "claimed_state c ack j ?j (first_of ?js) s"] exI [of _ "T(job_ref j \<mapsto> ?j)"]) simp
  qed
qed

lemma claim_job_refines:
  assumes "pq_rep c s T" "codec_ok c" "queue_name_ok q" "0 \<le> now"
  shows "\<exists>r s' T'. pq_claim_job_with_options c now q lease_ms s = (Ok r, s')
    \<and> claim_rows lease_ms now (pq_claim_mode s = ClaimAndAck) q (release_table now q T) r T'
    \<and> pq_rep c s' T' \<and> pq_claim_mode s' = pq_claim_mode s"
proof -
  obtain s1 where s1: "pq_release_expired c now q s = (Ok (), s1)" "pq_rep c s1 (release_table now q T)" "pq_claim_mode s1 = pq_claim_mode s"
    using release_refines [OF assms(1-3)] by blast
  obtain js s2 where s2: "first_queue_ready_entry q s1 = (Ok (first_of js), s2)" "pq_rep c s2 (release_table now q T)"
    "pq_db s2 = pq_db s1" "pq_claim_mode s2 = pq_claim_mode s1"
    and js: "entries_after (make_ready_prefix q) None (ram_entries (pq_db s1) READY_JOBS) = map ready_entry js"
    "sorted_wrt (\<lambda>j j'. fst (ready_entry j) < fst (ready_entry j')) js" "\<And>j. j \<in> set js \<longleftrightarrow> ready_in (release_table now q T) q j"
    using first_queue_ready_entry_rep [OF s1(2) assms(3)] by blast
  have js': "entries_after (make_ready_prefix q) None (ram_entries (pq_db s2) READY_JOBS) = map ready_entry js"
    using js(1) s2(3) by simp
  show ?thesis
    using claim_loop_refines [OF s2(2) assms(2,4) js' js(2,3), of lease_ms "pq_claim_mode s = ClaimAndAck"]
      claim_job_loop [OF s1(1) s2(1) js'] s1(3) s2(4) by simp
qed

lemma claim_and_ack_refines:
  assumes "pq_rep c s T" "codec_ok c" "queue_name_ok q" "0 \<le> now"
  shows "\<exists>r s' T'. pq_claim_and_ack c now q lease_ms s = (Ok r, s')
    \<and> claim_rows lease_ms now True q (release_table now q T) r T' \<and> pq_rep c s' T' \<and> pq_claim_mode s' = Claim"
proof -
  have mode: "pq_rep c (s\<lparr>pq_claim_mode := m\<rparr>) T' \<longleftrightarrow> pq_rep c s T'" for s m T'
    by (simp add: pq_rep_def caches_rep_def)
  show ?thesis
    using claim_job_refines [of c "s\<lparr>pq_claim_mode := ClaimAndAck\<rparr>" T q now lease_ms] assms
    by (fastforce simp: mode pq_claim_and_ack_def)
qed

section \<open>Pushing, acknowledging and rejecting\<close>

definition ready_entries :: "queue_job \<Rightarrow> index_entry list" where
  "ready_entries j = (if qj_status j = Ready then [ready_entry j] else [])"

text \<open>A change of one row that adds no lease: what the caches become.\<close>

lemma row_changed_cursor:
  assumes "first_ready T q e" "table_ok T" "\<And>j0. T (job_ref j) = Some j0 \<Longrightarrow> qj_status j0 \<noteq> Ready"
  shows "first_ready (T(job_ref j \<mapsto> j)) q (if q = qj_queue j then fold min_cursor (ready_entries j) e else e)"
proof (cases "q = qj_queue j \<and> qj_status j = Ready")
  case True
  moreover have "T (job_ref j) = None \<or> (\<exists>j0. T (job_ref j) = Some j0 \<and> qj_status j0 \<noteq> Ready)"
    using assms(3) by (cases "T (job_ref j)") auto
  ultimately show ?thesis
    using first_ready_add [OF assms(1,2), of j] by (simp add: ready_entries_def)
next
  case False
  then show ?thesis
    using first_ready_same [OF assms(1,2), of j] assms(3) by (auto simp: ready_entries_def)
qed

lemma push_refines:
  assumes "pq_rep c s T" "codec_ok c" "j = stamp_created_at now_iso job" "wf_job j" "T (job_ref j) = None" "qj_status j = Ready"
  shows "\<exists>s'. pq_push_job c now_iso job s = (Ok j, s') \<and> pq_rep c s' (T(job_ref j \<mapsto> j)) \<and> pq_claim_mode s' = pq_claim_mode s"
proof -
  have store: "store_rep c (pq_db s) T" and caches: "caches_rep T s"
    using assms(1) by (simp_all add: pq_rep_def)
  let ?ops = "[ram_put QUEUE_JOBS (job_key j) (enc c j), put_ready (ready_entry j)]"
  let ?s = "cache_queue_ready_min (qj_queue j) (ready_entry j) (s\<lparr>pq_db := fold apply_memory_batch_operation ?ops (pq_db s)\<rparr>)"
  have "pq_commit ?ops s = (Ok (), s\<lparr>pq_db := fold apply_memory_batch_operation ?ops (pq_db s)\<rparr>)"
    by (rule pq_commit_ok [OF store_repD(1) [OF store]]) (simp add: ram_put_def put_ready_def)
  then have "pq_push_job c now_iso job s = (Ok j, ?s)"
    using assms(6) by (simp add: pq_push_job_def Let_def codec_enc [OF assms(2)] st_do_def st_try_def flip: assms(3))
  moreover have "caches_rep (T(job_ref j \<mapsto> j)) ?s"
    unfolding caches_rep_def
  proof (intro conjI allI impI)
    show "exp_ok (T(job_ref j \<mapsto> j)) q (expirations ?s q)" for q
      using caches exp_ok_same [of T q "expirations s q" j "job_ref j"] assms(6) by (simp add: caches_rep_def)
  next
    fix q e'
    assume "cursor ?s q = Some e'"
    then obtain e where "cursor s q = Some e" "e' = (if q = qj_queue j then fold min_cursor (ready_entries j) e else e)"
      using assms(6) by (cases "q = qj_queue j") (auto simp: ready_entries_def)
    then show "first_ready (T(job_ref j \<mapsto> j)) q e'"
      using caches row_changed_cursor [OF _ store_repD(2) [OF store], of q e j] assms(5) by (simp add: caches_rep_def)
  qed
  ultimately show ?thesis
    using store_push [OF store assms(4-6)] by (simp add: pq_rep_def)
qed

lemma ended_rep:
  assumes "pq_rep c s T" "T (job_ref j) = Some j0" "qj_status j0 = Leased" "qj_status j \<noteq> Leased" "qj_queue j = q"
    and "store_rep c db (T(job_ref j \<mapsto> j))"
  shows "pq_rep c (fold (cache_queue_ready_min q) (ready_entries j) (lease_ended q (Some (expiry j0)) (s\<lparr>pq_db := db\<rparr>))) (T(job_ref j \<mapsto> j))"
    (is "pq_rep c ?s _")
proof -
  have table: "table_ok T" and caches: "caches_rep T s"
    using assms(1) by (simp_all add: pq_rep_def store_rep_def)
  have j0: "wf_job j0" "qj_queue j0 = q"
    using table_okD [OF table assms(2)] assms(5) by (simp_all add: job_ref_def)
  have "caches_rep (T(job_ref j \<mapsto> j)) ?s"
    unfolding caches_rep_def
  proof (intro conjI allI impI)
    fix q'
    have exp: "exp_ok T q' (expirations s q')"
      using caches by (simp add: caches_rep_def)
    show "exp_ok (T(job_ref j \<mapsto> j)) q' (expirations ?s q')"
      using exp_ok_end [OF exp table assms(2), of "expiry j0" j] exp_ok_same [OF exp, of j "job_ref j"] assms(4)
        expiry_leased(4) [OF j0(1) assms(3)] j0(2)
      by (cases "q' = q") (simp_all add: lease_ended_def)
  next
    fix q' e'
    assume "cursor ?s q' = Some e'"
    then obtain e where "cursor s q' = Some e" "e' = (if q' = qj_queue j then fold min_cursor (ready_entries j) e else e)"
      using assms(5) by (cases "q' = q") (auto simp: lease_ended_def)
    then show "first_ready (T(job_ref j \<mapsto> j)) q' e'"
      using caches row_changed_cursor [OF _ table, of q' e j] assms(2,3) by (simp add: caches_rep_def)
  qed
  then show ?thesis
    using assms(6) by (simp add: pq_rep_def lease_ended_def)
qed

lemma get_row:
  assumes "pq_rep c s T" "queue_name_ok q"
  shows "ram_get (pq_db s) QUEUE_JOBS (make_queue_key q i) = map_option (enc c) (T (q, i))"
  using store_get_record [OF _ assms(2)] assms(1) by (simp add: pq_rep_def)

lemma row_delete_lease:
  assumes "wf_job j" "qj_status j = Leased" "job_ref j = (q, i)"
  shows "delete_lease q i (qj_lease_expires_at_ms j) = [ram_delete LEASE_KEYSPACE (fst (own_lease j))]"
  using expiry_leased(1) [OF assms(1,2)] assms(3) by (simp add: delete_lease_def own_lease_expiry job_ref_def)

lemma complete_job_simps [simp]:
  "job_ref (complete_job now j) = job_ref j" "job_key (complete_job now j) = job_key j" "qj_queue (complete_job now j) = qj_queue j"
  "qj_status (complete_job now j) = Completed" "qj_lease_expires_at_ms (complete_job now j) = qj_lease_expires_at_ms j"
  "wf_job j \<Longrightarrow> wf_job (complete_job now j)"
  by (simp_all add: complete_job_def job_ref_def job_key_def wf_job_def)

lemma ack_refines:
  assumes "pq_rep c s T" "codec_ok c" "T (q, i) = Some j" "qj_status j = Leased"
  shows "\<exists>s'. pq_ack_job c now q i s = (Ok (Some (complete_job now j)), s') \<and> pq_rep c s' (T((q, i) \<mapsto> complete_job now j))
    \<and> pq_claim_mode s' = pq_claim_mode s"
proof -
  have store: "store_rep c (pq_db s) T" and table: "table_ok T"
    using assms(1) by (simp_all add: pq_rep_def store_rep_def)
  have j: "wf_job j" "job_ref j = (q, i)" "queue_name_ok q" "qj_queue j = q"
    using table_okD [OF table assms(3)] by (auto simp: wf_job_def job_ref_def)
  let ?j = "complete_job now j"
  let ?ops = "[ram_put QUEUE_JOBS (job_key ?j) (enc c ?j), ram_delete LEASE_KEYSPACE (fst (own_lease j))]"
  let ?s = "lease_ended q (Some (expiry j)) (s\<lparr>pq_db := fold apply_memory_batch_operation ?ops (pq_db s)\<rparr>)"
  have "pq_commit ?ops s = (Ok (), s\<lparr>pq_db := fold apply_memory_batch_operation ?ops (pq_db s)\<rparr>)"
    by (rule pq_commit_ok [OF store_repD(1) [OF store]]) (simp add: ram_put_def ram_delete_def)
  moreover have "make_queue_key q i = job_key j"
    using j(2) by (simp add: job_key_def job_ref_def)
  ultimately have "pq_ack_job c now q i s = (Ok (Some ?j), ?s)"
    using get_row [OF assms(1) j(3), of i] assms(3,4) row_delete_lease [OF j(1) assms(4) j(2)] expiry_leased(1) [OF j(1) assms(4)]
    by (simp add: pq_ack_job_def Let_def codec_enc [OF assms(2)] st_do_def st_try_def)
  moreover have "pq_rep c ?s (T((q, i) \<mapsto> ?j))"
    using ended_rep [OF assms(1), of ?j j q] store_end_lease [OF store, of ?j j] j assms(3,4)
    by (simp add: ready_entries_def)
  ultimately show ?thesis
    by (simp add: lease_ended_def)
qed

lemma rejected_job_simps [simp]:
  "job_ref (pq_rejected_job now options j) = job_ref j" "job_key (pq_rejected_job now options j) = job_key j"
  "qj_queue (pq_rejected_job now options j) = qj_queue j"
  "qj_status (pq_rejected_job now options j) = (if qj_attempts j \<ge> qj_max_attempts j then Dead else Ready)"
  "wf_job j \<Longrightarrow> wf_job (pq_rejected_job now options j)"
  by (auto simp: pq_rejected_job_def job_ref_def job_key_def wf_job_def Let_def)

lemma nack_refines:
  assumes "pq_rep c s T" "codec_ok c" "T (q, i) = Some j" "qj_status j = Leased"
  shows "\<exists>s'. pq_nack_job_with_options c now q i options s = (Ok (Some (pq_rejected_job now options j)), s')
    \<and> pq_rep c s' (T((q, i) \<mapsto> pq_rejected_job now options j)) \<and> pq_claim_mode s' = pq_claim_mode s"
proof -
  have store: "store_rep c (pq_db s) T" and table: "table_ok T"
    using assms(1) by (simp_all add: pq_rep_def store_rep_def)
  have j: "wf_job j" "job_ref j = (q, i)" "queue_name_ok q" "qj_queue j = q"
    using table_okD [OF table assms(3)] by (auto simp: wf_job_def job_ref_def)
  let ?j = "pq_rejected_job now options j"
  let ?ops = "[ram_put QUEUE_JOBS (job_key ?j) (enc c ?j), ram_delete LEASE_KEYSPACE (fst (own_lease j))] @ map put_ready (ready_entries ?j)"
  let ?s = "fold (cache_queue_ready_min q) (ready_entries ?j)
    (lease_ended q (Some (expiry j)) (s\<lparr>pq_db := fold apply_memory_batch_operation ?ops (pq_db s)\<rparr>))"
  have "pq_commit ?ops s = (Ok (), s\<lparr>pq_db := fold apply_memory_batch_operation ?ops (pq_db s)\<rparr>)"
    by (rule pq_commit_ok [OF store_repD(1) [OF store]]) (auto simp: ram_put_def ram_delete_def put_ready_def ready_entries_def)
  moreover have "make_queue_key q i = job_key j"
    using j(2) by (simp add: job_key_def job_ref_def)
  moreover have "(if qj_status ?j = Dead then [] else [ready_entry ?j]) = ready_entries ?j"
    by (simp add: ready_entries_def)
  ultimately have "pq_nack_job_with_options c now q i options s = (Ok (Some ?j), ?s)"
    using get_row [OF assms(1) j(3), of i] assms(3,4) row_delete_lease [OF j(1) assms(4) j(2)] expiry_leased(1) [OF j(1) assms(4)]
    by (simp add: pq_nack_job_with_options_def Let_def codec_enc [OF assms(2)] st_do_def st_try_def del: rejected_job_simps(4))
  moreover have "store_rep c (fold apply_memory_batch_operation ?ops (pq_db s)) (T((q, i) \<mapsto> ?j))"
    using store_end_lease [OF store, of ?j j] store_retry [OF store, of ?j j] j assms(3,4) by (simp add: ready_entries_def)
  then have "pq_rep c ?s (T((q, i) \<mapsto> ?j))"
    using ended_rep [OF assms(1), of ?j j q] j assms(3,4) by simp
  ultimately show ?thesis
    by (simp add: lease_ended_def)
qed

lemma unleased_row_kept:
  assumes "pq_rep c s T" "codec_ok c" "queue_name_ok q" "\<And>j. T (q, i) = Some j \<Longrightarrow> qj_status j \<noteq> Leased"
  shows "pq_ack_job c now q i s = (Ok None, s)" "pq_nack_job_with_options c now q i options s = (Ok None, s)"
  using get_row [OF assms(1,3), of i] assms(4)
  by (cases "T (q, i)"; simp add: pq_ack_job_def pq_nack_job_with_options_def codec_enc [OF assms(2)] st_try_def)+

end
