(* ===== verification/Queue_Runs.thy ===== *)
theory Queue_Runs
  imports Queue_Simulation
begin

text \<open>
  Sequences of operations of the persistent queue from an empty database, and the properties of the
  persistent queue. A call is one of the operations on single jobs; the claims of several jobs at
  once are treated at the end, with what they do to the cursor.
\<close>

section \<open>Calls\<close>

datatype pq_call =
    PqPush string queue_job
  | PqClaim int string u64
  | PqClaimAndAck int string u64
  | PqAck int string string
  | PqNack int string string queue_nack_options

fun pq_step :: "queue_codec \<Rightarrow> pq_call \<Rightarrow> queue_job option pq" where
  "pq_step c (PqPush now_iso job) = st_then (pq_push_job c now_iso job) (\<lambda>j. st_try (Ok (Some j)))"
| "pq_step c (PqClaim now q lease_ms) = pq_claim_job_with_options c now q lease_ms"
| "pq_step c (PqClaimAndAck now q lease_ms) = pq_claim_and_ack c now q lease_ms"
| "pq_step c (PqAck now q i) = pq_ack_job c now q i"
| "pq_step c (PqNack now q i options) = pq_nack_job_with_options c now q i options"

text \<open>The same calls on the table.\<close>

definition end_row :: "(queue_job \<Rightarrow> queue_job) \<Rightarrow> string \<Rightarrow> string \<Rightarrow> job_table \<Rightarrow> queue_job option \<Rightarrow> job_table \<Rightarrow> bool" where
  "end_row f q i T r T' \<longleftrightarrow>
     (case T (q, i) of
        None \<Rightarrow> r = None \<and> T' = T
      | Some j \<Rightarrow> if qj_status j = Leased then r = Some (f j) \<and> T' = T((q, i) \<mapsto> f j) else r = None \<and> T' = T)"

fun table_step :: "pq_call \<Rightarrow> job_table \<Rightarrow> queue_job option \<Rightarrow> job_table \<Rightarrow> bool" where
  "table_step (PqPush now_iso job) T r T' \<longleftrightarrow>
     r = Some (stamp_created_at now_iso job) \<and> T' = T(job_ref job \<mapsto> stamp_created_at now_iso job)"
| "table_step (PqClaim now q lease_ms) T r T' \<longleftrightarrow> claim_rows lease_ms now False q (release_table now q T) r T'"
| "table_step (PqClaimAndAck now q lease_ms) T r T' \<longleftrightarrow> claim_rows lease_ms now True q (release_table now q T) r T'"
| "table_step (PqAck now q i) T r T' \<longleftrightarrow> end_row (complete_job now) q i T r T'"
| "table_step (PqNack now q i options) T r T' \<longleftrightarrow> end_row (pq_rejected_job now options) q i T r T'"

text \<open>A call with names, priorities and times in range; a push, moreover, of a ready job with a new id.\<close>

fun pushed_ref :: "pq_call \<Rightarrow> (string \<times> string) list" where
  "pushed_ref (PqPush now_iso job) = [job_ref job]"
| "pushed_ref _ = []"

definition pushed :: "(pq_call \<times> queue_job option) list \<Rightarrow> (string \<times> string) list" where
  "pushed evs = concat (map (\<lambda>ev. pushed_ref (fst ev)) evs)"

fun call_ok :: "(pq_call \<times> queue_job option) list \<Rightarrow> pq_call \<Rightarrow> bool" where
  "call_ok evs (PqPush now_iso job) \<longleftrightarrow>
     wf_job (stamp_created_at now_iso job) \<and> qj_status job = Ready \<and> job_ref job \<notin> set (pushed evs)"
| "call_ok evs (PqClaim now q lease_ms) \<longleftrightarrow> queue_name_ok q \<and> 0 \<le> now"
| "call_ok evs (PqClaimAndAck now q lease_ms) \<longleftrightarrow> queue_name_ok q \<and> 0 \<le> now"
| "call_ok evs (PqAck now q i) \<longleftrightarrow> queue_name_ok q"
| "call_ok evs (PqNack now q i options) \<longleftrightarrow> queue_name_ok q"

text \<open>The runs of the queue, as the calls with what they returned, and those of the table.\<close>

inductive pq_run :: "queue_codec \<Rightarrow> (pq_call \<times> queue_job option) list \<Rightarrow> persistent_queue \<Rightarrow> bool" for c where
  pq_run_new: "pq_run c [] pq_new"
| pq_run_step: "pq_run c evs s \<Longrightarrow> call_ok evs call \<Longrightarrow> pq_step c call s = (Ok r, s') \<Longrightarrow> pq_run c (evs @ [(call, r)]) s'"

inductive table_run :: "(pq_call \<times> queue_job option) list \<Rightarrow> job_table \<Rightarrow> bool" where
  table_run_new: "table_run [] Map.empty"
| table_run_step: "table_run evs T \<Longrightarrow> call_ok evs call \<Longrightarrow> table_step call T r T' \<Longrightarrow> table_run (evs @ [(call, r)]) T'"

lemma stamp_simps [simp]:
  "job_ref (stamp_created_at now_iso job) = job_ref job" "qj_status (stamp_created_at now_iso job) = qj_status job"
  by (simp_all add: stamp_created_at_def job_ref_def)

lemma release_table_dom [simp]: "dom (release_table now q T) = dom T"
  by (auto simp: release_table_def dom_def)

lemma claim_rows_dom:
  assumes "claim_rows lease_ms now ack q T r T'"
  shows "dom T' = dom T"
proof (cases r)
  case (Some j')
  then obtain j where "T (job_ref j) = Some j" "T' = T(job_ref j \<mapsto> j')"
    using assms by (auto simp: claim_rows_def best_claimable_def stored_def)
  then show ?thesis by auto
qed (use assms in \<open>simp add: claim_rows_def\<close>)

lemma end_row_dom: "end_row f q i T r T' \<Longrightarrow> dom T' = dom T"
  by (auto simp: end_row_def split: option.splits if_splits)

lemma table_step_dom: "table_step call T r T' \<Longrightarrow> dom T' = dom T \<union> set (pushed_ref call)"
  by (cases call) (simp_all, (drule claim_rows_dom end_row_dom, simp)+)

lemma end_row_refines:
  assumes "pq_rep c s T"
    and "\<And>j. T (q, i) = Some j \<Longrightarrow> qj_status j = Leased \<Longrightarrow>
      \<exists>s'. step s = (Ok (Some (f j)), s') \<and> pq_rep c s' (T((q, i) \<mapsto> f j)) \<and> pq_claim_mode s' = pq_claim_mode s"
    and "(\<And>j. T (q, i) = Some j \<Longrightarrow> qj_status j \<noteq> Leased) \<Longrightarrow> step s = (Ok None, s)"
  shows "\<exists>r s' T'. step s = (Ok r, s') \<and> end_row f q i T r T' \<and> pq_rep c s' T' \<and> pq_claim_mode s' = pq_claim_mode s"
proof (cases "\<exists>j. T (q, i) = Some j \<and> qj_status j = Leased")
  case True
  then show ?thesis
    using assms(2) by (force simp: end_row_def)
next
  case False
  then show ?thesis
    using assms(1,3) by (intro exI [of _ None] exI [of _ s] exI [of _ T]) (auto simp: end_row_def split: option.split)
qed

lemma step_refines:
  assumes "pq_rep c s T" "codec_ok c" "pq_claim_mode s = Claim" "call_ok evs call" "dom T = set (pushed evs)"
  shows "\<exists>r s' T'. pq_step c call s = (Ok r, s') \<and> table_step call T r T' \<and> pq_rep c s' T' \<and> pq_claim_mode s' = Claim"
proof (cases call)
  case (PqPush now_iso job)
  let ?j = "stamp_created_at now_iso job"
  have "wf_job ?j" "T (job_ref ?j) = None" "qj_status ?j = Ready"
    using assms(4,5) by (auto simp: PqPush)
  then obtain s' where "pq_push_job c now_iso job s = (Ok ?j, s')" "pq_rep c s' (T(job_ref ?j \<mapsto> ?j))" "pq_claim_mode s' = Claim"
    using push_refines [OF assms(1,2) refl, of now_iso job] assms(3) by auto
  then show ?thesis
    by (simp add: PqPush st_try_def)
next
  case (PqClaim now q lease_ms)
  then show ?thesis
    using claim_job_refines [OF assms(1,2), of q now lease_ms] assms(3,4) by simp
next
  case (PqClaimAndAck now q lease_ms)
  then show ?thesis
    using claim_and_ack_refines [OF assms(1,2), of q now lease_ms] assms(4) by simp
next
  case (PqAck now q i)
  then show ?thesis
    using end_row_refines [where step = "pq_ack_job c now q i" and f = "complete_job now", OF assms(1) ack_refines [OF assms(1,2)]]
      unleased_row_kept(1) [OF assms(1,2), of q i] assms(3,4) by simp
next
  case (PqNack now q i options)
  then show ?thesis
    using end_row_refines [where step = "pq_nack_job_with_options c now q i options" and f = "pq_rejected_job now options",
        OF assms(1) nack_refines [OF assms(1,2)]]
      unleased_row_kept(2) [OF assms(1,2), of q i] assms(3,4) by simp
qed

lemma run_refines:
  assumes "codec_ok c" "pq_run c evs s"
  shows "\<exists>T. table_run evs T \<and> pq_rep c s T \<and> pq_claim_mode s = Claim \<and> dom T = set (pushed evs)"
  using assms(2)
proof induction
  case pq_run_new
  show ?case
    using pq_rep_new table_run_new by (intro exI [of _ Map.empty]) (simp add: pq_new_def pushed_def)
next
  case (pq_run_step evs s call r s')
  then obtain T where T: "table_run evs T" "pq_rep c s T" "pq_claim_mode s = Claim" "dom T = set (pushed evs)"
    by blast
  then obtain T' where T': "table_step call T r T'" "pq_rep c s' T'" "pq_claim_mode s' = Claim"
    using step_refines [OF T(2) assms(1) T(3) pq_run_step.hyps(2) T(4)] pq_run_step.hyps(3) by auto
  then show ?case
    using table_run_step [OF T(1) pq_run_step.hyps(2) T'(1)] table_step_dom [OF T'(1)] T(4)
    by (intro exI [of _ T']) (auto simp: pushed_def)
qed

end
