(* ===== verification/Queue_Guarantees.thy ===== *)
theory Queue_Guarantees
  imports Queue_Runs
begin

text \<open>
  What the persistent queue guarantees. Any sequence of pushes, claims, acknowledgements and
  rejections of single jobs behaves as on a table of jobs and never fails; a claim takes the best job
  that is available. A claim of several jobs keeps neither: it can leave a ready job behind the
  cursor, where a claim of one job does not find it.
\<close>

section \<open>A codec for the examples\<close>

text \<open>
  A byte per character with a mark before it, numbers in unary, priorities counted from the largest
  one. The codec satisfies what is assumed of the JSON form of a record.
\<close>

definition put_string :: "string \<Rightarrow> bytes" where
  "put_string s = concat (map (\<lambda>ch. [1, of_char ch]) s) @ [0]"

fun get_string :: "bytes \<Rightarrow> (string \<times> bytes) option" where
  "get_string (m # bs) =
     (if m = 0 then Some ([], bs)
      else case bs of
        [] \<Rightarrow> None
      | b # bs \<Rightarrow> (case get_string bs of None \<Rightarrow> None | Some (s, rest) \<Rightarrow> Some (char_of (unat b) # s, rest)))"
| "get_string [] = None"

definition put_unary :: "nat \<Rightarrow> bytes" where
  "put_unary n = replicate n 1 @ [0]"

fun get_unary :: "bytes \<Rightarrow> (nat \<times> bytes) option" where
  "get_unary (m # bs) = (if m = 0 then Some (0, bs) else case get_unary bs of None \<Rightarrow> None | Some (n, rest) \<Rightarrow> Some (Suc n, rest))"
| "get_unary [] = None"

definition put_int :: "int \<Rightarrow> bytes" where
  "put_int i = (if i < 0 then 1 else 0) # put_unary (nat \<bar>i\<bar>)"

fun get_int :: "bytes \<Rightarrow> (int \<times> bytes) option" where
  "get_int (m # bs) = (case get_unary bs of None \<Rightarrow> None | Some (n, rest) \<Rightarrow> Some (if m = 0 then int n else - int n, rest))"
| "get_int [] = None"

definition put_time :: "int option \<Rightarrow> bytes" where
  "put_time t = (case t of None \<Rightarrow> [0] | Some i \<Rightarrow> 1 # put_int i)"

fun get_time :: "bytes \<Rightarrow> (int option \<times> bytes) option" where
  "get_time (m # bs) =
     (if m = 0 then Some (None, bs) else case get_int bs of None \<Rightarrow> None | Some (i, rest) \<Rightarrow> Some (Some i, rest))"
| "get_time [] = None"

definition status_code :: "queue_job_status \<Rightarrow> nat" where
  "status_code st = (case st of Ready \<Rightarrow> 0 | Leased \<Rightarrow> 1 | Completed \<Rightarrow> 2 | Dead \<Rightarrow> 3)"

definition code_status :: "nat \<Rightarrow> queue_job_status" where
  "code_status n = (if n = 0 then Ready else if n = 1 then Leased else if n = 2 then Completed else Dead)"

lemma get_put_string [simp]: "get_string (put_string s @ rest) = Some (s, rest)"
  by (induction s) (simp_all add: put_string_def)

lemma get_put_unary [simp]: "get_unary (put_unary n @ rest) = Some (n, rest)"
  by (induction n) (simp_all add: put_unary_def)

lemma get_put_int [simp]: "get_int (put_int i @ rest) = Some (i, rest)"
  by (simp add: put_int_def)

lemma get_put_time [simp]: "get_time (put_time t @ rest) = Some (t, rest)"
  by (cases t) (simp_all add: put_time_def)

lemma code_status_code [simp]: "code_status (status_code st) = st"
  by (cases st) (simp_all add: code_status_def status_code_def)

definition put_job :: "queue_job \<Rightarrow> bytes" where
  "put_job j = put_string (qj_queue j) @ put_string (qj_id j) @ put_string (qj_body j) @ put_unary (unat (qj_attempts j)) @
     put_unary (unat (qj_max_attempts j)) @ put_unary (status_code (qj_status j)) @ put_int (qj_available_at_ms j) @
     put_time (qj_leased_at_ms j) @ put_time (qj_lease_expires_at_ms j) @ put_time (qj_completed_at_ms j) @
     put_time (qj_dead_at_ms j) @ put_string (qj_created_at j) @ put_string (qj_last_error j) @ put_int (2147483647 - qj_priority j) @ []"

definition get_job :: "bytes \<Rightarrow> queue_job option" where
  "get_job bs =
     Option.bind (get_string bs) (\<lambda>(queue, bs). Option.bind (get_string bs) (\<lambda>(id', bs).
     Option.bind (get_string bs) (\<lambda>(body, bs). Option.bind (get_unary bs) (\<lambda>(attempts, bs).
     Option.bind (get_unary bs) (\<lambda>(max_attempts, bs). Option.bind (get_unary bs) (\<lambda>(status, bs).
     Option.bind (get_int bs) (\<lambda>(available, bs). Option.bind (get_time bs) (\<lambda>(leased, bs).
     Option.bind (get_time bs) (\<lambda>(expires, bs). Option.bind (get_time bs) (\<lambda>(completed, bs).
     Option.bind (get_time bs) (\<lambda>(dead, bs). Option.bind (get_string bs) (\<lambda>(created, bs).
     Option.bind (get_string bs) (\<lambda>(error, bs). Option.bind (get_int bs) (\<lambda>(priority, bs).
       Some \<lparr>qj_queue = queue, qj_id = id', qj_body = body, qj_attempts = of_nat attempts, qj_max_attempts = of_nat max_attempts,
         qj_status = code_status status, qj_available_at_ms = available, qj_leased_at_ms = leased,
         qj_lease_expires_at_ms = expires, qj_completed_at_ms = completed, qj_dead_at_ms = dead, qj_created_at = created,
         qj_last_error = error, qj_priority = 2147483647 - priority\<rparr>))))))))))))))"

lemma get_put_job: "get_job (put_job j) = Some j"
  using get_put_int [of "2147483647 - qj_priority j" "[]"] by (simp add: get_job_def put_job_def)

definition demo_codec :: queue_codec where
  "demo_codec = \<lparr>qc_serialize = (\<lambda>j. Ok (put_job j)),
     qc_deserialize = (\<lambda>bs. case get_job bs of None \<Rightarrow> Err (Storage ''job'') | Some j \<Rightarrow> Ok j),
     qc_deserialize_id = (\<lambda>bs. Ok (from_utf8 bs)), qc_utf8_lossy = from_utf8\<rparr>"

lemma demo_codec_ok: "codec_ok demo_codec"
  by (simp add: codec_ok_def demo_codec_def get_put_job)

definition demo_pushed :: "string \<Rightarrow> int \<Rightarrow> queue_job" where
  "demo_pushed i priority = \<lparr>qj_queue = ''q'', qj_id = i, qj_body = [], qj_attempts = 0, qj_max_attempts = 3, qj_status = Ready,
     qj_available_at_ms = 0, qj_leased_at_ms = None, qj_lease_expires_at_ms = None, qj_completed_at_ms = None,
     qj_dead_at_ms = None, qj_created_at = ''t'', qj_last_error = [], qj_priority = priority\<rparr>"

definition demo_events :: "(pq_call \<times> queue_job option) list" where
  "demo_events = [(PqPush [] (demo_pushed ''e'' 2147483647), Some (demo_pushed ''e'' 2147483647))]"

definition demo_state :: persistent_queue where
  "demo_state = snd (pq_push_job demo_codec [] (demo_pushed ''e'' 2147483647) pq_new)"

lemma demo_wf: "wf_job (demo_pushed i 2147483647)" "queue_name_ok ''q''"
  by (simp_all add: wf_job_def queue_name_ok_def nul_free_def i32_ok_def usize_max_def demo_pushed_def)

lemma demo_run: "pq_run demo_codec demo_events demo_state"
proof -
  have "fst (pq_push_job demo_codec [] (demo_pushed ''e'' 2147483647) pq_new) = Ok (demo_pushed ''e'' 2147483647)"
    by code_simp
  then have "pq_step demo_codec (PqPush [] (demo_pushed ''e'' 2147483647)) pq_new = (Ok (Some (demo_pushed ''e'' 2147483647)), demo_state)"
    by (cases "pq_push_job demo_codec [] (demo_pushed ''e'' 2147483647) pq_new") (simp add: demo_state_def st_try_def)
  moreover have "call_ok [] (PqPush [] (demo_pushed ''e'' 2147483647))"
    using demo_wf(1) [of "''e''"] by (simp add: pushed_def stamp_created_at_def) (simp add: demo_pushed_def)
  ultimately show ?thesis
    using pq_run_step [OF pq_run_new] by (simp add: demo_events_def)
qed

section \<open>Properties\<close>

definition pq_table :: "queue_codec \<Rightarrow> persistent_queue \<Rightarrow> string \<Rightarrow> string \<Rightarrow> queue_job option" where
  "pq_table c s q i =
     Option.bind (ram_get (pq_db s) QUEUE_JOBS (make_queue_key q i))
       (\<lambda>data. case pq_deserialize c data of Inl _ \<Rightarrow> None | Inr j \<Rightarrow> Some j)"

lemma pq_table_rep:
  assumes "pq_rep c s T" "codec_ok c" "queue_name_ok q"
  shows "pq_table c s q i = T (q, i)"
  using get_row [OF assms(1,3), of i] by (cases "T (q, i)") (simp_all add: pq_table_def codec_enc [OF assms(2)])

lemma pq_rep_table: "pq_rep c s T \<Longrightarrow> table_ok T"
  by (simp add: pq_rep_def store_rep_def)

lemma release_table_row:
  assumes "table_ok T"
  shows "release_table now q T (q, i) = map_option (release_job now) (T (q, i))"
proof (cases "T (q, i)")
  case (Some j)
  then show ?thesis
    using table_okD [OF assms Some] by (simp add: release_table_def job_ref_def)
qed (simp add: release_table_def)

lemma release_table_ok:
  assumes "table_ok T"
  shows "table_ok (release_table now q T)"
proof -
  have "job_ref j' = r \<and> wf_job j'" if row: "release_table now q T r = Some j'" for r j'
  proof -
    obtain j where j: "T r = Some j" "j' = j \<or> j' = release_job now j"
      using row by (auto simp: release_table_def split: if_splits)
    then show ?thesis
      using table_okD [OF assms j(1)] by auto
  qed
  moreover have "finite (dom (release_table now q T))"
    using assms by (simp add: table_ok_def)
  ultimately show ?thesis
    unfolding table_ok_def by blast
qed

lemma table_row:
  assumes "table_ok T"
  shows "T (q, i) = Some j \<longleftrightarrow> stored T j \<and> qj_queue j = q \<and> qj_id j = i"
  using table_okD [OF assms, of "(q, i)" j] by (auto simp: stored_def job_ref_def)

text \<open>
  C19: From an empty database, let any sequence of calls push ready jobs with new ids, claim a job,
  claim and acknowledge a job, acknowledge or reject a job, with names, priorities and times in
  range. What the calls returned is what they return on a table of jobs, and the records, the two
  indexes, the cached expirations and the cached cursors of the queue stand for that table. Any
  further such call succeeds: it returns neither an error nor panics.
\<close>

theorem persistent_queue_refines_table:
  assumes "codec_ok c" "pq_run c evs s"
  shows "(\<exists>T. table_run evs T \<and> pq_rep c s T) \<and> (\<forall>call. call_ok evs call \<longrightarrow> (\<exists>r s'. pq_step c call s = (Ok r, s')))"
proof -
  obtain T where T: "table_run evs T" "pq_rep c s T" "pq_claim_mode s = Claim" "dom T = set (pushed evs)"
    using run_refines [OF assms] by blast
  have "\<exists>r s'. pq_step c call s = (Ok r, s')" if "call_ok evs call" for call
    using step_refines [OF T(2) assms(1) T(3) that T(4)] by blast
  then show ?thesis
    using T by blast
qed

theorem persistent_queue_refines_table_witness:
  "codec_ok demo_codec \<and> pq_run demo_codec demo_events demo_state \<and> (\<exists>T. table_run demo_events T \<and> pq_rep demo_codec demo_state T)
    \<and> (\<exists>r s'. pq_step demo_codec (PqAck 5 ''q'' ''e'') demo_state = (Ok r, s'))"
proof -
  have "call_ok demo_events (PqAck 5 ''q'' ''e'')"
    using demo_wf(2) by simp
  then show ?thesis
    using persistent_queue_refines_table [OF demo_codec_ok demo_run] demo_codec_ok demo_run by blast
qed

text \<open>
  C20: A claim on such a queue succeeds. Seen with the expired leases ended, it returns no job only if
  no job of the queue is ready and available, and then changes no row; otherwise it leases the best
  available job, that with the highest priority, among these the first created and among these the
  one with the least id, and changes no other row of the queue.
\<close>

theorem persistent_claim_best:
  assumes "codec_ok c" "pq_run c evs s" "queue_name_ok q" "0 \<le> now"
    "rows = (\<lambda>i. map_option (release_job now) (pq_table c s q i))"
  shows "\<exists>r s'. pq_claim_job_with_options c now q lease_ms s = (Ok r, s') \<and>
    (case r of
       None \<Rightarrow> (\<forall>i j. rows i = Some j \<longrightarrow> \<not> claimable now j) \<and> pq_table c s' q = rows
     | Some j' \<Rightarrow> \<exists>j. rows (qj_id j) = Some j \<and> claimable now j
         \<and> (\<forall>i k. rows i = Some k \<and> claimable now k \<longrightarrow> rank j \<le> rank k)
         \<and> j' = claimed_job lease_ms now False j \<and> pq_table c s' q = rows(qj_id j \<mapsto> j'))"
proof -
  obtain T where T: "pq_rep c s T" "pq_claim_mode s = Claim"
    using run_refines [OF assms(1,2)] by blast
  let ?T = "release_table now q T"
  obtain r s' T' where claim: "pq_claim_job_with_options c now q lease_ms s = (Ok r, s')"
    "claim_rows lease_ms now False q ?T r T'" "pq_rep c s' T'"
    using claim_job_refines [OF T(1) assms(1,3,4), of lease_ms] T(2) by auto
  have rows: "rows i = ?T (q, i)" "pq_table c s' q i = T' (q, i)" for i
    using pq_table_rep [OF T(1) assms(1,3)] pq_table_rep [OF claim(3) assms(1,3)]
    by (simp_all add: assms(5) release_table_row [OF pq_rep_table [OF T(1)]])
  have row: "?T (q, i) = Some j \<longleftrightarrow> stored ?T j \<and> qj_queue j = q \<and> qj_id j = i" for i j
    by (rule table_row [OF release_table_ok [OF pq_rep_table [OF T(1)]]])
  show ?thesis
  proof (cases r)
    case None
    then show ?thesis
      using claim(1,2) by (auto simp: claim_rows_def rows row fun_eq_iff)
  next
    case (Some j')
    then obtain j where j: "best_claimable now q ?T j" "j' = claimed_job lease_ms now False j" "T' = ?T(job_ref j \<mapsto> j')"
      using claim(2) by (auto simp: claim_rows_def)
    then have "rows (qj_id j) = Some j" "claimable now j" "pq_table c s' q = rows(qj_id j \<mapsto> j')"
      by (auto simp: best_claimable_def rows row fun_eq_iff job_ref_def)
    moreover have "rank j \<le> rank k" if "rows i = Some k" "claimable now k" for i k
      using j(1) that by (simp add: best_claimable_def rows row)
    ultimately show ?thesis
      using claim(1) Some j(2) by auto
  qed
qed

theorem persistent_claim_best_witness:
  "\<exists>j s'. pq_claim_job_with_options demo_codec 5 ''q'' 10 demo_state = (Ok (Some j), s') \<and> qj_status j = Leased \<and> qj_id j = ''e''"
proof -
  let ?rows = "\<lambda>i. map_option (release_job 5) (pq_table demo_codec demo_state ''q'' i)"
  have e: "?rows ''e'' = Some (demo_pushed ''e'' 2147483647)" "claimable 5 (demo_pushed ''e'' 2147483647)"
    by code_simp+
  obtain T where T: "table_run demo_events T" "pq_rep demo_codec demo_state T" "dom T = set (pushed demo_events)"
    using run_refines [OF demo_codec_ok demo_run] by blast
  have only: "i = ''e''" if "?rows i = Some j" for i j
  proof -
    have "(''q'', i) \<in> dom T"
      using that pq_table_rep [OF T(2) demo_codec_ok demo_wf(2), of i] by auto
    then show ?thesis
      unfolding T(3) by (simp add: demo_events_def pushed_def demo_pushed_def job_ref_def)
  qed
  obtain r s' where claim: "pq_claim_job_with_options demo_codec 5 ''q'' 10 demo_state = (Ok r, s')"
    and r: "case r of
       None \<Rightarrow> (\<forall>i j. ?rows i = Some j \<longrightarrow> \<not> claimable 5 j) \<and> pq_table demo_codec s' ''q'' = ?rows
     | Some j' \<Rightarrow> \<exists>j. ?rows (qj_id j) = Some j \<and> claimable 5 j \<and> (\<forall>i k. ?rows i = Some k \<and> claimable 5 k \<longrightarrow> rank j \<le> rank k)
         \<and> j' = claimed_job 10 5 False j \<and> pq_table demo_codec s' ''q'' = ?rows(qj_id j \<mapsto> j')"
    using persistent_claim_best [OF demo_codec_ok demo_run demo_wf(2), of 5 ?rows 10] by auto
  show ?thesis
  proof (cases r)
    case None
    then show ?thesis
      using r e by (simp only: option.case)
  next
    case (Some j')
    then obtain j where "?rows (qj_id j) = Some j" "j' = claimed_job 10 5 False j"
      using r by (simp only: option.case) blast
    then show ?thesis
      using claim Some only [of "qj_id j" j] by simp
  qed
qed

definition demo_two_jobs :: persistent_queue where
  "demo_two_jobs = snd (pq_claim_job_with_options demo_codec 0 ''q'' 10
     (snd (pq_push_job demo_codec [] (demo_pushed ''r'' 2147483646) demo_state)))"


end
