(* ===== verification/Spec2Isabelle.thy ===== *)
theory Spec2Isabelle
  imports Engine_Crash Memory_Engine Query_Properties Memory_Cache Queue_Guarantees
begin

text \<open>
  A verification development of thingd (\<open>crates/thingd\<close>) and of its storage engine ThingDB
  (\<open>crates/thingdb\<close>). Paths below are relative to the sources.

  \<^bold>\<open>The program.\<close> ThingDB keeps an ordered map of byte strings, divided into keyspaces. A durable
  database appends each commit group to a write-ahead log, applies it to a memtable, flushes the
  memtable to sorted table files, merges these by compaction, and finds on opening what the last
  manifest names. A RAM database keeps the keyspaces in memory only. thingd puts objects, events,
  job queues, links, search and aggregates on top, once in memory (\<open>in_memory.rs\<close>) and once over
  ThingDB (\<open>persistent.rs\<close>).

  \<^bold>\<open>Shared theories.\<close>
  \<^item> \<open>Prelude\<close>: results, state passing with errors, saturating and checked arithmetic, slices.
  \<^item> \<open>Ordered_Map\<close>: the maps of the standard library as lists: \<open>bm_*\<close> for \<open>BTreeMap\<close>, \<open>hm_*\<close> for
    \<open>HashMap\<close>; locales \<open>finite_map\<close> and \<open>ordered_map\<close> with their interpretations.
  \<^item> \<open>Calls\<close>: the locale \<open>call_system\<close>, which lifts what holds of one call to sequences of calls.
  \<^item> \<open>Ordering\<close>: comparison functions and stable sorting; \<open>Decimal\<close>: decimal numerals.

  \<^bold>\<open>ThingDB\<close> (\<open>crates/thingdb/src/lib.rs\<close>, \<open>cache.rs\<close>).
  \<^item> \<open>Codec\<close>, \<open>Wal\<close>: integers and byte strings, log frames, \<open>replay_wal\<close>. A log that is cut anywhere
    replays to its complete frames; a frame that fails its checksum stops recovery.
  \<^item> \<open>Table\<close>, \<open>Table_Read\<close>, \<open>Block_Cache\<close>: writing, opening and reading table files, and the cache of
    their blocks. A table answers as the memtable it was written from; the cache keeps its budget.
  \<^item> \<open>Keys\<close>: namespaces, physical keys, the successor bound of prefix scans.
  \<^item> \<open>Engine\<close>: the state of an open database (\<open>inner\<close>), its directory (\<open>disk\<close>), commits, flush,
    compaction, background maintenance, opening. \<open>Engine_Names\<close>, \<open>Engine_View\<close>, \<open>Engine_Recovery\<close>
    hold file names, the view a state answers with, and recovery; \<open>Engine_Durability\<close> shows that
    commits are atomic, acknowledged and bounded in memory, \<open>Engine_Crash\<close> that a crash at any point
    loses nothing acknowledged, and what a reopened database answers exactly.
  \<^item> \<open>Memory_Cache\<close>: \<open>MemoryCache\<close> as a least recently used list with deadlines; every call returns.
  \<^item> \<open>Ram_Store\<close>: the RAM mode, its batches, scans and pages.

  \<^bold>\<open>The in-memory engine\<close> (\<open>crates/thingd/src/in_memory.rs\<close>, defaults of \<open>store.rs\<close>, data of
  \<open>model.rs\<close>). \<open>Thingd_Model\<close> holds the data and the state; \<open>Memory_Objects\<close> and \<open>Memory_Versions\<close>
  objects, unique indexes and versions; \<open>Memory_Events\<close> the event log; \<open>Memory_Queue\<close>,
  \<open>Queue_Lifecycle\<close>, \<open>Queue_Properties\<close> the job queues; \<open>Memory_Links\<close> links; \<open>Memory_Query\<close>,
  \<open>Query_Properties\<close>, \<open>Memory_Search\<close> listing, aggregates, search and schema inference;
  \<open>Memory_Engine\<close> the calls of the whole engine, with its invariant and the unique indexes.

  \<^bold>\<open>The persistent job queues\<close> (\<open>impl QueueStore for PersistentEngine\<close>, \<open>persistent.rs\<close>).
  \<^item> \<open>Persistent_Queue\<close>: records, ready index and lease index as keyspaces of \<open>Ram_Store\<close>, the cached
    lease expirations and ready cursors, and every operation, the batch claims included.
  \<^item> \<open>Queue_Keys\<close>: the index keys order jobs by priority, creation time and id, and leases by their end.
  \<^item> \<open>Queue_Refinement\<close>, \<open>Queue_Caches\<close>: the representation \<open>pq_rep\<close> of a table of jobs, and that
    every write and every cache update keeps it.
  \<^item> \<open>Queue_Claims\<close>, \<open>Queue_Simulation\<close>: what expiry, claims, pushes, acknowledgements and rejections
    do to the table. \<open>Queue_Runs\<close>: sequences of calls, as \<open>pq_run\<close> on the queue and \<open>table_run\<close> on
    the table. \<open>Queue_Guarantees\<close>: the simulation, the order of claims, and a batch claim that hides a
    ready job from later claims.

  \<^bold>\<open>Conventions.\<close> A call returns \<open>Inl\<close> an error or \<open>Inr\<close> a value, with the new state. Counters
  and sizes of type \<open>usize\<close> are natural numbers with the saturation written out (\<open>usize_max\<close> is
  2^64 - 1); sequence numbers, versions and attempts keep their width. Clock readings are arguments. Loops are functions with a termination proof: no fuel is used.
  Budgets in invariants say how many calls the counters have room for.

  \<^bold>\<open>Parameters.\<close> The checksum \<open>crc32\<close>, \<open>serde_json\<close>, \<open>chrono\<close>, floating-point arithmetic, Unicode
  tables and the JSON form of queue records are arguments of the definitions. What is assumed of them
  is stated as a hypothesis where it is used (\<open>codec_ok\<close>: a record reads back as it was written).
  Input and output errors of a durable database are modelled at the fault points the code declares and
  at appends, syncs and truncations of the log.

  \<^bold>\<open>Not modelled.\<close> Threads, locks, channels and timings: the writer loop is represented by the groups
  it hands over. Range scans and snapshots of a durable database, and the benchmark-only RAM
  generations. Of the persistent engine everything but the queues: objects, events, links, schemas,
  search (a client of tantivy), opening, backup and re-encryption. Encryption (the primitives are
  library code), the storage backends and connectors (clients of other databases), replication (a
  protocol over JSON-valued events of any store), schema files (a generated parser).
  The server crate is HTTP and JSON plumbing over the engines; the Node binding, the TypeScript
  packages, the command line, benchmarks and examples are clients of the library.
\<close>

end
